(* ===== verification/Cxx_Prelude.thy ===== *)
theory Cxx_Prelude
  imports Main "HOL-Library.Word"
begin

text \<open>
  Vocabulary shared by every component of the development.

  \<^item> The machine types of the C++ code: \<open>size_t\<close> is 64 bits wide and \<open>unsigned\<close> (also
    spelled \<open>uint\<close>) 32 bits; both wrap around.
  \<^item> The faults: what the C++ standard leaves undefined (a read through a null, dangling or
    uninitialised pointer, an access outside a buffer, a division by zero) and the exceptions
    the code throws or lets escape. An operation that can fault returns a value of the sum
    type \<open>'a result\<close>, so that \<open>Inr\<close> in a theorem says that nothing undefined happened.
  \<^item> Labelled transition systems: a component whose threads interleave is a partial step
    function on labels; \<open>reach\<close> is the set of states some schedule can produce and
    \<open>run_labels\<close> executes one schedule. Locales give the induction for an invariant and, where steps commute, the
    uniqueness of the final state.
  \<^item> Ring indices modulo a size, shared by the two circular queues.
\<close>

named_theorems ring_simps

type_synonym size_t = "64 word"
type_synonym uint32 = "32 word"
type_synonym byte = "8 word"
type_synonym thread_id = nat

subsection \<open>Faults\<close>

datatype cxx_fault =
    Null_Dereference
  | Use_After_Free
  | Uninitialised_Read
  | Out_Of_Bounds
  | Division_By_Zero
  | Bad_Array_Length
  | Length_Error
  | Invalid_Argument

type_synonym 'a result = "cxx_fault + 'a"

fun and_then :: "'a result \<Rightarrow> ('a \<Rightarrow> 'b result) \<Rightarrow> 'b result" where
  "and_then (Inl e) f = Inl e"
| "and_then (Inr a) f = f a"

lemma and_then_eq_Inr: "and_then r f = Inr b \<longleftrightarrow> (\<exists>a. r = Inr a \<and> f a = Inr b)"
  by (cases r) auto

lemma and_then_assoc: "and_then (and_then r f) g = and_then r (\<lambda>a. and_then (f a) g)"
  by (cases r) auto

subsection \<open>Schedules and reachable states\<close>

inductive reach :: "('l \<Rightarrow> 's \<Rightarrow> 's option) \<Rightarrow> 's \<Rightarrow> 's \<Rightarrow> bool" for step s0 where
  reach_start: "reach step s0 s0"
| reach_step: "reach step s0 s \<Longrightarrow> step l s = Some s' \<Longrightarrow> reach step s0 s'"

fun run_labels :: "('l \<Rightarrow> 's \<Rightarrow> 's option) \<Rightarrow> 'l list \<Rightarrow> 's \<Rightarrow> 's option" where
  "run_labels step [] s = Some s"
| "run_labels step (l # ls) s =
     (case step l s of None \<Rightarrow> None | Some s' \<Rightarrow> run_labels step ls s')"

lemma run_labels_reach_from:
  "reach step s0 s \<Longrightarrow> run_labels step ls s = Some s' \<Longrightarrow> reach step s0 s'"
  by (induction ls arbitrary: s) (auto split: option.splits intro: reach.reach_step)

lemma run_labels_reach: "run_labels step ls s0 = Some s \<Longrightarrow> reach step s0 s"
  using reach.reach_start run_labels_reach_from by fastforce

lemma run_labels_append:
  "run_labels step (ks @ ls) s = (case run_labels step ks s of None \<Rightarrow> None | Some t \<Rightarrow> run_labels step ls t)"
  by (induction ks arbitrary: s) (auto split: option.splits)

lemma run_keeps:
  assumes "\<And>s l s'. P s \<Longrightarrow> step l s = Some s' \<Longrightarrow> P s'"
  shows "run_labels step ls s = Some s' \<Longrightarrow> P s \<Longrightarrow> P s'"
  using assms by (induction ls arbitrary: s) (auto split: option.splits)

text \<open>
  The interface of a transition system with an inductive invariant. Every state machine of the
  development interprets it on its own step function, and the invariant then holds in every
  reachable state and along every schedule.
\<close>

locale invariant_system =
  fixes step :: "'l \<Rightarrow> 's \<Rightarrow> 's option"
    and start :: "'s"
    and inv :: "'s \<Rightarrow> bool"
  assumes inv_start: "inv start"
    and inv_step: "inv s \<Longrightarrow> step l s = Some s' \<Longrightarrow> inv s'"
begin

lemma inv_reach: "reach step start s \<Longrightarrow> inv s"
  by (induction rule: reach.induct) (auto intro: inv_start inv_step)

lemma inv_run: "run_labels step ls start = Some s \<Longrightarrow> inv s"
  by (blast intro: inv_reach run_labels_reach)

end

text \<open>
  The interface of a system whose internal steps commute: steps of different threads that are both possible can be
  taken in either order. Then every run of internal steps to a state where none is possible ends in the same state.
\<close>

locale commuting_system =
  fixes step :: "'l \<Rightarrow> 's \<Rightarrow> 's option"
    and internal :: "'l \<Rightarrow> bool"
    and inv :: "'s \<Rightarrow> bool"
  assumes keeps: "inv s \<Longrightarrow> internal l \<Longrightarrow> step l s = Some s' \<Longrightarrow> inv s'"
    and commute: "inv s \<Longrightarrow> internal k \<Longrightarrow> internal l \<Longrightarrow> k \<noteq> l \<Longrightarrow> step k s = Some s1 \<Longrightarrow> step l s = Some s2 \<Longrightarrow>
      \<exists>t. step l s1 = Some t \<and> step k s2 = Some t"
begin

lemma strip:
  assumes "inv s" "internal l" "step l s = Some s1" "\<forall>k\<in>set ls. internal k"
    and "run_labels step ls s = Some s'" "\<forall>k. internal k \<longrightarrow> step k s' = None"
  shows "\<exists>ls'. (\<forall>k\<in>set ls'. internal k) \<and> run_labels step ls' s1 = Some s'"
  using assms(1,3-5)
proof (induction ls arbitrary: s s1)
  case Nil
  then show ?case using assms(2,6) by simp
next
  case (Cons k ks)
  then obtain s2 where s2: "step k s = Some s2" "run_labels step ks s2 = Some s'"
    by (auto split: option.splits)
  show ?case
  proof (cases "k = l")
    case True
    then show ?thesis using Cons.prems s2 by (intro exI [of _ ks]) simp
  next
    case False
    then obtain t where t: "step l s2 = Some t" "step k s1 = Some t"
      using commute [of s k l s2 s1] Cons.prems assms(2) s2(1) by auto
    have "inv s2" using keeps [OF Cons.prems(1) _ s2(1)] Cons.prems(3) by simp
    from Cons.IH [OF this t(1) _ s2(2)] obtain ls' where
      "\<forall>k\<in>set ls'. internal k" "run_labels step ls' t = Some s'" using Cons.prems(3) by auto
    then show ?thesis using t(2) Cons.prems(3) by (intro exI [of _ "k # ls'"]) simp
  qed
qed

lemma unique_end:
  assumes "inv s" "\<forall>k\<in>set ls. internal k" "run_labels step ls s = Some s'" "\<forall>k. internal k \<longrightarrow> step k s' = None"
    and "\<forall>k\<in>set ls'. internal k" "run_labels step ls' s = Some s''" "\<forall>k. internal k \<longrightarrow> step k s'' = None"
  shows "s' = s''"
  using assms(1-3,5,6)
proof (induction ls' arbitrary: s ls)
  case Nil
  then show ?case using assms(7) by (cases ls) (auto split: option.splits)
next
  case (Cons l ls')
  then obtain s1 where s1: "step l s = Some s1" "run_labels step ls' s1 = Some s''"
    by (auto split: option.splits)
  obtain ks where "\<forall>k\<in>set ks. internal k" "run_labels step ks s1 = Some s'"
    using strip [OF Cons.prems(1) _ s1(1) Cons.prems(2,3) assms(4)] Cons.prems(4) by auto
  then show ?case using Cons.IH [of s1 ks] keeps [OF Cons.prems(1) _ s1(1)] Cons.prems(4) s1(2) by simp
qed

end

subsection \<open>Threads\<close>

text \<open>
  The threads of a component are the list of their positions in the code; \<open>count_if\<close> counts the
  threads at a kind of position. \<open>notify_one_of\<close> and \<open>notify_all_of\<close> are the notifications of a
  condition variable: a thread at a sleeping position goes on, if there is one.
\<close>

definition count_if :: "('a \<Rightarrow> bool) \<Rightarrow> 'a list \<Rightarrow> nat" where
  "count_if P xs = length (filter P xs)"

lemma replicate_small: "replicate 2 x = [x, x]" "replicate 3 x = [x, x, x]"
  by (simp_all add: numeral_2_eq_2 numeral_3_eq_3)

lemma count_if_update:
  assumes "i < length xs"
  shows "count_if P (xs[i := v]) + (if P (xs ! i) then 1 else 0) = count_if P xs + (if P v then 1 else 0)"
  using assms
proof (induction xs arbitrary: i)
  case (Cons x xs)
  then show ?case by (cases i) (auto simp: count_if_def)
qed simp

lemma count_if_0: "count_if P xs = 0 \<longleftrightarrow> (\<forall>x\<in>set xs. \<not> P x)"
  by (simp add: count_if_def filter_empty_conv)

lemma count_if_pos: "i < length xs \<Longrightarrow> P (xs ! i) \<Longrightarrow> 0 < count_if P xs"
  by (metis count_if_0 neq0_conv nth_mem)

definition notify_one_of :: "('a \<Rightarrow> bool) \<Rightarrow> ('a \<Rightarrow> 'a) \<Rightarrow> thread_id \<Rightarrow> 'a list \<Rightarrow> 'a list option" where
  "notify_one_of sleeping wake t xs =
     (if count_if sleeping xs = 0 then Some xs
      else if t < length xs \<and> sleeping (xs ! t) then Some (xs[t := wake (xs ! t)])
      else None)"

definition notify_all_of :: "('a \<Rightarrow> bool) \<Rightarrow> ('a \<Rightarrow> 'a) \<Rightarrow> 'a list \<Rightarrow> 'a list" where
  "notify_all_of sleeping wake xs = map (\<lambda>p. if sleeping p then wake p else p) xs"

lemma length_notify_all_of [simp]: "length (notify_all_of sleeping wake xs) = length xs"
  by (simp add: notify_all_of_def)

text \<open>A notification wakes exactly one sleeper, if any, and leaves every other kind of position alone.\<close>

lemma notify_one_of_cases:
  assumes "notify_one_of sleeping wake t xs = Some ys"
  obtains "ys = xs" "count_if sleeping xs = 0"
  | "t < length xs" "sleeping (xs ! t)" "ys = xs[t := wake (xs ! t)]"
proof (cases "count_if sleeping xs = 0")
  case True
  then show thesis using assms that(1) by (simp add: notify_one_of_def)
next
  case False
  then have "t < length xs \<and> sleeping (xs ! t) \<and> ys = xs[t := wake (xs ! t)]"
    using assms by (simp add: notify_one_of_def split: if_split_asm)
  then show thesis using that(2) by blast
qed

text \<open>
  A mutex and the positions at which a thread holds it: the owner is the one thread at such a position.
\<close>

definition lock_inv :: "('pc \<Rightarrow> bool) \<Rightarrow> thread_id option \<Rightarrow> 'pc list \<Rightarrow> bool" where
  "lock_inv holds l pcs \<longleftrightarrow> (\<forall>t<length pcs. holds (pcs ! t) \<longleftrightarrow> l = Some t) \<and> (\<forall>t. l = Some t \<longrightarrow> t < length pcs)"

lemma lock_inv_same:
  assumes "t < length pcs" "holds pc = holds (pcs ! t)"
  shows "lock_inv holds l (pcs[t := pc]) = lock_inv holds l pcs"
proof -
  have "holds (pcs[t := pc] ! u) = holds (pcs ! u)" if "u < length pcs" for u
    using assms that by (simp add: nth_list_update)
  then show ?thesis by (simp add: lock_inv_def)
qed

lemma lock_inv_take:
  "lock_inv holds None pcs \<Longrightarrow> t < length pcs \<Longrightarrow> holds pc \<Longrightarrow> lock_inv holds (Some t) (pcs[t := pc])"
  by (auto simp: lock_inv_def nth_list_update)

lemma lock_inv_drop:
  "lock_inv holds l pcs \<Longrightarrow> t < length pcs \<Longrightarrow> holds (pcs ! t) \<Longrightarrow> \<not> holds pc \<Longrightarrow> lock_inv holds None (pcs[t := pc])"
  by (auto simp: lock_inv_def nth_list_update)

lemma lock_inv_holder: "lock_inv holds l pcs \<Longrightarrow> t < length pcs \<Longrightarrow> holds (pcs ! t) \<Longrightarrow> l = Some t"
  by (auto simp: lock_inv_def)

subsection \<open>Ring indices\<close>

text \<open>
  A ring of size \<open>m\<close> that holds \<open>n\<close> elements from index \<open>h\<close> on, read in order.
\<close>

definition ring_view :: "'a list \<Rightarrow> nat \<Rightarrow> nat \<Rightarrow> nat \<Rightarrow> 'a list" where
  "ring_view d m h n = map (\<lambda>i. d ! ((h + i) mod m)) [0..<n]"

definition ring_len :: "nat \<Rightarrow> nat \<Rightarrow> nat \<Rightarrow> nat" where
  "ring_len m h t = (t + m - h) mod m"

lemma length_ring_view [simp]: "length (ring_view d m h n) = n"
  by (simp add: ring_view_def)

lemma ring_view_0 [ring_simps]: "ring_view d m h 0 = []"
  by (simp add: ring_view_def)

lemma ring_view_pop:
  assumes "h < m"
  shows "ring_view d m h (Suc n) = d ! h # ring_view d m (Suc h mod m) n"
proof -
  have "[0..<Suc n] = 0 # map Suc [0..<n]"
    by (simp add: map_Suc_upt upt_conv_Cons)
  moreover have "(h + Suc i) mod m = (Suc h mod m + i) mod m" for i
    by (simp add: mod_simps)
  ultimately show ?thesis
    using assms by (simp add: ring_view_def o_def)
qed

lemma ring_index_inj:
  assumes "(h + i) mod m = (h + j) mod m" "i < m" "j < (m::nat)"
  shows "i = j"
proof -
  have "i = j" if "i \<le> j" "(h + i) mod m = (h + j) mod m" "j < m" for i j
  proof -
    have "m dvd (h + j) - (h + i)"
      using that(1,2) by (metis add_le_cancel_left mod_eq_dvd_iff_nat)
    then have "m dvd j - i" by simp
    then show ?thesis
      using that(1,3) by (auto dest: dvd_imp_le)
  qed
  then show ?thesis
    using assms by (metis linorder_linear)
qed

lemma ring_view_push:
  assumes "n < m" "length d = m" "t = (h + n) mod m"
  shows "ring_view (d[t := x]) m h (Suc n) = ring_view d m h n @ [x]"
proof -
  have t: "t < length d" using assms by simp
  have "t \<noteq> (h + i) mod m" if "i < n" for i
    using ring_index_inj [of h i m n] that assms by auto
  then have "d[t := x] ! ((h + i) mod m) = d ! ((h + i) mod m)" if "i < n" for i
    using that by simp
  then show ?thesis
    using t assms(3) by (simp add: ring_view_def)
qed

lemma ring_view_other:
  assumes "\<And>i. i < n \<Longrightarrow> (h + i) mod m \<noteq> j"
  shows "ring_view (d[j := x]) m h n = ring_view d m h n"
proof -
  have "d[j := x] ! ((h + i) mod m) = d ! ((h + i) mod m)" if "i < n" for i
    using assms [OF that] by (metis nth_list_update_neq)
  then show ?thesis by (simp add: ring_view_def)
qed

lemma ring_len_less: "0 < m \<Longrightarrow> ring_len m h t < m"
  by (simp add: ring_len_def)

lemma ring_len_tail:
  assumes "h < m" "t < m"
  shows "(h + ring_len m h t) mod m = t"
proof -
  have "(h + (t + m - h) mod m) mod m = (h + (t + m - h)) mod m"
    by (simp add: mod_simps)
  also have "h + (t + m - h) = t + m" using assms by simp
  finally show ?thesis using assms by (simp add: ring_len_def)
qed

lemma ring_len_unique:
  assumes "h < m" "t < m" "n < m" "(h + n) mod m = t"
  shows "ring_len m h t = n"
  using assms ring_index_inj [of h "ring_len m h t" m n] ring_len_tail [of h m t]
  by (simp add: ring_len_def)

lemma ring_len_eq_0: "h < m \<Longrightarrow> t < m \<Longrightarrow> ring_len m h t = 0 \<longleftrightarrow> h = t"
  using ring_len_tail [of h m t] ring_len_unique [of h m t 0] by auto

lemma ring_full_iff:
  assumes "h < m" "t < m"
  shows "Suc t mod m = h \<longleftrightarrow> Suc (ring_len m h t) = m"
proof
  assume "Suc t mod m = h"
  then have "(h + Suc (ring_len m h t)) mod m = (h + 0) mod m"
    using assms ring_len_tail [of h m t]
    by (metis add.right_neutral add_Suc_right mod_Suc_eq mod_less)
  then show "Suc (ring_len m h t) = m"
    using ring_index_inj [of h "Suc (ring_len m h t)" m 0] ring_len_less [of m h t] assms
    by (metis Suc_leI le_neq_implies_less less_nat_zero_code nat.distinct(1) not_gr_zero)
next
  assume full: "Suc (ring_len m h t) = m"
  have "Suc t mod m = Suc ((h + ring_len m h t) mod m) mod m"
    using assms ring_len_tail by simp
  also have "\<dots> = (h + m) mod m"
    using full by (metis add_Suc_right mod_Suc_eq)
  finally show "Suc t mod m = h" using assms by simp
qed

lemma ring_len_push:
  assumes "h < m" "t < m" "Suc (ring_len m h t) < m"
  shows "ring_len m h (Suc t mod m) = Suc (ring_len m h t)"
proof (rule ring_len_unique)
  have "(h + Suc (ring_len m h t)) mod m = Suc ((h + ring_len m h t) mod m) mod m"
    by (simp add: mod_simps)
  then show "(h + Suc (ring_len m h t)) mod m = Suc t mod m"
    using ring_len_tail assms by simp
qed (use assms in auto)

lemma ring_len_pop:
  assumes "h < m" "t < m" "h \<noteq> t"
  shows "Suc (ring_len m (Suc h mod m) t) = ring_len m h t"
proof -
  obtain n where n: "ring_len m h t = Suc n"
    using assms ring_len_eq_0 not0_implies_Suc by blast
  have "(Suc h mod m + n) mod m = (h + ring_len m h t) mod m"
    by (simp add: n mod_simps)
  also have "\<dots> = t" using assms by (simp add: ring_len_tail)
  finally have "ring_len m (Suc h mod m) t = n"
    using assms n ring_len_less [of m h t] by (intro ring_len_unique) auto
  then show ?thesis by (simp add: n)
qed

subsection \<open>Machine words\<close>

text \<open>
  The increment of a \<open>size_t\<close> ring index does not wrap around at 64 bits as long as the index
  is below the ring's size.
\<close>

lemma unat_succ_mod [ring_simps]:
  fixes a n :: "'w::len word"
  assumes "a < n"
  shows "unat ((a + 1) mod n) = Suc (unat a) mod unat n"
proof -
  have "unat a < unat n" using assms by (simp add: word_less_nat_alt)
  then have "unat a + 1 < 2 ^ LENGTH('w)"
    using unsigned_less [of n, where ?'a = nat] by linarith
  then have "unat (a + 1) = unat a + 1"
    by (simp add: unat_word_ariths)
  then show ?thesis by (simp add: unat_mod_distrib)
qed

subsection \<open>Decimal output\<close>

text \<open>What \<open>operator<<\<close> and \<open>std::to_string\<close> write for an unsigned integer.\<close>

definition digit_char :: "nat \<Rightarrow> char" where
  "digit_char d = char_of (48 + d)"

fun decimal :: "nat \<Rightarrow> string" where
  "decimal n = (if n < 10 then [digit_char n] else decimal (n div 10) @ [digit_char (n mod 10)])"

declare decimal.simps [simp del]

fun undecimal :: "string \<Rightarrow> nat" where
  "undecimal cs = foldl (\<lambda>n c. 10 * n + (of_char c - 48)) 0 cs"

lemma of_digit_char: "d < 10 \<Longrightarrow> of_char (digit_char d) = (48 + d :: nat)"
  by (simp add: digit_char_def)

lemma undecimal_decimal: "undecimal (decimal n) = n"
proof (induction n rule: decimal.induct)
  case (1 n)
  show ?case
  proof (cases "n < 10")
    case True
    then show ?thesis by (simp add: decimal.simps [of n] of_digit_char)
  next
    case False
    then have "undecimal (decimal n) = 10 * undecimal (decimal (n div 10)) + n mod 10"
      by (simp add: decimal.simps [of n] of_digit_char)
    with 1 False show ?thesis by simp
  qed
qed

lemma decimal_inject: "decimal m = decimal n \<longleftrightarrow> m = n"
  by (metis undecimal_decimal)

end
