(* ===== verification/Container_Interfaces.thy ===== *)
theory Container_Interfaces
  imports Cxx_Prelude
begin

text \<open>
  The contracts the containers of the repository promise to their clients.

  A method that takes the object's mutex for its whole body is one atomic operation, so a
  concurrent execution is a sequence of operations in the order in which the threads got the
  lock. \<open>queue_run\<close> executes such a sequence and records the accepted and the delivered
  elements; \<open>fifo_queue\<close>, \<open>bounded_fifo_queue\<close> and \<open>lifo_stack\<close> state the laws of one
  operation and prove what follows for every sequence.

  A blocking method waits on a condition variable. \<open>mon_step\<close> is the protocol of
  \<open>std::condition_variable\<close> around an object: a thread that finds the predicate false is put
  to sleep, a notification moves sleeping threads to those that recheck the predicate, and a
  sleeper may wake up spuriously. \<open>wait_monitor\<close> proves that no wake-up is lost when every
  push notifies a sleeper.
\<close>

subsection \<open>Sequences of operations\<close>

datatype 'a queue_op = Push 'a | Pop

datatype 'a queue_res = Pushed bool | Popped "'a option"

fun queue_run ::
  "('a \<Rightarrow> 's \<Rightarrow> (bool \<times> 's) result) \<Rightarrow> ('s \<Rightarrow> ('a option \<times> 's) result) \<Rightarrow>
   'a queue_op list \<Rightarrow> 's \<Rightarrow> ('a queue_res list \<times> 's) result" where
  "queue_run push pop [] s = Inr ([], s)"
| "queue_run push pop (Push x # ops) s =
     and_then (push x s) (\<lambda>(ok, s'). and_then (queue_run push pop ops s')
       (\<lambda>(rs, t). Inr (Pushed ok # rs, t)))"
| "queue_run push pop (Pop # ops) s =
     and_then (pop s) (\<lambda>(r, s'). and_then (queue_run push pop ops s')
       (\<lambda>(rs, t). Inr (Popped r # rs, t)))"

text \<open>
  The reference behaviours on a list: a queue that accepts an element while \<open>room\<close> holds of
  its length, and a stack.
\<close>

fun fifo_ref :: "(nat \<Rightarrow> bool) \<Rightarrow> 'a queue_op list \<Rightarrow> 'a list \<Rightarrow> 'a queue_res list \<times> 'a list" where
  "fifo_ref room [] xs = ([], xs)"
| "fifo_ref room (Push x # ops) xs =
     (let ok = room (length xs); (rs, ys) = fifo_ref room ops (if ok then xs @ [x] else xs)
      in (Pushed ok # rs, ys))"
| "fifo_ref room (Pop # ops) xs =
     (let (rs, ys) = fifo_ref room ops (tl xs)
      in (Popped (case xs of [] \<Rightarrow> None | x # _ \<Rightarrow> Some x) # rs, ys))"

fun lifo_ref :: "'a queue_op list \<Rightarrow> 'a list \<Rightarrow> 'a queue_res list \<times> 'a list" where
  "lifo_ref [] xs = ([], xs)"
| "lifo_ref (Push x # ops) xs =
     (let (rs, ys) = lifo_ref ops (x # xs) in (Pushed True # rs, ys))"
| "lifo_ref (Pop # ops) xs =
     (let (rs, ys) = lifo_ref ops (tl xs)
      in (Popped (case xs of [] \<Rightarrow> None | x # _ \<Rightarrow> Some x) # rs, ys))"

text \<open>The elements a sequence of operations put in, and those it took out.\<close>

fun accepted :: "'a queue_op list \<Rightarrow> 'a queue_res list \<Rightarrow> 'a list" where
  "accepted (Push x # ops) (Pushed ok # rs) = (if ok then x # accepted ops rs else accepted ops rs)"
| "accepted (op # ops) (r # rs) = accepted ops rs"
| "accepted ops rs = []"

fun taken :: "'a queue_res list \<Rightarrow> 'a list" where
  "taken [] = []"
| "taken (Popped (Some x) # rs) = x # taken rs"
| "taken (r # rs) = taken rs"

lemma fifo_ref_conserves:
  "xs @ accepted ops (fst (fifo_ref room ops xs)) =
   taken (fst (fifo_ref room ops xs)) @ snd (fifo_ref room ops xs)"
proof (induction ops arbitrary: xs)
  case Nil
  then show ?case by simp
next
  case (Cons op ops)
  show ?case
  proof (cases op)
    case (Push x)
    with Cons.IH [of "xs @ [x]"] Cons.IH [of xs] show ?thesis
      by (auto simp: Let_def split: prod.splits)
  next
    case Pop
    with Cons.IH [of "tl xs"] show ?thesis
      by (cases xs) (auto simp: Let_def split: prod.splits)
  qed
qed

lemma fifo_ref_length:
  "length xs \<le> c \<Longrightarrow> length (snd (fifo_ref (\<lambda>n. n < c) ops xs)) \<le> c"
proof (induction ops arbitrary: xs)
  case Nil
  then show ?case by simp
next
  case (Cons op ops)
  show ?case
  proof (cases op)
    case (Push x)
    with Cons.IH [of xs] Cons.IH [of "xs @ [x]"] Cons.prems show ?thesis
      by (auto simp: Let_def split: prod.splits)
  next
    case Pop
    with Cons.IH [of "tl xs"] Cons.prems show ?thesis
      by (auto simp: Let_def split: prod.splits)
  qed
qed

locale fifo_queue =
  fixes push :: "'a \<Rightarrow> 's \<Rightarrow> (bool \<times> 's) result"
    and pop :: "'s \<Rightarrow> ('a option \<times> 's) result"
    and contents :: "'s \<Rightarrow> 'a list"
    and room :: "'s \<Rightarrow> nat \<Rightarrow> bool"
    and invar :: "'s \<Rightarrow> bool"
  assumes push_accepts: "invar s \<Longrightarrow> room s (length (contents s)) \<Longrightarrow>
      \<exists>s'. push x s = Inr (True, s') \<and> invar s' \<and> room s' = room s \<and> contents s' = contents s @ [x]"
    and push_refuses: "invar s \<Longrightarrow> \<not> room s (length (contents s)) \<Longrightarrow>
      \<exists>s'. push x s = Inr (False, s') \<and> invar s' \<and> room s' = room s \<and> contents s' = contents s"
    and pop_empty: "invar s \<Longrightarrow> contents s = [] \<Longrightarrow>
      \<exists>s'. pop s = Inr (None, s') \<and> invar s' \<and> room s' = room s \<and> contents s' = []"
    and pop_front: "invar s \<Longrightarrow> contents s = x # xs \<Longrightarrow>
      \<exists>s'. pop s = Inr (Some x, s') \<and> invar s' \<and> room s' = room s \<and> contents s' = xs"
begin

text \<open>
  Whatever the sequence of operations, nothing faults and the results the callers see are those
  of the reference queue on the abstract contents.
\<close>

lemma run_refines:
  "invar s \<Longrightarrow> \<exists>t. queue_run push pop ops s = Inr (fst (fifo_ref (room s) ops (contents s)), t) \<and>
     invar t \<and> room t = room s \<and> contents t = snd (fifo_ref (room s) ops (contents s))"
proof (induction ops arbitrary: s)
  case Nil
  then show ?case by simp
next
  case (Cons op ops)
  show ?case
  proof (cases op)
    case (Push x)
    show ?thesis
    proof (cases "room s (length (contents s))")
      case True
      obtain s' where "push x s = Inr (True, s')" "invar s'" "room s' = room s"
        "contents s' = contents s @ [x]"
        using push_accepts [OF Cons.prems True] by blast
      with Push True Cons.IH [of s'] show ?thesis by (auto simp: Let_def split: prod.splits)
    next
      case False
      obtain s' where "push x s = Inr (False, s')" "invar s'" "room s' = room s"
        "contents s' = contents s"
        using push_refuses [OF Cons.prems False] by blast
      with Push False Cons.IH [of s'] show ?thesis by (auto simp: Let_def split: prod.splits)
    qed
  next
    case Pop
    obtain s' where "pop s = Inr (case contents s of [] \<Rightarrow> None | x # _ \<Rightarrow> Some x, s')" "invar s'"
      "room s' = room s" "contents s' = tl (contents s)"
      using pop_empty [OF Cons.prems] pop_front [OF Cons.prems]
      by (cases "contents s") fastforce+
    with Pop Cons.IH [of s'] show ?thesis by (auto simp: Let_def split: prod.splits)
  qed
qed

text \<open>
  First in, first out, with no loss and no duplication: what was in the queue followed by what
  was accepted is what was taken followed by what is left.
\<close>

lemma run_conserves:
  assumes "invar s"
  shows "\<exists>rs t. queue_run push pop ops s = Inr (rs, t) \<and> invar t \<and>
    contents s @ accepted ops rs = taken rs @ contents t"
  using run_refines [OF assms, of ops] fifo_ref_conserves [of "contents s" ops "room s"] by auto

end

locale bounded_fifo_queue = fifo_queue +
  fixes cap :: "'b \<Rightarrow> nat"
  assumes room_cap: "room s = (\<lambda>n. n < cap s)"
    and within_cap: "invar s \<Longrightarrow> length (contents s) \<le> cap s"
begin

lemma run_within_cap:
  assumes "invar s" "queue_run push pop ops s = Inr (rs, t)"
  shows "length (contents t) \<le> cap s"
  using run_refines [OF assms(1), of ops] fifo_ref_length [OF within_cap [OF assms(1)], of ops] assms(2)
  by (auto simp: room_cap)

end

locale lifo_stack =
  fixes push :: "'a \<Rightarrow> 's \<Rightarrow> (bool \<times> 's) result"
    and pop :: "'s \<Rightarrow> ('a option \<times> 's) result"
    and contents :: "'s \<Rightarrow> 'a list"
    and invar :: "'s \<Rightarrow> bool"
  assumes push_law: "invar s \<Longrightarrow> \<exists>s'. push x s = Inr (True, s') \<and> invar s' \<and>
      contents s' = x # contents s"
    and pop_law: "invar s \<Longrightarrow>
      \<exists>s'. pop s = Inr (case contents s of [] \<Rightarrow> None | x # _ \<Rightarrow> Some x, s') \<and> invar s' \<and>
        contents s' = tl (contents s)"
begin

lemma run_refines:
  "invar s \<Longrightarrow> \<exists>t. queue_run push pop ops s = Inr (fst (lifo_ref ops (contents s)), t) \<and>
     invar t \<and> contents t = snd (lifo_ref ops (contents s))"
proof (induction ops arbitrary: s)
  case Nil
  then show ?case by simp
next
  case (Cons op ops)
  show ?case
  proof (cases op)
    case (Push x)
    obtain s' where "push x s = Inr (True, s')" "invar s'" "contents s' = x # contents s"
      using push_law [OF Cons.prems] by blast
    with Push Cons.IH [of s'] show ?thesis by (auto simp: Let_def split: prod.splits)
  next
    case Pop
    obtain s' where "pop s = Inr (case contents s of [] \<Rightarrow> None | x # _ \<Rightarrow> Some x, s')" "invar s'"
      "contents s' = tl (contents s)"
      using pop_law [OF Cons.prems] by blast
    with Pop Cons.IH [of s'] show ?thesis by (auto simp: Let_def split: prod.splits)
  qed
qed

end

subsection \<open>Condition variables\<close>

record ('o, 'a) monitor =
  mon_obj :: "'o"
  waiting :: "thread_id list"
  woken :: "thread_id list"
  delivered :: "(thread_id \<times> 'a) list"

datatype 'a mon_label =
    Do_push 'a "thread_id list"
  | Call_pop thread_id
  | Resume thread_id
  | Spurious thread_id

text \<open>
  The notification policies, as predicates on the sleeping threads and the threads woken:
  \<open>notify_one\<close> wakes any one sleeper if there is one, \<open>notify_all\<close> wakes all of them.
\<close>

definition notify_one :: "thread_id list \<Rightarrow> thread_id list \<Rightarrow> bool" where
  "notify_one ws ts \<longleftrightarrow> (if ws = [] then ts = [] else length ts = 1 \<and> hd ts \<in> set ws)"

definition notify_all :: "thread_id list \<Rightarrow> thread_id list \<Rightarrow> bool" where
  "notify_all ws ts \<longleftrightarrow> ts = ws"

definition mon_attempt ::
  "('o \<Rightarrow> ('a \<times> 'o) option) \<Rightarrow> thread_id \<Rightarrow> ('o, 'a) monitor \<Rightarrow> ('o, 'a) monitor" where
  "mon_attempt pop t s =
     (case pop (mon_obj s) of
        None \<Rightarrow> s\<lparr>waiting := waiting s @ [t]\<rparr>
      | Some (x, o') \<Rightarrow> s\<lparr>mon_obj := o', delivered := delivered s @ [(t, x)]\<rparr>)"

fun mon_step ::
  "('a \<Rightarrow> 'o \<Rightarrow> 'o) \<Rightarrow> ('o \<Rightarrow> ('a \<times> 'o) option) \<Rightarrow> (thread_id list \<Rightarrow> thread_id list \<Rightarrow> bool) \<Rightarrow>
   'a mon_label \<Rightarrow> ('o, 'a) monitor \<Rightarrow> ('o, 'a) monitor option" where
  "mon_step push pop policy (Do_push x ts) s =
     (if policy (waiting s) ts
      then Some (s\<lparr>mon_obj := push x (mon_obj s),
                  waiting := filter (\<lambda>t. t \<notin> set ts) (waiting s),
                  woken := woken s @ ts\<rparr>)
      else None)"
| "mon_step push pop policy (Call_pop t) s =
     (if t \<in> set (waiting s) \<union> set (woken s) then None else Some (mon_attempt pop t s))"
| "mon_step push pop policy (Resume t) s =
     (if t \<in> set (woken s) then Some (mon_attempt pop t (s\<lparr>woken := remove1 t (woken s)\<rparr>)) else None)"
| "mon_step push pop policy (Spurious t) s =
     (if t \<in> set (waiting s)
      then Some (s\<lparr>waiting := remove1 t (waiting s), woken := woken s @ [t]\<rparr>) else None)"

definition mon_start :: "'o \<Rightarrow> ('o, 'a) monitor" where
  "mon_start ob = \<lparr>mon_obj = ob, waiting = [], woken = [], delivered = []\<rparr>"

text \<open>
  The invariant behind the absence of lost wake-ups: while some thread sleeps, every element
  that is available has a woken thread on its way to it.
\<close>

definition no_lost_wakeup :: "('o \<Rightarrow> nat) \<Rightarrow> ('o, 'a) monitor \<Rightarrow> bool" where
  "no_lost_wakeup sz s \<longleftrightarrow> (waiting s \<noteq> [] \<longrightarrow> sz (mon_obj s) \<le> length (woken s))"

locale wait_monitor =
  fixes push :: "'a \<Rightarrow> 'o \<Rightarrow> 'o"
    and pop :: "'o \<Rightarrow> ('a \<times> 'o) option"
    and policy :: "thread_id list \<Rightarrow> thread_id list \<Rightarrow> bool"
    and sz :: "'o \<Rightarrow> nat"
    and start :: "'o"
  assumes push_size: "sz (push x ob) = Suc (sz ob)"
    and pop_None: "pop ob = None \<Longrightarrow> sz ob = 0"
    and pop_Some: "pop ob = Some (x, o') \<Longrightarrow> sz ob = Suc (sz o')"
    and policy_wakes: "policy ws ts \<Longrightarrow> ws \<noteq> [] \<Longrightarrow> ts \<noteq> []"
    and start_empty: "sz start = 0"
begin

lemma attempt_keeps:
  assumes "waiting s \<noteq> [] \<longrightarrow> sz (mon_obj s) \<le> Suc (length (woken s))"
  shows "no_lost_wakeup sz (mon_attempt pop t s)"
  using assms pop_None pop_Some
  by (fastforce simp: mon_attempt_def no_lost_wakeup_def split: option.splits)

lemma step_keeps:
  assumes inv: "no_lost_wakeup sz s" and step: "mon_step push pop policy l s = Some s'"
  shows "no_lost_wakeup sz s'"
proof (cases l)
  case (Do_push x ts)
  have "waiting s \<noteq> [] \<Longrightarrow> Suc (sz (mon_obj s)) \<le> length (woken s) + length ts"
    using Do_push step inv policy_wakes [of "waiting s" ts]
    by (cases ts) (auto simp: no_lost_wakeup_def split: if_splits)
  with Do_push step show ?thesis
    by (cases "waiting s") (auto simp: no_lost_wakeup_def push_size split: if_splits)
next
  case (Call_pop t)
  with step have "s' = mon_attempt pop t s" by (simp split: if_splits)
  then show ?thesis using inv by (auto simp: no_lost_wakeup_def [of sz s] intro: attempt_keeps)
next
  case (Resume t)
  with step have s': "s' = mon_attempt pop t (s\<lparr>woken := remove1 t (woken s)\<rparr>)"
    and "t \<in> set (woken s)" by (simp_all split: if_splits)
  then have "Suc (length (remove1 t (woken s))) = length (woken s)"
    using length_pos_if_in_set [of t "woken s"] by (simp add: length_remove1)
  then show ?thesis using inv s' by (auto simp: no_lost_wakeup_def [of sz s] intro!: attempt_keeps)
next
  case (Spurious t)
  with step inv show ?thesis
    by (cases "waiting s") (auto simp: no_lost_wakeup_def split: if_splits)
qed

sublocale mon: invariant_system "mon_step push pop policy" "mon_start start" "no_lost_wakeup sz"
proof
  show "no_lost_wakeup sz (mon_start start)"
    by (simp add: no_lost_wakeup_def mon_start_def)
qed (rule step_keeps)

lemma sleepers_only_when_empty:
  assumes "reach (mon_step push pop policy) (mon_start start) s" and "waiting s \<noteq> []" and "woken s = []"
  shows "sz (mon_obj s) = 0"
  using mon.inv_reach [OF assms(1)] assms(2,3) by (simp add: no_lost_wakeup_def)

end

end
