(* ===== verification/Safe_Queue.thy ===== *)
theory Safe_Queue
  imports Container_Interfaces
begin

text \<open>
  \<open>include/data_struct/SafeQueue.hpp\<close>: the two unbounded thread-safe queues.

  \<open>SafeQueue\<close> keeps a \<open>std::queue\<close> behind one mutex; each method is one critical section.
  \<open>SafeQueueEnhance\<close> is a singly linked list with a dummy node at its tail, a head mutex for
  the consumers and a tail mutex for the producers. Its nodes live in an explicit heap, so that
  a null, dangling or empty node is a fault of the model. The abstraction \<open>enh_contents\<close>
  follows the links from the head to the dummy. Here each of its methods is one step; the
  interleavings of the two critical sections are the subject of \<open>Two_Lock_Queue\<close>.
\<close>

subsection \<open>SafeQueue\<close>

record 'a safe_queue =
  sq_queue :: "'a list"

definition SafeQueue_new :: "'a safe_queue" where
  "SafeQueue_new = \<lparr>sq_queue = []\<rparr>"

definition SafeQueue_push :: "'a \<Rightarrow> 'a safe_queue \<Rightarrow> 'a safe_queue" where
  "SafeQueue_push x q = q\<lparr>sq_queue := sq_queue q @ [x]\<rparr>"

definition SafeQueue_empty :: "'a safe_queue \<Rightarrow> bool" where
  "SafeQueue_empty q \<longleftrightarrow> sq_queue q = []"

definition SafeQueue_try_pop :: "'a safe_queue \<Rightarrow> 'a option \<times> 'a safe_queue" where
  "SafeQueue_try_pop q =
     (case sq_queue q of [] \<Rightarrow> (None, q) | x # xs \<Rightarrow> (Some x, q\<lparr>sq_queue := xs\<rparr>))"

text \<open>
  \<open>wait_pop\<close> once it holds the lock: \<open>None\<close> when the wait predicate is false, so that the
  caller goes to sleep on \<open>cv_lock_\<close>.
\<close>

definition SafeQueue_wait_pop :: "'a safe_queue \<Rightarrow> ('a \<times> 'a safe_queue) option" where
  "SafeQueue_wait_pop q =
     (case sq_queue q of [] \<Rightarrow> None | x # xs \<Rightarrow> Some (x, q\<lparr>sq_queue := xs\<rparr>))"

interpretation sq: fifo_queue "\<lambda>x q. Inr (True, SafeQueue_push x q)" "\<lambda>q. Inr (SafeQueue_try_pop q)"
    sq_queue "\<lambda>_ _. True" "\<lambda>_. True"
  by unfold_locales (auto simp: SafeQueue_push_def SafeQueue_try_pop_def)

interpretation sq_mon: wait_monitor SafeQueue_push SafeQueue_wait_pop notify_one
    "\<lambda>q. length (sq_queue q)" SafeQueue_new
  by unfold_locales
    (auto simp: SafeQueue_push_def SafeQueue_wait_pop_def SafeQueue_new_def notify_one_def
      split: list.splits)

subsection \<open>SafeQueueEnhance\<close>

record 'a queue_node =
  node_data :: "'a option"
  node_next :: "nat option"

record 'a safe_queue_enhance =
  enh_heap :: "nat \<rightharpoonup> 'a queue_node"
  enh_fresh :: nat
  enh_head :: "nat option"
  enh_tail :: nat

definition empty_node :: "'a queue_node" where
  "empty_node = \<lparr>node_data = None, node_next = None\<rparr>"

definition SafeQueueEnhance_new :: "'a safe_queue_enhance" where
  "SafeQueueEnhance_new =
     \<lparr>enh_heap = [0 \<mapsto> empty_node], enh_fresh = 1, enh_head = Some 0, enh_tail = 0\<rparr>"

definition SafeQueueEnhance_push :: "'a \<Rightarrow> 'a safe_queue_enhance \<Rightarrow> 'a safe_queue_enhance result" where
  "SafeQueueEnhance_push x q =
     (let new_tail = enh_fresh q in
      case enh_heap q (enh_tail q) of
        None \<Rightarrow> Inl Use_After_Free
      | Some nd \<Rightarrow> Inr (q\<lparr>
          enh_heap := (enh_heap q)(enh_tail q \<mapsto> \<lparr>node_data = Some x, node_next = Some new_tail\<rparr>,
                                  new_tail \<mapsto> empty_node),
          enh_fresh := Suc new_tail, enh_tail := new_tail\<rparr>))"

definition SafeQueueEnhance_pop :: "'a safe_queue_enhance \<Rightarrow> ('a \<times> 'a safe_queue_enhance) result" where
  "SafeQueueEnhance_pop q =
     (case enh_head q of
        None \<Rightarrow> Inl Null_Dereference
      | Some old_head \<Rightarrow>
         (case enh_heap q old_head of
            None \<Rightarrow> Inl Use_After_Free
          | Some nd \<Rightarrow>
             (case node_data nd of
                None \<Rightarrow> Inl Null_Dereference
              | Some x \<Rightarrow> Inr (x, q\<lparr>enh_head := node_next nd,
                                   enh_heap := (enh_heap q)(old_head := None)\<rparr>))))"

definition SafeQueueEnhance_try_pop ::
  "'a safe_queue_enhance \<Rightarrow> ('a option \<times> 'a safe_queue_enhance) result" where
  "SafeQueueEnhance_try_pop q =
     (if enh_head q = Some (enh_tail q) then Inr (None, q)
      else and_then (SafeQueueEnhance_pop q) (\<lambda>(x, q'). Inr (Some x, q')))"

text \<open>
  \<open>wait_pop\<close> once it holds \<open>mt_head_\<close>: \<open>None\<close> when the predicate is false and the caller
  goes to sleep on \<open>cv_lock_\<close>.
\<close>

definition SafeQueueEnhance_wait_pop ::
  "'a safe_queue_enhance \<Rightarrow> ('a \<times> 'a safe_queue_enhance) result option" where
  "SafeQueueEnhance_wait_pop q =
     (if enh_head q = Some (enh_tail q) then None else Some (SafeQueueEnhance_pop q))"

text \<open>The elements between a node and the dummy, and the shape every queue of the code has.\<close>

fun chain_values :: "nat \<Rightarrow> (nat \<rightharpoonup> 'a queue_node) \<Rightarrow> nat \<Rightarrow> nat \<Rightarrow> 'a list" where
  "chain_values 0 h p t = []"
| "chain_values (Suc n) h p t =
     (if p = t then []
      else case h p of
        None \<Rightarrow> []
      | Some nd \<Rightarrow> (case (node_data nd, node_next nd) of
          (Some x, Some p') \<Rightarrow> x # chain_values n h p' t
        | _ \<Rightarrow> []))"

definition enh_contents :: "'a safe_queue_enhance \<Rightarrow> 'a list" where
  "enh_contents q =
     (case enh_head q of None \<Rightarrow> [] | Some p \<Rightarrow> chain_values (enh_fresh q) (enh_heap q) p (enh_tail q))"

inductive chain :: "(nat \<rightharpoonup> 'a queue_node) \<Rightarrow> nat \<Rightarrow> 'a list \<Rightarrow> nat \<Rightarrow> bool" for h where
  chain_end: "chain h t [] t"
| chain_node: "h p = Some \<lparr>node_data = Some x, node_next = Some p'\<rparr> \<Longrightarrow> p < p' \<Longrightarrow>
    chain h p' xs t \<Longrightarrow> chain h p (x # xs) t"

inductive_cases chain_ConsE: "chain h p (x # xs) t"
inductive_cases chain_NilE: "chain h p [] t"

definition enh_inv :: "'a safe_queue_enhance \<Rightarrow> bool" where
  "enh_inv q \<longleftrightarrow> (\<exists>p xs. enh_head q = Some p \<and> chain (enh_heap q) p xs (enh_tail q)) \<and>
     enh_heap q (enh_tail q) = Some empty_node \<and> enh_tail q < enh_fresh q"

lemma chain_le: "chain h p xs t \<Longrightarrow> p \<le> t"
  by (induction rule: chain.induct) auto

lemma chain_values_chain: "chain h p xs t \<Longrightarrow> t - p \<le> n \<Longrightarrow> chain_values n h p t = xs"
proof (induction arbitrary: n rule: chain.induct)
  case (chain_end t)
  then show ?case by (cases n) auto
next
  case (chain_node p x p' xs t)
  then have "p' \<le> t" by (auto dest: chain_le)
  with chain_node.hyps(2) chain_node.prems obtain m where "n = Suc m" "t - p' \<le> m"
    by (cases n) auto
  with chain_node \<open>p' \<le> t\<close> show ?case by simp
qed

lemma chain_push:
  "chain h p xs t \<Longrightarrow> t < n \<Longrightarrow>
   chain (h(t \<mapsto> \<lparr>node_data = Some x, node_next = Some n\<rparr>, n \<mapsto> empty_node)) p (xs @ [x]) n"
proof (induction rule: chain.induct)
  case (chain_end t)
  then show ?case by (auto intro!: chain.intros)
next
  case (chain_node p y p' xs t)
  then show ?case by (auto dest: chain_le intro!: chain.intros)
qed

lemma chain_free: "chain h p xs t \<Longrightarrow> q < p \<Longrightarrow> chain (h(q := None)) p xs t"
  by (induction rule: chain.induct) (auto intro: chain.intros)

lemma enh_contents_chain:
  "enh_head q = Some p \<Longrightarrow> chain (enh_heap q) p xs (enh_tail q) \<Longrightarrow> enh_tail q < enh_fresh q \<Longrightarrow>
   enh_contents q = xs"
  by (simp add: enh_contents_def chain_values_chain)

lemma enh_invE:
  assumes "enh_inv q"
  obtains p where "enh_head q = Some p" "chain (enh_heap q) p (enh_contents q) (enh_tail q)"
    "enh_heap q (enh_tail q) = Some empty_node" "enh_tail q < enh_fresh q"
  using assms by (auto simp: enh_inv_def dest: enh_contents_chain)

lemma enh_push_correct:
  assumes "enh_inv q"
  shows "\<exists>q'. SafeQueueEnhance_push x q = Inr q' \<and> enh_inv q' \<and> enh_contents q' = enh_contents q @ [x]"
proof -
  obtain p where p: "enh_head q = Some p" "chain (enh_heap q) p (enh_contents q) (enh_tail q)"
    "enh_heap q (enh_tail q) = Some empty_node" "enh_tail q < enh_fresh q"
    using assms by (rule enh_invE)
  let ?h = "(enh_heap q)(enh_tail q \<mapsto> \<lparr>node_data = Some x, node_next = Some (enh_fresh q)\<rparr>,
    enh_fresh q \<mapsto> empty_node)"
  let ?q = "q\<lparr>enh_heap := ?h, enh_fresh := Suc (enh_fresh q), enh_tail := enh_fresh q\<rparr>"
  have "chain ?h p (enh_contents q @ [x]) (enh_fresh q)"
    using p by (intro chain_push)
  then have "enh_inv ?q" "enh_contents ?q = enh_contents q @ [x]"
    using p by (auto simp: enh_inv_def intro!: enh_contents_chain)
  then show ?thesis
    using p by (auto simp: SafeQueueEnhance_push_def Let_def)
qed

lemma enh_pop_correct:
  assumes "enh_inv q" "enh_contents q = x # xs"
  shows "enh_head q \<noteq> Some (enh_tail q) \<and>
    (\<exists>q'. SafeQueueEnhance_pop q = Inr (x, q') \<and> enh_inv q' \<and> enh_contents q' = xs)"
proof -
  obtain p where p: "enh_head q = Some p" "chain (enh_heap q) p (x # xs) (enh_tail q)"
    "enh_heap q (enh_tail q) = Some empty_node" "enh_tail q < enh_fresh q"
    using assms by (metis enh_invE)
  from p(2) obtain p' where p': "enh_heap q p = Some \<lparr>node_data = Some x, node_next = Some p'\<rparr>"
    "p < p'" "chain (enh_heap q) p' xs (enh_tail q)" by (rule chain_ConsE)
  let ?q = "q\<lparr>enh_head := Some p', enh_heap := (enh_heap q)(p := None)\<rparr>"
  have lt: "p < enh_tail q" using p' chain_le by fastforce
  have "chain (enh_heap ?q) p' xs (enh_tail ?q)" using p' by (simp add: chain_free)
  then have "enh_inv ?q" "enh_contents ?q = xs"
    using p lt by (auto simp: enh_inv_def intro!: enh_contents_chain)
  then show ?thesis using p p' lt by (auto simp: SafeQueueEnhance_pop_def)
qed

lemma enh_empty_iff: "enh_inv q \<Longrightarrow> enh_head q = Some (enh_tail q) \<longleftrightarrow> enh_contents q = []"
proof (cases "enh_contents q")
  case Nil
  moreover assume "enh_inv q"
  ultimately show ?thesis by (metis enh_invE chain_NilE)
next
  case (Cons x xs)
  moreover assume "enh_inv q"
  ultimately show ?thesis using enh_pop_correct [of q x xs] by simp
qed

lemma enh_inv_new [simp]: "enh_inv SafeQueueEnhance_new"
  by (auto simp: enh_inv_def SafeQueueEnhance_new_def intro: chain.intros)

lemma enh_contents_new [simp]: "enh_contents SafeQueueEnhance_new = []"
  by (simp add: SafeQueueEnhance_new_def enh_contents_def)

interpretation enh: fifo_queue
    "\<lambda>x q. and_then (SafeQueueEnhance_push x q) (\<lambda>q'. Inr (True, q'))" SafeQueueEnhance_try_pop
    enh_contents "\<lambda>_ _. True" enh_inv
proof (unfold_locales, goal_cases)
  case (1 s x)
  then show ?case using enh_push_correct [of s x] by auto
next
  case (3 s)
  then show ?case by (auto simp: SafeQueueEnhance_try_pop_def enh_empty_iff)
next
  case (4 s x xs)
  then show ?case
    using enh_pop_correct [of s x xs] by (auto simp: SafeQueueEnhance_try_pop_def)
qed simp

subsection \<open>Properties\<close>

text \<open>
  \<open>SafeQueue\<close> is a linearisable first-in first-out queue: for every sequence of
  \<open>push\<close> and \<open>try_pop\<close> in the order in which the threads got the mutex, the results are
  those of the reference queue without a bound (a push never fails, \<open>try_pop\<close> returns false
  exactly on the empty queue and the oldest element otherwise).
\<close>

theorem SafeQueue_refines_fifo:
  "\<exists>t. queue_run (\<lambda>x q. Inr (True, SafeQueue_push x q)) (\<lambda>q. Inr (SafeQueue_try_pop q)) ops q
       = Inr (fst (fifo_ref (\<lambda>_. True) ops (sq_queue q)), t) \<and>
     sq_queue t = snd (fifo_ref (\<lambda>_. True) ops (sq_queue q))"
  using sq.run_refines [where s = q and ops = ops] by auto

text \<open>
  (C8) No lost wake-up in \<open>SafeQueue\<close>: whatever the schedule of pushes, blocking pops,
  notifications and spurious wake-ups, threads sleep in \<open>wait_pop\<close> with no woken thread on its
  way only while the queue is empty.
\<close>

theorem SafeQueue_no_lost_wakeup:
  assumes "reach (mon_step SafeQueue_push SafeQueue_wait_pop notify_one) (mon_start SafeQueue_new) s"
    and "waiting s \<noteq> []" and "woken s = []"
  shows "SafeQueue_empty (mon_obj s)"
  using sq_mon.sleepers_only_when_empty [OF assms] by (simp add: SafeQueue_empty_def)

theorem SafeQueue_no_lost_wakeup_witness:
  "\<exists>s. run_labels (mon_step SafeQueue_push SafeQueue_wait_pop notify_one)
         [Call_pop 1, Do_push (7::int) [1], Resume 1, Call_pop 2] (mon_start SafeQueue_new) = Some s \<and>
       waiting s = [2] \<and> woken s = [] \<and> delivered s = [(1, 7)] \<and> SafeQueue_empty (mon_obj s)"
proof -
  let ?st = "mon_step SafeQueue_push SafeQueue_wait_pop notify_one"
  let ?s = "\<lparr>mon_obj = \<lparr>sq_queue = ([] :: int list)\<rparr>, waiting = [2], woken = [], delivered = [(1, 7::int)]\<rparr>"
  have run: "run_labels ?st [Call_pop 1, Do_push (7::int) [1], Resume 1, Call_pop 2]
      (mon_start SafeQueue_new) = Some ?s"
    by (simp add: mon_start_def SafeQueue_new_def mon_attempt_def SafeQueue_wait_pop_def
        SafeQueue_push_def notify_one_def)
  have "SafeQueue_empty (mon_obj ?s)"
    using SafeQueue_no_lost_wakeup [OF run_labels_reach [OF run]] by simp
  with run show ?thesis by auto
qed

text \<open>
  \<open>SafeQueueEnhance\<close>, the linked queue with a dummy node, implements the same
  first-in first-out queue, and on the way never dereferences a null pointer or a freed node:
  every sequence of \<open>push\<close> and \<open>try_pop\<close> on a well-formed queue runs without a fault, keeps
  the queue well formed and returns the results of the reference queue.
\<close>

theorem SafeQueueEnhance_refines_fifo:
  assumes "enh_inv q"
  shows "\<exists>t. queue_run (\<lambda>x q. and_then (SafeQueueEnhance_push x q) (\<lambda>q'. Inr (True, q')))
        SafeQueueEnhance_try_pop ops q = Inr (fst (fifo_ref (\<lambda>_. True) ops (enh_contents q)), t) \<and>
      enh_inv t \<and> enh_contents t = snd (fifo_ref (\<lambda>_. True) ops (enh_contents q))"
  using enh.run_refines [OF assms, of ops] by auto

theorem SafeQueueEnhance_refines_fifo_witness:
  "enh_inv (SafeQueueEnhance_new :: int safe_queue_enhance) \<and>
   (\<exists>t. queue_run (\<lambda>x q. and_then (SafeQueueEnhance_push x q) (\<lambda>q'. Inr (True, q')))
       SafeQueueEnhance_try_pop [Push 1, Push 2, Pop, Pop, Pop, Push 3] SafeQueueEnhance_new
     = Inr ([Pushed True, Pushed True, Popped (Some 1), Popped (Some 2), Popped None, Pushed True], t)
     \<and> enh_inv t \<and> enh_contents t = [3::int])"
  using SafeQueueEnhance_refines_fifo
    [of "SafeQueueEnhance_new :: int safe_queue_enhance" "[Push 1, Push 2, Pop, Pop, Pop, Push 3]"]
  by simp

end
