(* ===== verification/Safe_Stack.thy ===== *)
theory Safe_Stack
  imports Container_Interfaces
begin

text \<open>
  \<open>include/data_struct/SafeStack.hpp\<close>: a \<open>std::stack\<close> behind one mutex with a condition
  variable. The top of the stack is the head of the list.
\<close>

record 'a safe_stack =
  st_stack :: "'a list"

definition SafeStack_new :: "'a safe_stack" where
  "SafeStack_new = \<lparr>st_stack = []\<rparr>"

definition SafeStack_push :: "'a \<Rightarrow> 'a safe_stack \<Rightarrow> 'a safe_stack" where
  "SafeStack_push x s = s\<lparr>st_stack := x # st_stack s\<rparr>"

definition SafeStack_empty :: "'a safe_stack \<Rightarrow> bool" where
  "SafeStack_empty s \<longleftrightarrow> st_stack s = []"

definition SafeStack_try_pop :: "'a safe_stack \<Rightarrow> 'a option \<times> 'a safe_stack" where
  "SafeStack_try_pop s =
     (case st_stack s of [] \<Rightarrow> (None, s) | x # xs \<Rightarrow> (Some x, s\<lparr>st_stack := xs\<rparr>))"

text \<open>\<open>wait_pop\<close> once it holds the lock: \<open>None\<close> when the caller has to sleep.\<close>

definition SafeStack_wait_pop :: "'a safe_stack \<Rightarrow> ('a \<times> 'a safe_stack) option" where
  "SafeStack_wait_pop s =
     (case st_stack s of [] \<Rightarrow> None | x # xs \<Rightarrow> Some (x, s\<lparr>st_stack := xs\<rparr>))"

interpretation st: lifo_stack "\<lambda>x s. Inr (True, SafeStack_push x s)" "\<lambda>s. Inr (SafeStack_try_pop s)"
    st_stack "\<lambda>_. True"
  by unfold_locales (auto simp: SafeStack_push_def SafeStack_try_pop_def split: list.splits)

interpretation st_mon: wait_monitor SafeStack_push SafeStack_wait_pop notify_one
    "\<lambda>s. length (st_stack s)" SafeStack_new
  by unfold_locales
    (auto simp: SafeStack_push_def SafeStack_wait_pop_def SafeStack_new_def notify_one_def
      split: list.splits)

text \<open>
  (C14) \<open>SafeStack\<close> is a linearisable last-in first-out stack: every sequence of \<open>push\<close> and
  \<open>try_pop\<close> returns the results of the reference stack, \<open>try_pop\<close> failing exactly on the
  empty stack.
\<close>

theorem SafeStack_refines_lifo:
  "\<exists>t. queue_run (\<lambda>x s. Inr (True, SafeStack_push x s)) (\<lambda>s. Inr (SafeStack_try_pop s)) ops s
       = Inr (fst (lifo_ref ops (st_stack s)), t) \<and>
     st_stack t = snd (lifo_ref ops (st_stack s))"
  using st.run_refines [where s = s and ops = ops] by auto

text \<open>
  No lost wake-up in \<open>SafeStack\<close>: threads sleep in \<open>wait_pop\<close> with no woken thread on its
  way only while the stack is empty.
\<close>

theorem SafeStack_no_lost_wakeup:
  assumes "reach (mon_step SafeStack_push SafeStack_wait_pop notify_one) (mon_start SafeStack_new) s"
    and "waiting s \<noteq> []" and "woken s = []"
  shows "SafeStack_empty (mon_obj s)"
  using st_mon.sleepers_only_when_empty [OF assms] by (simp add: SafeStack_empty_def)

theorem SafeStack_no_lost_wakeup_witness:
  "\<exists>s. run_labels (mon_step SafeStack_push SafeStack_wait_pop notify_one)
         [Call_pop 1, Call_pop 2, Do_push (7::int) [2], Resume 2] (mon_start SafeStack_new) = Some s \<and>
       waiting s = [1] \<and> woken s = [] \<and> delivered s = [(2, 7)] \<and> SafeStack_empty (mon_obj s)"
proof -
  let ?st = "mon_step SafeStack_push SafeStack_wait_pop notify_one"
  let ?s = "\<lparr>mon_obj = \<lparr>st_stack = ([] :: int list)\<rparr>, waiting = [1], woken = [], delivered = [(2, 7::int)]\<rparr>"
  have run: "run_labels ?st [Call_pop 1, Call_pop 2, Do_push (7::int) [2], Resume 2]
      (mon_start SafeStack_new) = Some ?s"
    by (simp add: mon_start_def SafeStack_new_def mon_attempt_def SafeStack_wait_pop_def
        SafeStack_push_def notify_one_def)
  have "SafeStack_empty (mon_obj ?s)"
    using SafeStack_no_lost_wakeup [OF run_labels_reach [OF run]] by simp
  with run show ?thesis by auto
qed

end
