(* ===== verification/Safe_Circle_Queue.thy ===== *)
theory Safe_Circle_Queue
  imports Container_Interfaces
begin

text \<open>
  \<open>include/data_struct/SafeCircleQueue.hpp\<close>, class \<open>SafeCircleQueue\<close>: a ring buffer of
  \<open>Cap + 1\<close> slots behind one mutex. The indices are 64-bit words, incremented modulo
  \<open>max_size_\<close>; the slots are raw memory until \<open>construct\<close> makes an object in them, and hold
  a moved-from object after \<open>pop\<close>. Reading anything but a live object is a fault of the model.
\<close>

datatype 'a slot = Raw | Live 'a | Moved

record 'a circle_queue =
  cq_max_size :: size_t
  cq_data :: "'a slot list"
  cq_head :: size_t
  cq_tail :: size_t

definition SafeCircleQueue_new :: "size_t \<Rightarrow> 'a circle_queue" where
  "SafeCircleQueue_new Cap =
     \<lparr>cq_max_size = Cap + 1, cq_data = replicate (unat (Cap + 1)) Raw, cq_head = 0, cq_tail = 0\<rparr>"

definition SafeCircleQueue_emplace :: "'a \<Rightarrow> 'a circle_queue \<Rightarrow> (bool \<times> 'a circle_queue) result" where
  "SafeCircleQueue_emplace x q =
     (if cq_max_size q = 0 then Inl Division_By_Zero
      else if (cq_tail q + 1) mod cq_max_size q = cq_head q then Inr (False, q)
      else if unat (cq_tail q) < length (cq_data q)
      then Inr (True, q\<lparr>cq_data := (cq_data q)[unat (cq_tail q) := Live x],
                       cq_tail := (cq_tail q + 1) mod cq_max_size q\<rparr>)
      else Inl Out_Of_Bounds)"

definition SafeCircleQueue_pop :: "'a circle_queue \<Rightarrow> ('a option \<times> 'a circle_queue) result" where
  "SafeCircleQueue_pop q =
     (if cq_head q = cq_tail q then Inr (None, q)
      else if unat (cq_head q) < length (cq_data q)
      then (case cq_data q ! unat (cq_head q) of
              Live x \<Rightarrow>
                (if cq_max_size q = 0 then Inl Division_By_Zero
                 else Inr (Some x, q\<lparr>cq_data := (cq_data q)[unat (cq_head q) := Moved],
                                    cq_head := (cq_head q + 1) mod cq_max_size q\<rparr>))
            | _ \<Rightarrow> Inl Uninitialised_Read)
      else Inl Out_Of_Bounds)"

text \<open>
  The loop of the destructor, \<open>while (head_ != tail_) destroy(data_ + head_)\<close>, with the slot
  raw memory again after \<open>destroy\<close>; the body does not move \<open>head_\<close>. \<open>None\<close> means that the
  loop does not end.
\<close>

partial_function (option) SafeCircleQueue_destroy :: "'a circle_queue \<Rightarrow> 'a circle_queue option" where
  "SafeCircleQueue_destroy q =
     (if cq_head q \<noteq> cq_tail q
      then SafeCircleQueue_destroy (q\<lparr>cq_data := (cq_data q)[unat (cq_head q) := Raw]\<rparr>)
      else Some (q\<lparr>cq_data := []\<rparr>))"

subsection \<open>The abstract queue\<close>

definition cq_size :: "'a circle_queue \<Rightarrow> nat" where
  "cq_size q = ring_len (unat (cq_max_size q)) (unat (cq_head q)) (unat (cq_tail q))"

fun slot_value :: "'a slot \<Rightarrow> 'a list" where
  "slot_value (Live x) = [x]"
| "slot_value _ = []"

definition cq_slots :: "'a circle_queue \<Rightarrow> 'a slot list" where
  "cq_slots q = ring_view (cq_data q) (unat (cq_max_size q)) (unat (cq_head q)) (cq_size q)"

definition cq_contents :: "'a circle_queue \<Rightarrow> 'a list" where
  "cq_contents q = concat (map slot_value (cq_slots q))"

definition cq_capacity :: "'a circle_queue \<Rightarrow> nat" where
  "cq_capacity q = unat (cq_max_size q) - 1"

text \<open>
  The invariant: both indices are inside the ring, and every slot from the head to the tail
  holds a live object.
\<close>

definition cq_inv :: "'a circle_queue \<Rightarrow> bool" where
  "cq_inv q \<longleftrightarrow> cq_head q < cq_max_size q \<and> cq_tail q < cq_max_size q \<and>
     length (cq_data q) = unat (cq_max_size q) \<and> (\<forall>s \<in> set (cq_slots q). \<exists>x. s = Live x)"

lemma all_live_conv: "\<forall>s \<in> set ss. \<exists>x. s = Live x \<Longrightarrow> ss = map Live (concat (map slot_value ss))"
  by (induction ss) auto

lemma cq_slots_contents: "cq_inv q \<Longrightarrow> cq_slots q = map Live (cq_contents q)"
  unfolding cq_contents_def by (rule all_live_conv) (simp add: cq_inv_def)

lemma cq_contents_eqI: "cq_slots q = map Live xs \<Longrightarrow> cq_contents q = xs"
  by (simp add: cq_contents_def o_def)

lemma length_cq_contents: "cq_inv q \<Longrightarrow> length (cq_contents q) = cq_size q"
  using arg_cong [OF cq_slots_contents, of q length] by (simp add: cq_slots_def)

lemma cq_bounds:
  assumes "cq_inv q"
  shows "unat (cq_head q) < unat (cq_max_size q)" "unat (cq_tail q) < unat (cq_max_size q)"
    "unat (cq_head q) < length (cq_data q)" "unat (cq_tail q) < length (cq_data q)"
    "cq_max_size q \<noteq> 0"
  using assms by (auto simp: cq_inv_def word_less_nat_alt)

lemma cq_empty_iff: "cq_inv q \<Longrightarrow> cq_head q = cq_tail q \<longleftrightarrow> cq_contents q = []"
  using cq_bounds [of q] length_cq_contents [of q]
  by (auto simp: cq_size_def ring_len_eq_0 word_unat_eq_iff simp flip: length_0_conv)

lemma cq_full_iff:
  assumes "cq_inv q"
  shows "(cq_tail q + 1) mod cq_max_size q = cq_head q \<longleftrightarrow> \<not> length (cq_contents q) < cq_capacity q"
proof -
  have tail: "cq_tail q < cq_max_size q" using assms by (simp add: cq_inv_def)
  have "(cq_tail q + 1) mod cq_max_size q = cq_head q \<longleftrightarrow>
      Suc (unat (cq_tail q)) mod unat (cq_max_size q) = unat (cq_head q)"
    using unat_succ_mod [OF tail] by (metis word_unat_eq_iff)
  also have "\<dots> \<longleftrightarrow> Suc (cq_size q) = unat (cq_max_size q)"
    using cq_bounds [OF assms] by (simp add: ring_full_iff cq_size_def)
  also have "\<dots> \<longleftrightarrow> \<not> cq_size q < cq_capacity q"
    using ring_len_less [of "unat (cq_max_size q)" "unat (cq_head q)" "unat (cq_tail q)"] cq_bounds [OF assms]
    by (auto simp: cq_capacity_def cq_size_def)
  finally show ?thesis by (simp add: length_cq_contents assms)
qed

lemma cq_emplace_accepts:
  assumes inv: "cq_inv q" and room: "length (cq_contents q) < cq_capacity q"
  shows "\<exists>q'. SafeCircleQueue_emplace x q = Inr (True, q') \<and> cq_inv q' \<and>
    cq_capacity q' = cq_capacity q \<and> cq_contents q' = cq_contents q @ [x]"
proof -
  let ?q = "q\<lparr>cq_data := (cq_data q)[unat (cq_tail q) := Live x],
             cq_tail := (cq_tail q + 1) mod cq_max_size q\<rparr>"
  have emplace: "SafeCircleQueue_emplace x q = Inr (True, ?q)"
    using cq_bounds [OF inv] cq_full_iff [OF inv] room by (simp add: SafeCircleQueue_emplace_def)
  have tail: "cq_tail q < cq_max_size q" using inv by (simp add: cq_inv_def)
  have small: "Suc (cq_size q) < unat (cq_max_size q)"
    using room length_cq_contents [OF inv] by (simp add: cq_capacity_def)
  have size: "cq_size ?q = Suc (cq_size q)"
    using cq_bounds [OF inv] small by (simp add: cq_size_def unat_succ_mod [OF tail] ring_len_push)
  have "cq_slots ?q = cq_slots q @ [Live x]"
    unfolding cq_slots_def size
    using small inv cq_bounds [OF inv] ring_len_tail [of "unat (cq_head q)" "unat (cq_max_size q)"]
    by (simp add: cq_inv_def cq_size_def ring_view_push)
  then have slots: "cq_slots ?q = map Live (cq_contents q @ [x])"
    by (simp add: cq_slots_contents [OF inv])
  have "0 < cq_max_size q" using cq_bounds(5) [OF inv] by (simp add: word_gt_0)
  then have "cq_inv ?q"
    using inv slots by (auto simp: cq_inv_def word_mod_less_divisor)
  with emplace cq_contents_eqI [OF slots] show ?thesis
    by (simp add: cq_capacity_def)
qed

lemma cq_emplace_refuses:
  "cq_inv q \<Longrightarrow> \<not> length (cq_contents q) < cq_capacity q \<Longrightarrow> SafeCircleQueue_emplace x q = Inr (False, q)"
  using cq_bounds(5) [of q] by (simp add: SafeCircleQueue_emplace_def cq_full_iff)

lemma cq_pop_front:
  assumes inv: "cq_inv q" and front: "cq_contents q = x # xs"
  shows "\<exists>q'. SafeCircleQueue_pop q = Inr (Some x, q') \<and> cq_inv q' \<and>
    cq_capacity q' = cq_capacity q \<and> cq_contents q' = xs"
proof -
  let ?m = "unat (cq_max_size q)" and ?h = "unat (cq_head q)"
  let ?q = "q\<lparr>cq_data := (cq_data q)[?h := Moved], cq_head := (cq_head q + 1) mod cq_max_size q\<rparr>"
  have head: "cq_head q < cq_max_size q" using inv by (simp add: cq_inv_def)
  have ne: "?h \<noteq> unat (cq_tail q)" using cq_empty_iff [OF inv] front by (simp add: word_unat_eq_iff)
  have size: "cq_size q = Suc (cq_size ?q)"
    using cq_bounds [OF inv] ne by (simp add: cq_size_def unat_succ_mod [OF head] ring_len_pop)
  have less: "cq_size q < ?m" using cq_bounds [OF inv] by (simp add: cq_size_def ring_len_less)
  have "cq_slots q = cq_data q ! ?h # ring_view (cq_data q) ?m (Suc ?h mod ?m) (cq_size ?q)"
    unfolding cq_slots_def size using cq_bounds [OF inv] by (simp add: ring_view_pop)
  with cq_slots_contents [OF inv] front have live: "cq_data q ! ?h = Live x"
    and rest: "ring_view (cq_data q) ?m (Suc ?h mod ?m) (cq_size ?q) = map Live xs" by auto
  have "(Suc ?h mod ?m + i) mod ?m \<noteq> ?h" if "i < cq_size ?q" for i
    using ring_index_inj [of ?h "Suc i" ?m 0] that size less cq_bounds [OF inv]
    by (auto simp: mod_simps)
  then have "cq_slots ?q = ring_view (cq_data q) ?m (Suc ?h mod ?m) (cq_size ?q)"
    by (simp add: cq_slots_def unat_succ_mod [OF head] ring_view_other)
  with rest have slots: "cq_slots ?q = map Live xs" by simp
  have "0 < cq_max_size q" using cq_bounds(5) [OF inv] by (simp add: word_gt_0)
  then have "cq_inv ?q" using inv slots by (auto simp: cq_inv_def word_mod_less_divisor)
  moreover have "SafeCircleQueue_pop q = Inr (Some x, ?q)"
    using cq_bounds [OF inv] ne live by (auto simp: SafeCircleQueue_pop_def)
  ultimately show ?thesis
    using cq_contents_eqI [OF slots] by (simp add: cq_capacity_def)
qed

lemma cq_inv_new:
  assumes "Cap + 1 \<noteq> 0"
  shows "cq_inv (SafeCircleQueue_new Cap)"
  using assms by (simp add: cq_inv_def SafeCircleQueue_new_def cq_slots_def cq_size_def ring_len_def
      ring_view_def word_gt_0)

interpretation cq: bounded_fifo_queue SafeCircleQueue_emplace SafeCircleQueue_pop cq_contents
    "\<lambda>q n. n < cq_capacity q" cq_inv cq_capacity
proof (unfold_locales, goal_cases)
  case (1 s x)
  then show ?case using cq_emplace_accepts [of s x] by auto
next
  case (2 s x)
  then show ?case using cq_emplace_refuses [of s x] by auto
next
  case (3 s)
  then show ?case using cq_empty_iff [of s] by (auto simp: SafeCircleQueue_pop_def)
next
  case (4 s x xs)
  then show ?case using cq_pop_front [of s x xs] by auto
next
  case (5 s)
  show ?case by simp
next
  case (6 s)
  then show ?case
    using ring_len_less [of "unat (cq_max_size s)" "unat (cq_head s)" "unat (cq_tail s)"] cq_bounds [OF 6]
    by (simp add: length_cq_contents cq_size_def cq_capacity_def)
qed

subsection \<open>Properties\<close>

lemma cq_new_abs:
  assumes "Cap + 1 \<noteq> 0"
  shows "cq_capacity (SafeCircleQueue_new Cap) = unat Cap" "cq_contents (SafeCircleQueue_new Cap) = []"
  using assms unatSuc [of Cap]
  by (simp_all add: cq_capacity_def SafeCircleQueue_new_def cq_contents_def cq_slots_def cq_size_def
      ring_len_def ring_view_def add.commute)

text \<open>
  (C5) \<open>SafeCircleQueue<T, Cap>\<close> is a linearisable queue bounded by \<open>Cap\<close>: every sequence of
  \<open>emplace\<close> and \<open>pop\<close> on a new queue runs without reading a slot that holds no live object,
  returns the results of the reference queue (\<open>emplace\<close> is refused exactly when \<open>Cap\<close>
  elements are stored, \<open>pop\<close> exactly when none is), and never stores more than \<open>Cap\<close> elements.
  The one excluded capacity is the largest \<open>size_t\<close>, for which \<open>Cap + 1\<close> wraps around to 0.
\<close>

theorem SafeCircleQueue_refines_bounded_fifo:
  assumes "Cap + 1 \<noteq> 0"
  shows "\<exists>t. queue_run SafeCircleQueue_emplace SafeCircleQueue_pop ops (SafeCircleQueue_new Cap)
        = Inr (fst (fifo_ref (\<lambda>n. n < unat Cap) ops []), t) \<and> cq_inv t \<and>
      cq_contents t = snd (fifo_ref (\<lambda>n. n < unat Cap) ops []) \<and> length (cq_contents t) \<le> unat Cap"
  using cq.run_refines [OF cq_inv_new [OF assms], of ops, unfolded cq_new_abs [OF assms]]
    cq.run_within_cap [OF cq_inv_new [OF assms], of ops, unfolded cq_new_abs [OF assms]] by auto

theorem SafeCircleQueue_refines_bounded_fifo_witness:
  "(2 :: size_t) + 1 \<noteq> 0 \<and>
   (\<exists>t. queue_run SafeCircleQueue_emplace SafeCircleQueue_pop
        [Push (10::int), Push 11, Push 12, Pop, Push 13, Pop, Pop, Pop] (SafeCircleQueue_new 2)
      = Inr ([Pushed True, Pushed True, Pushed False, Popped (Some 10), Pushed True,
              Popped (Some 11), Popped (Some 13), Popped None], t) \<and> cq_contents t = [])"
  using SafeCircleQueue_refines_bounded_fifo
    [of 2 "[Push (10::int), Push 11, Push 12, Pop, Push 13, Pop, Pop, Pop]"]
  by (auto simp: Let_def)

lemma destroy_ends_empty:
  assumes "SafeCircleQueue_destroy q = Some r"
  shows "cq_head q = cq_tail q"
proof (rule SafeCircleQueue_destroy.raw_induct [where P = "\<lambda>q r. cq_head q = cq_tail q", OF _ assms])
  fix f q r
  assume IH: "\<And>q r. f q = Some r \<Longrightarrow> cq_head q = cq_tail q"
    and eq: "(if cq_head q \<noteq> cq_tail q then f (q\<lparr>cq_data := (cq_data q)[unat (cq_head q) := Raw]\<rparr>)
      else Some (q\<lparr>cq_data := []\<rparr>)) = Some r"
  show "cq_head q = cq_tail q"
    using IH [of "q\<lparr>cq_data := (cq_data q)[unat (cq_head q) := Raw]\<rparr>" r] eq by (auto split: if_splits)
qed

text \<open>
  (C15) The destructor of \<open>SafeCircleQueue\<close> ends exactly on the empty queue: the loop that
  destroys the remaining elements does not advance \<open>head_\<close>, so it never ends when an element
  is left.
\<close>

theorem SafeCircleQueue_destructor_ends_iff_empty:
  "(\<exists>r. SafeCircleQueue_destroy q = Some r) \<longleftrightarrow> cq_head q = cq_tail q"
proof
  assume "\<exists>r. SafeCircleQueue_destroy q = Some r"
  then show "cq_head q = cq_tail q" by (blast dest: destroy_ends_empty)
next
  assume "cq_head q = cq_tail q"
  then have "SafeCircleQueue_destroy q = Some (q\<lparr>cq_data := []\<rparr>)"
    by (subst SafeCircleQueue_destroy.simps) simp
  then show "\<exists>r. SafeCircleQueue_destroy q = Some r" ..
qed

end
