(* ===== verification/Two_Lock_Queue.thy ===== *)
theory Two_Lock_Queue
  imports Safe_Queue
begin

text \<open>
  \<open>SafeQueueEnhance\<close> of \<open>include/data_struct/SafeQueue.hpp\<close> under concurrency. \<open>push\<close> holds \<open>mt_tail_\<close> and the consumers hold
  \<open>mt_head_\<close>, so a push and a pop overlap; every access to a shared variable or to a node is a step of its own
  here. The nodes and the state of the queue are those of \<open>Safe_Queue\<close>, where each method is one step.
\<close>

text \<open>
  Positions in \<open>push\<close> (\<open>U\<close>: after the new node is allocated, before each of the three assignments, before the
  unlock) and in \<open>try_pop\<close>, \<open>wait_pop\<close> and \<open>pop\<close> (\<open>O\<close>, with the flag for \<open>wait_pop\<close>: before the lock, before the
  comparison, before each assignment, before the old head is destroyed, before the unlock).
\<close>

datatype 'a tl_pc =
    Ready
  | U_alloc 'a | U_lock 'a nat | U_data 'a nat | U_link 'a nat | U_tail 'a nat | U_unlock
  | O_lock bool | O_check bool | O_move | O_data nat | O_next nat 'a | O_free nat 'a | O_unlock "'a option"
  | O_sleep

record 'a two_lock =
  tl_queue :: "'a safe_queue_enhance"
  tl_head_lock :: "thread_id option"
  tl_tail_lock :: "thread_id option"
  tl_pcs :: "'a tl_pc list"
  tl_pushed :: "'a list"
  tl_popped :: "'a list"
  tl_fault :: "cxx_fault option"

definition tl_goto :: "thread_id \<Rightarrow> 'a tl_pc \<Rightarrow> 'a two_lock \<Rightarrow> 'a two_lock" where
  "tl_goto t pc s = s\<lparr>tl_pcs := (tl_pcs s)[t := pc]\<rparr>"

definition tl_fail :: "cxx_fault \<Rightarrow> 'a two_lock \<Rightarrow> 'a two_lock" where
  "tl_fail f s = s\<lparr>tl_fault := Some f\<rparr>"

definition set_queue :: "'a safe_queue_enhance \<Rightarrow> 'a two_lock \<Rightarrow> 'a two_lock" where
  "set_queue q s = s\<lparr>tl_queue := q\<rparr>"

text \<open>\<open>on_node a s f\<close>: an access to node \<open>a\<close>.\<close>

definition on_node :: "nat \<Rightarrow> 'a two_lock \<Rightarrow> ('a queue_node \<Rightarrow> 'a two_lock) \<Rightarrow> 'a two_lock" where
  "on_node a s f = (case enh_heap (tl_queue s) a of None \<Rightarrow> tl_fail Use_After_Free s | Some nd \<Rightarrow> f nd)"

definition put_tail :: "'a queue_node \<Rightarrow> 'a two_lock \<Rightarrow> 'a two_lock" where
  "put_tail nd s = set_queue ((tl_queue s)\<lparr>enh_heap := (enh_heap (tl_queue s))(enh_tail (tl_queue s) \<mapsto> nd)\<rparr>) s"

fun push_turn :: "thread_id \<Rightarrow> 'a tl_pc \<Rightarrow> 'a two_lock \<Rightarrow> 'a two_lock option" where
  "push_turn t (U_alloc x) s =
     (let q = tl_queue s; n = enh_fresh q in
      Some (tl_goto t (U_lock x n)
        (set_queue (q\<lparr>enh_heap := (enh_heap q)(n \<mapsto> empty_node), enh_fresh := Suc n\<rparr>) s)))"
| "push_turn t (U_lock x n) s =
     (if tl_tail_lock s = None then Some (tl_goto t (U_data x n) (s\<lparr>tl_tail_lock := Some t\<rparr>)) else None)"
| "push_turn t (U_data x n) s =
     Some (on_node (enh_tail (tl_queue s)) s (\<lambda>nd.
       tl_goto t (U_link x n) (put_tail (nd\<lparr>node_data := Some x\<rparr>) s)))"
| "push_turn t (U_link x n) s =
     Some (on_node (enh_tail (tl_queue s)) s (\<lambda>nd.
       tl_goto t (U_tail x n) (put_tail (nd\<lparr>node_next := Some n\<rparr>) s)))"
| "push_turn t (U_tail x n) s =
     Some (tl_goto t U_unlock
       (set_queue ((tl_queue s)\<lparr>enh_tail := n\<rparr>) (s\<lparr>tl_pushed := tl_pushed s @ [x]\<rparr>)))"
| "push_turn t U_unlock s = Some (tl_goto t Ready (s\<lparr>tl_tail_lock := None\<rparr>))"
| "push_turn t _ s = None"

fun pop_turn :: "thread_id \<Rightarrow> 'a tl_pc \<Rightarrow> 'a two_lock \<Rightarrow> 'a two_lock option" where
  "pop_turn t (O_lock w) s =
     (if tl_head_lock s = None then Some (tl_goto t (O_check w) (s\<lparr>tl_head_lock := Some t\<rparr>)) else None)"
| "pop_turn t (O_check w) s =
     Some (if enh_head (tl_queue s) \<noteq> Some (enh_tail (tl_queue s)) then tl_goto t O_move s
           else if w then tl_goto t O_sleep (s\<lparr>tl_head_lock := None\<rparr>)
           else tl_goto t (O_unlock None) s)"
| "pop_turn t O_move s =
     Some (case enh_head (tl_queue s) of
             None \<Rightarrow> tl_fail Null_Dereference s
           | Some a \<Rightarrow> tl_goto t (O_data a) (set_queue ((tl_queue s)\<lparr>enh_head := None\<rparr>) s))"
| "pop_turn t (O_data a) s =
     Some (on_node a s (\<lambda>nd.
       case node_data nd of None \<Rightarrow> tl_fail Null_Dereference s | Some x \<Rightarrow> tl_goto t (O_next a x) s))"
| "pop_turn t (O_next a x) s =
     Some (on_node a s (\<lambda>nd.
       tl_goto t (O_free a x)
         (set_queue ((tl_queue s)\<lparr>enh_head := node_next nd,
              enh_heap := (enh_heap (tl_queue s))(a \<mapsto> nd\<lparr>node_next := None\<rparr>)\<rparr>)
            (s\<lparr>tl_popped := tl_popped s @ [x]\<rparr>))))"
| "pop_turn t (O_free a x) s =
     Some (on_node a s (\<lambda>nd.
       tl_goto t (O_unlock (Some x))
         (set_queue ((tl_queue s)\<lparr>enh_heap := (enh_heap (tl_queue s))(a := None)\<rparr>) s)))"
| "pop_turn t (O_unlock r) s = Some (tl_goto t Ready (s\<lparr>tl_head_lock := None\<rparr>))"
| "pop_turn t _ s = None"

datatype 'a tl_label = Tl_push thread_id 'a | Tl_try_pop thread_id | Tl_wait_pop thread_id | Tl_run thread_id | Tl_wake thread_id

fun is_push_pc :: "'a tl_pc \<Rightarrow> bool" where
  "is_push_pc (U_alloc x) = True" | "is_push_pc (U_lock x n) = True" | "is_push_pc (U_data x n) = True"
| "is_push_pc (U_link x n) = True" | "is_push_pc (U_tail x n) = True" | "is_push_pc U_unlock = True"
| "is_push_pc _ = False"

definition tl_turn :: "thread_id \<Rightarrow> 'a two_lock \<Rightarrow> 'a two_lock option" where
  "tl_turn t s =
     (if is_push_pc (tl_pcs s ! t) then push_turn t (tl_pcs s ! t) s else pop_turn t (tl_pcs s ! t) s)"

definition tl_call :: "thread_id \<Rightarrow> 'a tl_pc \<Rightarrow> 'a tl_pc \<Rightarrow> 'a two_lock \<Rightarrow> 'a two_lock option" where
  "tl_call t from to s =
     (if tl_fault s = None \<and> t < length (tl_pcs s) \<and> tl_pcs s ! t = from then Some (tl_goto t to s) else None)"

fun tl_step :: "'a tl_label \<Rightarrow> 'a two_lock \<Rightarrow> 'a two_lock option" where
  "tl_step (Tl_push t x) s = tl_call t Ready (U_alloc x) s"
| "tl_step (Tl_try_pop t) s = tl_call t Ready (O_lock False) s"
| "tl_step (Tl_wait_pop t) s = tl_call t Ready (O_lock True) s"
| "tl_step (Tl_wake t) s = tl_call t O_sleep (O_lock True) s"
| "tl_step (Tl_run t) s = (if tl_fault s = None \<and> t < length (tl_pcs s) then tl_turn t s else None)"

definition tl_start :: "nat \<Rightarrow> 'a two_lock" where
  "tl_start threads =
     \<lparr>tl_queue = SafeQueueEnhance_new, tl_head_lock = None, tl_tail_lock = None, tl_pcs = replicate threads Ready,
      tl_pushed = [], tl_popped = [], tl_fault = None\<rparr>"

subsection \<open>The invariant\<close>

text \<open>\<open>lchain h ns xs t\<close>: the nodes \<open>ns\<close> hold \<open>xs\<close> and lead to the dummy node \<open>t\<close>.\<close>

fun lchain :: "(nat \<rightharpoonup> 'a queue_node) \<Rightarrow> nat list \<Rightarrow> 'a list \<Rightarrow> nat \<Rightarrow> bool" where
  "lchain h [] [] t \<longleftrightarrow> True"
| "lchain h (n # ns) (x # xs) t \<longleftrightarrow>
     h n = Some \<lparr>node_data = Some x, node_next = Some (hd (ns @ [t]))\<rparr> \<and> lchain h ns xs t"
| "lchain h _ _ t \<longleftrightarrow> False"

fun holds_tail :: "'a tl_pc \<Rightarrow> bool" where
  "holds_tail (U_data x n) = True" | "holds_tail (U_link x n) = True" | "holds_tail (U_tail x n) = True"
| "holds_tail U_unlock = True" | "holds_tail _ = False"

fun holds_head :: "'a tl_pc \<Rightarrow> bool" where
  "holds_head (O_check w) = True" | "holds_head O_move = True" | "holds_head (O_data a) = True"
| "holds_head (O_next a x) = True" | "holds_head (O_free a x) = True" | "holds_head (O_unlock r) = True"
| "holds_head _ = False"

text \<open>The nodes that only one thread knows: a node not linked yet, and a node that has been taken out.\<close>

fun new_node :: "'a tl_pc \<Rightarrow> nat set" where
  "new_node (U_lock x n) = {n}" | "new_node (U_data x n) = {n}" | "new_node (U_link x n) = {n}"
| "new_node (U_tail x n) = {n}" | "new_node _ = {}"

fun old_node :: "'a tl_pc \<Rightarrow> nat set" where
  "old_node (O_free a x) = {a}" | "old_node _ = {}"

abbreviation own_nodes :: "'a tl_pc \<Rightarrow> nat set" where "own_nodes pc \<equiv> new_node pc \<union> old_node pc"

text \<open>What the dummy node and \<open>head_\<close> are, by the position of the thread that holds the mutex.\<close>

fun dummy_node :: "'a tl_pc \<Rightarrow> 'a queue_node" where
  "dummy_node (U_link x n) = \<lparr>node_data = Some x, node_next = None\<rparr>"
| "dummy_node (U_tail x n) = \<lparr>node_data = Some x, node_next = Some n\<rparr>"
| "dummy_node _ = empty_node"

fun front_ok :: "'a tl_pc \<Rightarrow> nat option \<Rightarrow> nat list \<Rightarrow> 'a list \<Rightarrow> nat \<Rightarrow> bool" where
  "front_ok O_move p ns xs t \<longleftrightarrow> ns \<noteq> [] \<and> p = Some (hd ns)"
| "front_ok (O_data a) p ns xs t \<longleftrightarrow> p = None \<and> ns \<noteq> [] \<and> hd ns = a"
| "front_ok (O_next a x) p ns xs t \<longleftrightarrow> p = None \<and> ns \<noteq> [] \<and> hd ns = a \<and> xs \<noteq> [] \<and> hd xs = x"
| "front_ok _ p ns xs t \<longleftrightarrow> p = Some (hd (ns @ [t]))"

definition holder :: "thread_id option \<Rightarrow> 'a tl_pc list \<Rightarrow> 'a tl_pc" where
  "holder l pcs = (case l of None \<Rightarrow> Ready | Some t \<Rightarrow> pcs ! t)"

definition own_inv :: "(nat \<rightharpoonup> 'a queue_node) \<Rightarrow> nat \<Rightarrow> nat set \<Rightarrow> 'a tl_pc list \<Rightarrow> bool" where
  "own_inv h fresh shared pcs \<longleftrightarrow>
     (\<forall>t<length pcs. (\<forall>n\<in>new_node (pcs ! t). h n = Some empty_node) \<and> (\<forall>a\<in>old_node (pcs ! t). h a \<noteq> None) \<and>
        own_nodes (pcs ! t) \<subseteq> {..<fresh} - shared) \<and>
     (\<forall>t<length pcs. \<forall>u<length pcs. t \<noteq> u \<longrightarrow> own_nodes (pcs ! t) \<inter> own_nodes (pcs ! u) = {})"

definition tl_body :: "nat list \<Rightarrow> 'a list \<Rightarrow> 'a two_lock \<Rightarrow> bool" where
  "tl_body ns xs s \<longleftrightarrow>
     (let q = tl_queue s; h = enh_heap q; d = enh_tail q; pcs = tl_pcs s in
      tl_fault s = None \<and> lock_inv holds_tail (tl_tail_lock s) pcs \<and> lock_inv holds_head (tl_head_lock s) pcs \<and>
      tl_pushed s = tl_popped s @ xs \<and> lchain h ns xs d \<and> distinct (ns @ [d]) \<and> set (ns @ [d]) \<subseteq> {..<enh_fresh q} \<and>
      h d = Some (dummy_node (holder (tl_tail_lock s) pcs)) \<and>
      front_ok (holder (tl_head_lock s) pcs) (enh_head q) ns xs d \<and>
      own_inv h (enh_fresh q) (set (ns @ [d])) pcs)"

definition tl_inv :: "'a two_lock \<Rightarrow> bool" where
  "tl_inv s \<longleftrightarrow> (\<exists>ns xs. tl_body ns xs s)"

lemma lchain_length: "lchain h ns xs t \<Longrightarrow> length ns = length xs"
  by (induction h ns xs t rule: lchain.induct) auto

lemma lchain_other: "lchain h ns xs t \<Longrightarrow> a \<notin> set ns \<Longrightarrow> lchain (h(a := v)) ns xs t"
  by (induction h ns xs t rule: lchain.induct) auto

lemma lchain_snoc:
  "lchain h ns xs t \<Longrightarrow> h t = Some \<lparr>node_data = Some x, node_next = Some n\<rparr> \<Longrightarrow> lchain h (ns @ [t]) (xs @ [x]) n"
  by (induction h ns xs t rule: lchain.induct) (auto simp: hd_append)

lemma holder_other: "lock_inv holds l pcs \<Longrightarrow> t < length pcs \<Longrightarrow> \<not> holds (pcs ! t) \<Longrightarrow> holder l (pcs[t := pc]) = holder l pcs"
  by (auto simp: holder_def lock_inv_def nth_list_update split: option.splits)

lemma holder_Some: "t < length pcs \<Longrightarrow> holder (Some t) (pcs[t := pc]) = pc"
  by (simp add: holder_def)

lemma holder_None: "holder None pcs = Ready"
  by (simp add: holder_def)

lemma own_inv_goto:
  assumes "t < length pcs" "new_node pc = new_node (pcs ! t)" "old_node pc = old_node (pcs ! t)"
  shows "own_inv h f A (pcs[t := pc]) = own_inv h f A pcs"
proof -
  have "new_node (pcs[t := pc] ! u) = new_node (pcs ! u) \<and> old_node (pcs[t := pc] ! u) = old_node (pcs ! u)"
    if "u < length pcs" for u
    using assms that by (simp add: nth_list_update)
  then show ?thesis by (simp add: own_inv_def)
qed

lemmas tl_updates = lock_inv_same own_inv_goto holder_other holder_Some holder_None

lemma own_inv_lt: "own_inv h f A pcs \<Longrightarrow> t < length pcs \<Longrightarrow> a \<in> own_nodes (pcs ! t) \<Longrightarrow> a < f \<and> a \<notin> A"
  unfolding own_inv_def by blast

lemma own_inv_disj:
  "own_inv h f A pcs \<Longrightarrow> t < length pcs \<Longrightarrow> u < length pcs \<Longrightarrow> t \<noteq> u \<Longrightarrow> own_nodes (pcs ! t) \<inter> own_nodes (pcs ! u) = {}"
  unfolding own_inv_def by blast

lemma own_inv_heap:
  "own_inv h f A pcs \<Longrightarrow> t < length pcs \<Longrightarrow>
     (\<forall>n\<in>new_node (pcs ! t). h n = Some empty_node) \<and> (\<forall>a\<in>old_node (pcs ! t). h a \<noteq> None)"
  unfolding own_inv_def by blast

lemma own_inv_new:
  assumes "own_inv h f A pcs" "t < length pcs" "own_nodes (pcs ! t) = {}" "A \<subseteq> {..<f}"
  shows "own_inv (h(f \<mapsto> empty_node)) (Suc f) A (pcs[t := U_lock x f])"
proof -
  have "(\<forall>n\<in>new_node (pcs ! u). (h(f \<mapsto> empty_node)) n = Some empty_node) \<and>
        (\<forall>a\<in>old_node (pcs ! u). (h(f \<mapsto> empty_node)) a \<noteq> None) \<and> own_nodes (pcs ! u) \<subseteq> {..<Suc f} - A \<and> f \<notin> own_nodes (pcs ! u)"
    if "u < length pcs" for u
    using own_inv_lt [OF assms(1) that] own_inv_heap [OF assms(1) that] by fastforce
  then show ?thesis
    using assms(2,4) own_inv_disj [OF assms(1)] unfolding own_inv_def by (auto simp: nth_list_update)
qed

text \<open>
  The steps. A step of a thread outside the critical sections changes nothing shared; in the critical section of
  \<open>push\<close> only the dummy node changes, in that of a pop only the first node.
\<close>

lemmas tl_simps = tl_body_def tl_goto_def set_queue_def put_tail_def on_node_def Let_def

lemma tl_goto_quiet:
  assumes "tl_body ns xs s" "t < length (tl_pcs s)"
    and "new_node pc = new_node (tl_pcs s ! t)" "old_node pc = old_node (tl_pcs s ! t)"
    and "\<not> holds_tail (tl_pcs s ! t)" "\<not> holds_tail pc" "\<not> holds_head (tl_pcs s ! t)" "\<not> holds_head pc"
  shows "tl_body ns xs (tl_goto t pc s)"
  using assms by (auto simp: tl_simps tl_updates)

lemma alloc_keeps:
  assumes "tl_body ns xs s" "t < length (tl_pcs s)" "tl_pcs s ! t = U_alloc x" "push_turn t (U_alloc x) s = Some s'"
  shows "tl_body ns xs s'"
proof -
  let ?h = "enh_heap (tl_queue s)" and ?n = "enh_fresh (tl_queue s)" and ?d = "enh_tail (tl_queue s)"
  have b: "lchain ?h ns xs ?d" "set (ns @ [?d]) \<subseteq> {..<?n}" "own_inv ?h ?n (set (ns @ [?d])) (tl_pcs s)"
    using assms(1) by (simp_all add: tl_body_def Let_def)
  have "lchain (?h(?n \<mapsto> empty_node)) ns xs ?d" using b(1,2) by (auto intro!: lchain_other)
  moreover have "own_inv (?h(?n \<mapsto> empty_node)) (Suc ?n) (set (ns @ [?d])) ((tl_pcs s)[t := U_lock x ?n])"
    using own_inv_new [OF b(3) assms(2)] b(2) assms(3) by simp
  moreover have "set (ns @ [?d]) \<subseteq> {..<Suc ?n}" "?d \<noteq> ?n" using b(2) by auto
  ultimately show ?thesis
    using assms by (auto simp: tl_simps tl_updates)
qed

lemma push_lock_keeps:
  assumes "tl_body ns xs s" "t < length (tl_pcs s)" "tl_pcs s ! t = U_lock x n" "push_turn t (U_lock x n) s = Some s'"
  shows "tl_body ns xs s'"
proof -
  have l: "tl_tail_lock s = None" "s' = tl_goto t (U_data x n) (s\<lparr>tl_tail_lock := Some t\<rparr>)"
    using assms(4) by (auto split: if_splits)
  then have "enh_heap (tl_queue s) (enh_tail (tl_queue s)) = Some empty_node"
    using assms(1) by (simp add: tl_body_def holder_def Let_def)
  then show ?thesis
    using assms(1-3) l by (auto simp: tl_simps tl_updates intro: lock_inv_take)
qed

lemma tail_write_keeps:
  assumes "tl_body ns xs s" "t < length (tl_pcs s)" "holds_tail (tl_pcs s ! t)" "holds_tail pc"
    and "new_node pc = new_node (tl_pcs s ! t)" "old_node pc = old_node (tl_pcs s ! t)"
    and "\<not> holds_head (tl_pcs s ! t)" "\<not> holds_head pc" "nd = dummy_node pc"
  shows "tl_body ns xs (tl_goto t pc (put_tail nd s))"
proof -
  let ?h = "enh_heap (tl_queue s)" and ?d = "enh_tail (tl_queue s)"
  have b: "lchain ?h ns xs ?d" "?d \<notin> set ns" "own_inv ?h (enh_fresh (tl_queue s)) (set (ns @ [?d])) (tl_pcs s)"
    "tl_tail_lock s = Some t"
    using assms(1-3) by (auto simp: tl_body_def Let_def dest: lock_inv_holder)
  have "own_inv (?h(?d \<mapsto> nd)) (enh_fresh (tl_queue s)) (set (ns @ [?d])) (tl_pcs s)"
    using b(3) by (fastforce simp: own_inv_def)
  then show ?thesis
    using assms b by (auto simp: tl_simps tl_updates intro: lchain_other)
qed

lemma tl_tail_node:
  assumes "tl_body ns xs s" "t < length (tl_pcs s)" "holds_tail (tl_pcs s ! t)"
  shows "enh_heap (tl_queue s) (enh_tail (tl_queue s)) = Some (dummy_node (tl_pcs s ! t))"
  using assms lock_inv_holder [of holds_tail "tl_tail_lock s" "tl_pcs s" t]
  by (simp add: tl_body_def Let_def holder_def)

lemma own_inv_shared:
  assumes "own_inv h f A pcs" "t < length pcs" "own_nodes pc = {}" "A' \<subseteq> A \<union> own_nodes (pcs ! t)"
  shows "own_inv h f A' (pcs[t := pc])"
proof -
  have "own_nodes (pcs ! u) \<inter> A' = {}" if "u < length pcs" "u \<noteq> t" for u
    using own_inv_lt [OF assms(1) that(1)] own_inv_disj [OF assms(1) that(1) assms(2) that(2)] assms(4) by fastforce
  then show ?thesis
    using assms(1-3) unfolding own_inv_def by (auto simp: nth_list_update)
qed

lemma front_ok_push: "front_ok pc p ns xs d \<Longrightarrow> front_ok pc p (ns @ [d]) (xs @ [x]) n"
  by (cases pc) (auto simp: hd_append)

lemma publish_keeps:
  assumes "tl_body ns xs s" "t < length (tl_pcs s)" "tl_pcs s ! t = U_tail x n" "push_turn t (U_tail x n) s = Some s'"
  shows "tl_body (ns @ [enh_tail (tl_queue s)]) (xs @ [x]) s'"
proof -
  let ?h = "enh_heap (tl_queue s)" and ?d = "enh_tail (tl_queue s)" and ?f = "enh_fresh (tl_queue s)"
  have b: "lchain ?h ns xs ?d" "own_inv ?h ?f (set (ns @ [?d])) (tl_pcs s)" "tl_tail_lock s = Some t"
    "?h ?d = Some \<lparr>node_data = Some x, node_next = Some n\<rparr>"
    using assms(1-3) tl_tail_node [OF assms(1,2)] by (auto simp: tl_body_def Let_def dest: lock_inv_holder)
  have n: "n < ?f" "n \<notin> set (ns @ [?d])" "?h n = Some empty_node"
    using own_inv_lt [OF b(2) assms(2), of n] own_inv_heap [OF b(2) assms(2)] assms(3) by auto
  have "own_inv ?h ?f (set ((ns @ [?d]) @ [n])) ((tl_pcs s)[t := U_unlock])"
    by (rule own_inv_shared [OF b(2) assms(2)]) (use assms(3) in auto)
  moreover have "lchain ?h (ns @ [?d]) (xs @ [x]) n" using lchain_snoc [OF b(1,4)] .
  ultimately show ?thesis
    using assms n b(3) by (auto simp: tl_simps tl_updates intro: front_ok_push)
qed

lemma push_unlock_keeps:
  assumes "tl_body ns xs s" "t < length (tl_pcs s)" "tl_pcs s ! t = U_unlock" "push_turn t U_unlock s = Some s'"
  shows "tl_body ns xs s'"
proof -
  have "lock_inv holds_tail None ((tl_pcs s)[t := Ready])"
    using assms(1-3) lock_inv_drop [of holds_tail "tl_tail_lock s" "tl_pcs s" t Ready] by (simp add: tl_body_def Let_def)
  then show ?thesis
    using assms tl_tail_node [OF assms(1,2)] by (auto simp: tl_simps tl_updates)
qed

lemma push_turn_keeps:
  assumes "tl_inv s" "t < length (tl_pcs s)" "is_push_pc (tl_pcs s ! t)" "push_turn t (tl_pcs s ! t) s = Some s'"
  shows "tl_inv s'"
proof -
  obtain ns xs where b: "tl_body ns xs s" using assms(1) by (auto simp: tl_inv_def)
  note d = tl_tail_node [OF b assms(2)]
  have "\<exists>ns xs. tl_body ns xs s'"
  proof (cases "tl_pcs s ! t")
    case (U_data x n)
    then have "s' = tl_goto t (U_link x n) (put_tail (dummy_node (U_link x n)) s)"
      using assms(4) d by (simp add: on_node_def empty_node_def)
    then show ?thesis using tail_write_keeps [OF b assms(2), of "U_link x n"] U_data by auto
  next
    case (U_link x n)
    then have "s' = tl_goto t (U_tail x n) (put_tail (dummy_node (U_tail x n)) s)"
      using assms(4) d by (simp add: on_node_def)
    then show ?thesis using tail_write_keeps [OF b assms(2), of "U_tail x n"] U_link by auto
  next
    case (U_alloc x)
    then show ?thesis using alloc_keeps [OF b assms(2)] assms(4) by metis
  next
    case (U_lock x n)
    then show ?thesis using push_lock_keeps [OF b assms(2)] assms(4) by metis
  next
    case (U_tail x n)
    then show ?thesis using publish_keeps [OF b assms(2)] assms(4) by metis
  next
    case U_unlock
    then show ?thesis using push_unlock_keeps [OF b assms(2)] assms(4) by metis
  qed (use assms(3) in simp_all)
  then show ?thesis by (simp add: tl_inv_def)
qed

lemma tl_front:
  assumes "tl_body ns xs s" "t < length (tl_pcs s)" "holds_head (tl_pcs s ! t)"
  shows "tl_head_lock s = Some t" "front_ok (tl_pcs s ! t) (enh_head (tl_queue s)) ns xs (enh_tail (tl_queue s))"
  using assms lock_inv_holder [of holds_head "tl_head_lock s" "tl_pcs s" t]
  by (simp_all add: tl_body_def Let_def holder_def)

lemma lchain_hd:
  assumes "lchain h ns xs t" "ns \<noteq> []"
  shows "xs \<noteq> [] \<and> h (hd ns) = Some \<lparr>node_data = Some (hd xs), node_next = Some (hd (tl ns @ [t]))\<rparr> \<and>
    lchain h (tl ns) (tl xs) t"
  using assms by (cases "(h, ns, xs, t)" rule: lchain.cases) auto

lemma pop_lock_keeps:
  assumes "tl_body ns xs s" "t < length (tl_pcs s)" "tl_pcs s ! t = O_lock w" "pop_turn t (O_lock w) s = Some s'"
  shows "tl_body ns xs s'"
proof -
  have l: "tl_head_lock s = None" "s' = tl_goto t (O_check w) (s\<lparr>tl_head_lock := Some t\<rparr>)"
    using assms(4) by (auto split: if_splits)
  then have "front_ok Ready (enh_head (tl_queue s)) ns xs (enh_tail (tl_queue s))"
    using assms(1) by (simp add: tl_body_def holder_def Let_def)
  then show ?thesis
    using assms(1-3) l by (auto simp: tl_simps tl_updates intro: lock_inv_take)
qed

text \<open>A step in the critical section of a pop that leaves the nodes alone.\<close>

lemma front_step_keeps:
  assumes "tl_body ns xs s" "t < length (tl_pcs s)" "holds_head (tl_pcs s ! t)" "holds_head pc"
    and "own_nodes (tl_pcs s ! t) = {}" "own_nodes pc = {}"
    and "\<not> holds_tail (tl_pcs s ! t)" "\<not> holds_tail pc" "front_ok pc p ns xs (enh_tail (tl_queue s))"
  shows "tl_body ns xs (tl_goto t pc (set_queue ((tl_queue s)\<lparr>enh_head := p\<rparr>) s))"
  using assms tl_front(1) [OF assms(1-3)] by (auto simp: tl_simps tl_updates)

lemma pop_release_keeps:
  assumes "tl_body ns xs s" "t < length (tl_pcs s)" "holds_head (tl_pcs s ! t)" "\<not> holds_head pc"
    and "own_nodes (tl_pcs s ! t) = {}" "own_nodes pc = {}" "\<not> holds_tail (tl_pcs s ! t)" "\<not> holds_tail pc"
    and "enh_head (tl_queue s) = Some (hd (ns @ [enh_tail (tl_queue s)]))"
  shows "tl_body ns xs (tl_goto t pc (s\<lparr>tl_head_lock := None\<rparr>))"
proof -
  have "front_ok (holder None ((tl_pcs s)[t := pc])) (enh_head (tl_queue s)) ns xs (enh_tail (tl_queue s))"
    using assms(9) by (simp add: holder_def)
  then show ?thesis
    using assms(1-8) by (auto simp: tl_simps tl_updates simp del: front_ok.simps intro: lock_inv_drop)
qed

lemma set_queue_same: "set_queue (tl_queue s) s = s"
  by (simp add: set_queue_def)

lemma front_goto_keeps:
  assumes "tl_body ns xs s" "t < length (tl_pcs s)" "holds_head (tl_pcs s ! t)" "holds_head pc"
    and "own_nodes (tl_pcs s ! t) = {}" "own_nodes pc = {}"
    and "\<not> holds_tail (tl_pcs s ! t)" "\<not> holds_tail pc"
    and "front_ok pc (enh_head (tl_queue s)) ns xs (enh_tail (tl_queue s))"
  shows "tl_body ns xs (tl_goto t pc s)"
  using front_step_keeps [OF assms] by (simp add: set_queue_same)

lemma check_keeps:
  assumes "tl_body ns xs s" "t < length (tl_pcs s)" "tl_pcs s ! t = O_check w" "pop_turn t (O_check w) s = Some s'"
  shows "tl_body ns xs s'"
proof -
  have f: "enh_head (tl_queue s) = Some (hd (ns @ [enh_tail (tl_queue s)]))"
    using tl_front(2) [OF assms(1,2)] assms(3) by simp
  note step = front_goto_keeps [OF assms(1,2)]
  consider "ns \<noteq> []" "s' = tl_goto t O_move s" | "s' = tl_goto t O_sleep (s\<lparr>tl_head_lock := None\<rparr>)"
    | "s' = tl_goto t (O_unlock None) s"
    using assms(4) f by (cases ns) (auto split: if_splits)
  then show ?thesis
  proof cases
    case 1
    then show ?thesis using step [of O_move] f assms(3) by simp
  next
    case 2
    then show ?thesis using pop_release_keeps [OF assms(1,2), of O_sleep] f assms(3) by simp
  next
    case 3
    then show ?thesis using step [of "O_unlock None"] f assms(3) by simp
  qed
qed

lemma unlink_keeps:
  assumes "tl_body ns xs s" "t < length (tl_pcs s)" "tl_pcs s ! t = O_next a x" "pop_turn t (O_next a x) s = Some s'"
  shows "tl_body (tl ns) (tl xs) s'"
proof -
  let ?q = "tl_queue s"
  let ?h = "enh_heap ?q" and ?d = "enh_tail ?q" and ?f = "enh_fresh ?q"
  have b: "lchain ?h ns xs ?d" "own_inv ?h ?f (set (ns @ [?d])) (tl_pcs s)" "distinct (ns @ [?d])"
    "set (ns @ [?d]) \<subseteq> {..<?f}"
    using assms(1) by (simp_all add: tl_body_def Let_def)
  have front: "ns \<noteq> []" "hd ns = a" "hd xs = x" "tl_head_lock s = Some t"
    using tl_front [OF assms(1,2)] assms(3) by simp_all
  obtain ns' xs' where l: "ns = a # ns'" "xs = x # xs'"
      "?h a = Some \<lparr>node_data = Some x, node_next = Some (hd (ns' @ [?d]))\<rparr>" "lchain ?h ns' xs' ?d"
    using lchain_hd [OF b(1) front(1)] front by (cases ns; cases xs) auto
  let ?nd = "\<lparr>node_data = Some x, node_next = None\<rparr>"
  have other: "a \<notin> own_nodes (tl_pcs s ! u)" if "u < length (tl_pcs s)" for u
    using own_inv_lt [OF b(2) that, of a] l(1) by auto
  have "own_inv (?h(a \<mapsto> ?nd)) ?f (set (ns' @ [?d])) ((tl_pcs s)[t := O_free a x])"
  proof -
    have "(\<forall>n\<in>new_node (tl_pcs s ! u). (?h(a \<mapsto> ?nd)) n = Some empty_node) \<and>
        (\<forall>n\<in>old_node (tl_pcs s ! u). (?h(a \<mapsto> ?nd)) n \<noteq> None) \<and>
        own_nodes (tl_pcs s ! u) \<subseteq> {..<?f} - set (ns' @ [?d]) \<and> a \<notin> own_nodes (tl_pcs s ! u)"
      if "u < length (tl_pcs s)" for u
      using own_inv_lt [OF b(2) that] own_inv_heap [OF b(2) that] other [OF that] l(1) by fastforce
    then show ?thesis
      using assms(2) own_inv_disj [OF b(2)] b(3,4) l(1) unfolding own_inv_def by (auto simp: nth_list_update)
  qed
  moreover have "lchain (?h(a \<mapsto> ?nd)) ns' xs' ?d" using l(1,4) b(3) by (intro lchain_other) simp_all
  moreover have "?d \<noteq> a" using b(3) l(1) by auto
  ultimately show ?thesis
    using assms l front(4) by (auto simp: tl_simps tl_updates)
qed

lemma free_keeps:
  assumes "tl_body ns xs s" "t < length (tl_pcs s)" "tl_pcs s ! t = O_free a x" "pop_turn t (O_free a x) s = Some s'"
  shows "tl_body ns xs s'"
proof -
  let ?q = "tl_queue s"
  let ?h = "enh_heap ?q" and ?d = "enh_tail ?q" and ?f = "enh_fresh ?q"
  have b: "lchain ?h ns xs ?d" "own_inv ?h ?f (set (ns @ [?d])) (tl_pcs s)"
    using assms(1) by (simp_all add: tl_body_def Let_def)
  have a: "a \<notin> set (ns @ [?d])" "?h a \<noteq> None"
    using own_inv_lt [OF b(2) assms(2), of a] own_inv_heap [OF b(2) assms(2)] assms(3) by auto
  have "own_inv (?h(a := None)) ?f (set (ns @ [?d])) ((tl_pcs s)[t := O_unlock (Some x)])"
  proof -
    have "(\<forall>n\<in>new_node (tl_pcs s ! u). (?h(a := None)) n = Some empty_node) \<and>
        (\<forall>n\<in>old_node (tl_pcs s ! u). (?h(a := None)) n \<noteq> None) \<and> own_nodes (tl_pcs s ! u) \<subseteq> {..<?f} - set (ns @ [?d])"
      if "u < length (tl_pcs s)" "u \<noteq> t" for u
      using own_inv_lt [OF b(2) that(1)] own_inv_heap [OF b(2) that(1)]
        own_inv_disj [OF b(2) that(1) assms(2) that(2)] assms(3) by fastforce
    then show ?thesis
      using assms(2) own_inv_disj [OF b(2)] unfolding own_inv_def by (auto simp: nth_list_update)
  qed
  moreover have "lchain (?h(a := None)) ns xs ?d" using a(1) b(1) by (intro lchain_other) simp_all
  ultimately show ?thesis
    using assms a tl_front [OF assms(1,2)] by (auto simp: tl_simps tl_updates)
qed

lemma pop_turn_keeps:
  assumes "tl_inv s" "t < length (tl_pcs s)" "pop_turn t (tl_pcs s ! t) s = Some s'"
  shows "tl_inv s'"
proof -
  obtain ns xs where b: "tl_body ns xs s" using assms(1) by (auto simp: tl_inv_def)
  have chain: "lchain (enh_heap (tl_queue s)) ns xs (enh_tail (tl_queue s))" using b by (simp add: tl_body_def Let_def)
  have "\<exists>ns xs. tl_body ns xs s'"
  proof (cases "tl_pcs s ! t")
    case (O_lock w)
    then show ?thesis using pop_lock_keeps [OF b assms(2)] assms(3) by metis
  next
    case (O_check w)
    then show ?thesis using check_keeps [OF b assms(2)] assms(3) by metis
  next
    case O_move
    then have "ns \<noteq> []" "s' = tl_goto t (O_data (hd ns)) (set_queue ((tl_queue s)\<lparr>enh_head := None\<rparr>) s)"
      using tl_front(2) [OF b assms(2)] assms(3) by simp_all
    then show ?thesis using front_step_keeps [OF b assms(2), of "O_data (hd ns)" None] O_move by auto
  next
    case (O_data a)
    then have "ns \<noteq> []" "hd ns = a" "enh_head (tl_queue s) = None"
      using tl_front(2) [OF b assms(2)] by simp_all
    moreover from this have "xs \<noteq> []" "s' = tl_goto t (O_next a (hd xs)) s"
      using lchain_hd [OF chain] assms(3) O_data by (simp_all add: on_node_def)
    ultimately show ?thesis
      using front_goto_keeps [OF b assms(2), of "O_next a (hd xs)"] O_data by auto
  next
    case (O_next a x)
    then show ?thesis using unlink_keeps [OF b assms(2)] assms(3) by metis
  next
    case (O_free a x)
    then show ?thesis using free_keeps [OF b assms(2)] assms(3) by metis
  next
    case (O_unlock r)
    then show ?thesis using pop_release_keeps [OF b assms(2), of Ready] tl_front(2) [OF b assms(2)] assms(3) by auto
  qed (use assms(3) in simp_all)
  then show ?thesis by (simp add: tl_inv_def)
qed

lemma tl_call_keeps:
  assumes "tl_inv s" "tl_call t from to s = Some s'" "own_nodes from = {}" "own_nodes to = {}"
    and "\<not> holds_tail from" "\<not> holds_tail to" "\<not> holds_head from" "\<not> holds_head to"
  shows "tl_inv s'"
proof -
  obtain ns xs where "tl_body ns xs s" using assms(1) by (auto simp: tl_inv_def)
  moreover have "t < length (tl_pcs s)" "tl_pcs s ! t = from" "s' = tl_goto t to s"
    using assms(2) by (auto simp: tl_call_def split: if_splits)
  ultimately have "tl_body ns xs s'" using assms(3-8) by (auto intro!: tl_goto_quiet)
  then show ?thesis by (auto simp: tl_inv_def)
qed

lemma tl_inv_step:
  assumes "tl_inv s" "tl_step l s = Some s'"
  shows "tl_inv s'"
proof (cases l)
  case (Tl_run t)
  then show ?thesis
    using assms push_turn_keeps [OF assms(1)] pop_turn_keeps [OF assms(1)] by (auto simp: tl_turn_def split: if_splits)
qed (use assms in \<open>auto intro: tl_call_keeps [OF assms(1)]\<close>)

lemma tl_inv_start: "tl_inv (tl_start n)"
proof -
  have "tl_body [] [] (tl_start n)"
    by (auto simp: tl_body_def tl_start_def SafeQueueEnhance_new_def lock_inv_def own_inv_def holder_def Let_def)
  then show ?thesis by (auto simp: tl_inv_def)
qed

interpretation two_lock: invariant_system tl_step "tl_start n" tl_inv
  by unfold_locales (auto intro: tl_inv_start tl_inv_step)

subsection \<open>Properties\<close>

text \<open>
  (C9) Any number of threads that push and pop concurrently, in every interleaving of the single accesses: no
  access goes to a null pointer or a freed node, and what has been popped is what has been pushed, in
  the order in which the pushes set \<open>tail_\<close>; the rest are the values of the nodes from \<open>head_\<close> to the dummy when no pop is under way.
\<close>

theorem two_lock_fifo:
  assumes "reach tl_step (tl_start n) s"
  shows "tl_fault s = None \<and>
    (\<exists>ns xs. tl_pushed s = tl_popped s @ xs \<and> lchain (enh_heap (tl_queue s)) ns xs (enh_tail (tl_queue s)) \<and>
       (tl_head_lock s = None \<longrightarrow> enh_head (tl_queue s) = Some (hd (ns @ [enh_tail (tl_queue s)]))))"
proof -
  obtain ns xs where "tl_body ns xs s"
    using two_lock.inv_reach [OF assms] by (auto simp: tl_inv_def)
  then show ?thesis
    by (intro conjI exI [of _ ns] exI [of _ xs]) (auto simp: tl_body_def Let_def holder_def)
qed

text \<open>A schedule: two pushes whose nodes are linked in the opposite order of their allocation, and a pop between them.\<close>

definition two_push_schedule :: "int tl_label list" where
  "two_push_schedule =
     [Tl_push 0 7, Tl_push 1 8, Tl_run 0, Tl_run 1, Tl_run 1, Tl_run 1, Tl_run 1, Tl_run 1, Tl_run 1,
      Tl_try_pop 2, Tl_run 2, Tl_run 0, Tl_run 2, Tl_run 0, Tl_run 2, Tl_run 0, Tl_run 2, Tl_run 2, Tl_run 0]"

lemma two_push_run:
  "\<exists>s. run_labels tl_step two_push_schedule (tl_start 3) = Some s \<and> tl_pushed s = [8, 7] \<and> tl_popped s = [8]"
  by (simp add: two_push_schedule_def tl_start_def replicate_small tl_call_def tl_turn_def tl_simps
      SafeQueueEnhance_new_def empty_node_def)

theorem two_lock_fifo_witness:
  "\<exists>s. reach tl_step (tl_start 3) s \<and> tl_pushed s = [8, 7::int] \<and> tl_popped s = [8] \<and> tl_fault s = None"
proof -
  obtain s where s: "run_labels tl_step two_push_schedule (tl_start 3) = Some s" "tl_pushed s = [8, 7]" "tl_popped s = [8]"
    using two_push_run by blast
  from run_labels_reach [OF s(1)] have "reach tl_step (tl_start 3) s" .
  with two_lock_fifo [OF this] s show ?thesis by auto
qed

text \<open>
  (C10) No deadlock: while some thread is inside a call and not asleep in \<open>wait_pop\<close>, some thread can take a step.
\<close>

theorem two_lock_progress:
  assumes "reach tl_step (tl_start n) s" and "t < length (tl_pcs s)"
    and "tl_pcs s ! t \<noteq> Ready" and "tl_pcs s ! t \<noteq> O_sleep"
  shows "\<exists>u s'. tl_step (Tl_run u) s = Some s'"
proof -
  obtain ns xs where b: "tl_body ns xs s" using two_lock.inv_reach [OF assms(1)] by (auto simp: tl_inv_def)
  have ok: "tl_fault s = None" and l: "lock_inv holds_tail (tl_tail_lock s) (tl_pcs s)" "lock_inv holds_head (tl_head_lock s) (tl_pcs s)"
    using b by (simp_all add: tl_body_def Let_def)
  have run: "\<exists>s'. tl_step (Tl_run u) s = Some s'" if "u < length (tl_pcs s)" "holds_tail (tl_pcs s ! u) \<or> holds_head (tl_pcs s ! u)" for u
    using that ok by (cases "tl_pcs s ! u") (simp_all add: tl_turn_def)
  have "\<exists>s'. tl_step (Tl_run t) s = Some s'" if "tl_tail_lock s = None" "tl_head_lock s = None"
    using that assms(2-4) ok by (cases "tl_pcs s ! t") (simp_all add: tl_turn_def Let_def)
  moreover have "u < length (tl_pcs s) \<and> holds_tail (tl_pcs s ! u)" if "tl_tail_lock s = Some u" for u
    using l(1) that by (auto simp: lock_inv_def)
  moreover have "u < length (tl_pcs s) \<and> holds_head (tl_pcs s ! u)" if "tl_head_lock s = Some u" for u
    using l(2) that by (auto simp: lock_inv_def)
  ultimately show ?thesis using run by (metis option.exhaust)
qed

theorem two_lock_progress_witness:
  "\<exists>s. reach tl_step (tl_start 1) s \<and> tl_pcs s ! 0 = (U_alloc 5 :: int tl_pc) \<and> (\<exists>u s'. tl_step (Tl_run u) s = Some s')"
proof -
  obtain s where s: "run_labels tl_step [Tl_push 0 (5::int)] (tl_start 1) = Some s" "tl_pcs s ! 0 = U_alloc 5"
      "length (tl_pcs s) = 1"
    by (simp add: tl_start_def tl_call_def tl_goto_def)
  from run_labels_reach [OF s(1)] have r: "reach tl_step (tl_start 1) s" .
  moreover have "\<exists>u s'. tl_step (Tl_run u) s = Some s'"
    by (rule two_lock_progress [OF r, of 0]) (simp_all add: s)
  ultimately show ?thesis using s(2) by blast
qed

text \<open>
  A thread asleep in \<open>wait_pop\<close>. No step of another thread moves it: \<open>push\<close> does not notify \<open>cv_lock_\<close>.
\<close>

lemma on_node_pcs: "(\<And>nd. tl_pcs (f nd) ! t = tl_pcs s ! t) \<Longrightarrow> tl_pcs (on_node a s f) ! t = tl_pcs s ! t"
  by (simp add: on_node_def tl_fail_def split: option.split)

lemma push_turn_others: "push_turn u pc s = Some s' \<Longrightarrow> u \<noteq> t \<Longrightarrow> tl_pcs s' ! t = tl_pcs s ! t"
  by (cases pc) (auto simp: tl_goto_def set_queue_def put_tail_def Let_def split: if_splits intro!: on_node_pcs)

lemma pop_turn_others: "pop_turn u pc s = Some s' \<Longrightarrow> u \<noteq> t \<Longrightarrow> tl_pcs s' ! t = tl_pcs s ! t"
  by (cases pc)
    (auto simp: tl_goto_def set_queue_def tl_fail_def split: if_splits option.splits intro!: on_node_pcs)

lemma sleeper_stays:
  assumes "tl_step l s = Some s'" "l \<noteq> Tl_wake t" "tl_pcs s ! t = O_sleep"
  shows "tl_pcs s' ! t = O_sleep"
proof (cases l)
  case (Tl_run u)
  then have "u \<noteq> t" using assms(1,3) by (auto simp: tl_turn_def split: if_splits)
  then show ?thesis
    using assms(1,3) Tl_run push_turn_others [of u _ s s' t] pop_turn_others [of u _ s s' t]
    by (auto simp: tl_turn_def split: if_splits)
next
  case (Tl_wake u)
  then have "u \<noteq> t" using assms(2) by simp
  then show ?thesis using assms(1,3) Tl_wake by (auto simp: tl_call_def tl_goto_def split: if_splits)
qed (use assms(1,3) in \<open>auto simp: tl_call_def tl_goto_def nth_list_update split: if_splits\<close>)

lemma sleeper_stays_run:
  "run_labels tl_step ls s = Some s' \<Longrightarrow> Tl_wake t \<notin> set ls \<Longrightarrow> tl_pcs s ! t = O_sleep \<Longrightarrow> tl_pcs s' ! t = O_sleep"
  by (induction ls arbitrary: s) (auto split: option.splits dest: sleeper_stays [OF _ not_sym])

definition push_call :: "thread_id \<Rightarrow> 'a \<Rightarrow> 'a tl_label list" where
  "push_call u x = [Tl_push u x, Tl_run u, Tl_run u, Tl_run u, Tl_run u, Tl_run u, Tl_run u]"

lemma push_call_run:
  assumes "tl_inv s" "u < length (tl_pcs s)" "tl_pcs s ! u = Ready" "tl_tail_lock s = None"
  shows "\<exists>s'. run_labels tl_step (push_call u x) s = Some s' \<and> tl_pushed s' = tl_pushed s @ [x] \<and>
    length (tl_pcs s') = length (tl_pcs s) \<and> tl_pcs s' ! u = Ready \<and> tl_tail_lock s' = None"
proof -
  obtain ns xs where "tl_body ns xs s" using assms(1) by (auto simp: tl_inv_def)
  then have b: "tl_fault s = None" "enh_tail (tl_queue s) < enh_fresh (tl_queue s)"
    "enh_heap (tl_queue s) (enh_tail (tl_queue s)) = Some empty_node"
    using assms(4) by (simp_all add: tl_body_def Let_def holder_def)
  then show ?thesis
    using assms(2-4) by (simp add: push_call_def tl_call_def tl_turn_def tl_goto_def set_queue_def put_tail_def on_node_def Let_def)
qed

lemma push_calls_run:
  assumes "tl_inv s" "u < length (tl_pcs s)" "tl_pcs s ! u = Ready" "tl_tail_lock s = None"
  shows "\<exists>s'. run_labels tl_step (concat (map (push_call u) xs)) s = Some s' \<and> tl_pushed s' = tl_pushed s @ xs"
  using assms
proof (induction xs arbitrary: s)
  case (Cons x xs)
  obtain s1 where s1: "run_labels tl_step (push_call u x) s = Some s1" "tl_pushed s1 = tl_pushed s @ [x]"
      "u < length (tl_pcs s1)" "tl_pcs s1 ! u = Ready" "tl_tail_lock s1 = None"
    using push_call_run [OF Cons.prems, of x] Cons.prems(2) by auto
  have "tl_inv s1" using s1(1) Cons.prems(1) run_keeps [of tl_inv tl_step] tl_inv_step by blast
  from Cons.IH [OF this s1(3-5)] show ?case using s1(1,2) by (auto simp: run_labels_append)
qed simp

text \<open>
  (C13) A consumer asleep in \<open>wait_pop\<close> sleeps for ever: in every state the queue can reach, whatever any threads do from then
  on (pushes of any elements included), a thread asleep in \<open>wait_pop\<close> stays asleep unless it wakes up spuriously, and a thread outside the queue
  can meanwhile push any elements to the end.
\<close>

theorem SafeQueueEnhance_wait_pop_sleeps:
  assumes "reach tl_step (tl_start n) s" and "tl_pcs s ! t = O_sleep"
  shows "(\<forall>ls s'. Tl_wake t \<notin> set ls \<longrightarrow> run_labels tl_step ls s = Some s' \<longrightarrow> tl_pcs s' ! t = O_sleep) \<and>
    (\<forall>u xs. u < length (tl_pcs s) \<and> tl_pcs s ! u = Ready \<and> tl_tail_lock s = None \<longrightarrow>
       (\<exists>s'. run_labels tl_step (concat (map (push_call u) xs)) s = Some s' \<and> tl_pushed s' = tl_pushed s @ xs \<and>
          tl_pcs s' ! t = O_sleep))"
proof (intro conjI allI impI)
  fix ls s' assume "Tl_wake t \<notin> set ls" "run_labels tl_step ls s = Some s'"
  then show "tl_pcs s' ! t = O_sleep" using sleeper_stays_run assms(2) by blast
next
  fix u and xs :: "'a list" assume u: "u < length (tl_pcs s) \<and> tl_pcs s ! u = Ready \<and> tl_tail_lock s = None"
  then obtain s' where s': "run_labels tl_step (concat (map (push_call u) xs)) s = Some s'" "tl_pushed s' = tl_pushed s @ xs"
    using push_calls_run [OF two_lock.inv_reach [OF assms(1)], of u xs] by blast
  moreover have "Tl_wake t \<notin> set (concat (map (push_call u) xs))" by (auto simp: push_call_def)
  ultimately show "\<exists>s'. run_labels tl_step (concat (map (push_call u) xs)) s = Some s' \<and> tl_pushed s' = tl_pushed s @ xs \<and>
      tl_pcs s' ! t = O_sleep"
    using sleeper_stays_run [OF _ _ assms(2)] by blast
qed

theorem SafeQueueEnhance_wait_pop_sleeps_witness:
  "\<exists>s s'. run_labels tl_step [Tl_wait_pop 0, Tl_run 0, Tl_run 0] (tl_start 2) = Some s \<and>
     run_labels tl_step (concat (map (push_call 1) [5, 6 :: int])) s = Some s' \<and> tl_pushed s' = [5, 6] \<and> tl_pcs s' ! 0 = O_sleep"
proof -
  obtain s :: "int two_lock" where s: "run_labels tl_step [Tl_wait_pop 0, Tl_run 0, Tl_run 0] (tl_start 2) = Some s" "tl_pcs s = [O_sleep, Ready]"
      "tl_tail_lock s = None" "tl_pushed s = []"
    by (simp add: tl_start_def replicate_small tl_call_def tl_turn_def tl_simps SafeQueueEnhance_new_def)
  have "tl_pcs s ! 0 = O_sleep" using s(2) by simp
  note sleeps = SafeQueueEnhance_wait_pop_sleeps [OF run_labels_reach [OF s(1)] this, THEN conjunct2, rule_format, of 1 "[5, 6]"]
  have "1 < length (tl_pcs s) \<and> tl_pcs s ! 1 = Ready \<and> tl_tail_lock s = None" using s by simp
  from sleeps [OF this] s show ?thesis by auto
qed

text \<open>
  The comparison of a pop reads \<open>tail_\<close> under \<open>mt_head_\<close> and \<open>push\<close> writes it under \<open>mt_tail_\<close>: both can be the next step of
  their threads at the same time, a data race on a plain pointer. The theorems above are about the
  interleavings of these accesses; the C++ standard gives such an execution no meaning.
\<close>

fun accesses_tail :: "'a tl_pc \<Rightarrow> bool option" where
  "accesses_tail (U_data x n) = Some False" | "accesses_tail (U_link x n) = Some False"
| "accesses_tail (U_tail x n) = Some True" | "accesses_tail (O_check w) = Some False"
| "accesses_tail _ = None"

definition tail_race :: "'a two_lock \<Rightarrow> bool" where
  "tail_race s \<longleftrightarrow>
     (\<exists>t<length (tl_pcs s). \<exists>u<length (tl_pcs s). t \<noteq> u \<and> accesses_tail (tl_pcs s ! t) = Some True \<and>
        accesses_tail (tl_pcs s ! u) \<noteq> None \<and> tl_step (Tl_run t) s \<noteq> None \<and> tl_step (Tl_run u) s \<noteq> None)"

theorem two_lock_tail_race: "\<exists>s. reach tl_step (tl_start 2) (s :: int two_lock) \<and> tail_race s"
proof -
  let ?ls = "[Tl_push 0 (5::int), Tl_run 0, Tl_run 0, Tl_run 0, Tl_run 0, Tl_try_pop 1, Tl_run 1]"
  obtain s where s: "run_labels tl_step ?ls (tl_start 2) = Some s" "tl_pcs s = [U_tail 5 1, O_check False]" "tl_fault s = None"
    by (simp add: tl_start_def replicate_small tl_call_def tl_turn_def tl_simps SafeQueueEnhance_new_def empty_node_def)
  have "tail_race s"
    unfolding tail_race_def using s(2,3) by (intro exI [of _ 0] conjI exI [of _ 1]) (simp_all add: tl_turn_def)
  with run_labels_reach [OF s(1)] show ?thesis by blast
qed

end
