(* ===== verification/Nolock_Queue.thy ===== *)
theory Nolock_Queue
  imports Cxx_Prelude
begin

text \<open>
  Class \<open>SafeCircleQueNOLock\<close> of \<open>include/data_struct/SafeCircleQueue.hpp\<close>: the circular queue on atomic
  indices. Every atomic load, every compare-and-exchange and every access to a slot is a step of
  its own, so that all interleavings of the threads are runs of the model (with the sequentially consistent
  atomics the code uses). \<open>tail_\<close> reserves a slot, \<open>tail_up_\<close> publishes it. \<open>None\<close> is a slot that holds no
  object yet.
\<close>

record 'a nolock =
  nq_max :: size_t
  nq_data :: "'a option list"
  nq_head :: size_t
  nq_tail :: size_t
  nq_tail_up :: size_t

definition NoLock_new :: "size_t \<Rightarrow> 'a nolock" where
  "NoLock_new cap =
     \<lparr>nq_max = cap + 1, nq_data = replicate (unat (cap + 1)) None, nq_head = 0, nq_tail = 0, nq_tail_up = 0\<rparr>"

datatype 'a emplace_pc =
    E_load 'a | E_full 'a size_t | E_cas 'a size_t | E_construct 'a size_t | E_publish 'a size_t | E_done bool

definition ring_next :: "size_t \<Rightarrow> 'a nolock \<Rightarrow> size_t result" where
  "ring_next i q = (if nq_max q = 0 then Inl Division_By_Zero else Inr ((i + 1) mod nq_max q))"

fun emplace_step :: "'a emplace_pc \<Rightarrow> 'a nolock \<Rightarrow> ('a emplace_pc \<times> 'a nolock) result" where
  "emplace_step (E_load x) q = Inr (E_full x (nq_tail q), q)"
| "emplace_step (E_full x tail) q =
     and_then (ring_next tail q) (\<lambda>n. Inr (if n = nq_head q then E_done False else E_cas x tail, q))"
| "emplace_step (E_cas x tail) q =
     and_then (ring_next tail q) (\<lambda>n.
       if nq_tail q = tail then Inr (E_construct x tail, q\<lparr>nq_tail := n\<rparr>) else Inr (E_load x, q))"
| "emplace_step (E_construct x tail) q =
     (if unat tail < length (nq_data q)
      then Inr (E_publish x tail, q\<lparr>nq_data := (nq_data q)[unat tail := Some x]\<rparr>) else Inl Out_Of_Bounds)"
| "emplace_step (E_publish x tail) q =
     and_then (ring_next tail q) (\<lambda>n.
       if nq_tail_up q = tail then Inr (E_done True, q\<lparr>nq_tail_up := n\<rparr>) else Inr (E_publish x tail, q))"
| "emplace_step (E_done b) q = Inr (E_done b, q)"

datatype 'a pop_pc =
    P_load | P_empty size_t | P_old size_t | P_read size_t | P_next size_t 'a | P_cas size_t 'a size_t
  | P_done "'a option"

fun pop_step :: "'a pop_pc \<Rightarrow> 'a nolock \<Rightarrow> ('a pop_pc \<times> 'a nolock) result" where
  "pop_step P_load q = Inr (P_empty (nq_head q), q)"
| "pop_step (P_empty head) q = Inr (if head = nq_tail q then P_done None else P_old head, q)"
| "pop_step (P_old head) q = Inr (if head = nq_tail_up q then P_done None else P_read head, q)"
| "pop_step (P_read head) q =
     (if unat head < length (nq_data q)
      then (case nq_data q ! unat head of None \<Rightarrow> Inl Uninitialised_Read | Some x \<Rightarrow> Inr (P_next head x, q))
      else Inl Out_Of_Bounds)"
| "pop_step (P_next head x) q = and_then (ring_next (nq_head q) q) (\<lambda>n. Inr (P_cas head x n, q))"
| "pop_step (P_cas head x n) q =
     (if nq_head q = head then Inr (P_done (Some x), q\<lparr>nq_head := n\<rparr>) else Inr (P_load, q))"
| "pop_step (P_done r) q = Inr (P_done r, q)"

text \<open>
  Any number of threads, each between calls, in an \<open>emplace\<close> or in a \<open>pop\<close>. The published elements and
  the elements that were popped are recorded in order; a fault ends the run.
\<close>

record 'a nolock_system =
  ns_queue :: "'a nolock"
  ns_pcs :: "('a emplace_pc + 'a pop_pc) list"
  ns_published :: "'a list"
  ns_popped :: "'a list"
  ns_fault :: "cxx_fault option"

datatype 'a nolock_label = Call_emplace thread_id 'a | Call_pop thread_id | Step thread_id

fun nolock_idle :: "'a emplace_pc + 'a pop_pc \<Rightarrow> bool" where
  "nolock_idle (Inl (E_done b)) = True"
| "nolock_idle (Inr (P_done r)) = True"
| "nolock_idle _ = False"

fun publishes :: "'a emplace_pc \<Rightarrow> 'a emplace_pc \<Rightarrow> 'a list" where
  "publishes (E_publish x tail) (E_done b) = [x]"
| "publishes _ _ = []"

fun takes :: "'a pop_pc \<Rightarrow> 'a list" where
  "takes (P_done (Some x)) = [x]"
| "takes _ = []"

fun thread_step :: "thread_id \<Rightarrow> 'a nolock_system \<Rightarrow> 'a nolock_system" where
  "thread_step t s =
     (case ns_pcs s ! t of
        Inl e \<Rightarrow>
          (case emplace_step e (ns_queue s) of
             Inl f \<Rightarrow> s\<lparr>ns_fault := Some f\<rparr>
           | Inr (e', q) \<Rightarrow> s\<lparr>ns_queue := q, ns_pcs := (ns_pcs s)[t := Inl e'],
                             ns_published := ns_published s @ publishes e e'\<rparr>)
      | Inr p \<Rightarrow>
          (case pop_step p (ns_queue s) of
             Inl f \<Rightarrow> s\<lparr>ns_fault := Some f\<rparr>
           | Inr (p', q) \<Rightarrow> s\<lparr>ns_queue := q, ns_pcs := (ns_pcs s)[t := Inr p'],
                             ns_popped := ns_popped s @ takes p'\<rparr>))"

fun nolock_step :: "'a nolock_label \<Rightarrow> 'a nolock_system \<Rightarrow> 'a nolock_system option" where
  "nolock_step (Call_emplace t x) s =
     (if ns_fault s = None \<and> t < length (ns_pcs s) \<and> nolock_idle (ns_pcs s ! t)
      then Some (s\<lparr>ns_pcs := (ns_pcs s)[t := Inl (E_load x)]\<rparr>) else None)"
| "nolock_step (Call_pop t) s =
     (if ns_fault s = None \<and> t < length (ns_pcs s) \<and> nolock_idle (ns_pcs s ! t)
      then Some (s\<lparr>ns_pcs := (ns_pcs s)[t := Inr P_load]\<rparr>) else None)"
| "nolock_step (Step t) s =
     (if ns_fault s = None \<and> t < length (ns_pcs s) \<and> \<not> nolock_idle (ns_pcs s ! t)
      then Some (thread_step t s) else None)"

definition nolock_start :: "size_t \<Rightarrow> nat \<Rightarrow> 'a nolock_system" where
  "nolock_start cap threads =
     \<lparr>ns_queue = NoLock_new cap, ns_pcs = replicate threads (Inr (P_done None)),
      ns_published = [], ns_popped = [], ns_fault = None\<rparr>"

definition emplace_calls :: "thread_id \<Rightarrow> 'a \<Rightarrow> 'a nolock_label list" where
  "emplace_calls t x = [Call_emplace t x, Step t, Step t, Step t, Step t, Step t]"

definition pop_calls :: "thread_id \<Rightarrow> 'a nolock_label list" where
  "pop_calls t = [Call_pop t, Step t, Step t, Step t, Step t, Step t, Step t]"

subsection \<open>One producer and one consumer\<close>

text \<open>
  With thread 0 as the only producer and thread 1 as the only consumer the queue is correct. The
  invariant says, for each position in the code, what the thread's local variables still mean. The
  contents are the slots from \<open>head_\<close> to \<open>tail_up_\<close>.
\<close>

fun spsc_allowed :: "'a nolock_label \<Rightarrow> bool" where
  "spsc_allowed (Call_emplace t x) \<longleftrightarrow> t = 0"
| "spsc_allowed (Call_pop t) \<longleftrightarrow> t = 1"
| "spsc_allowed (Step t) \<longleftrightarrow> True"

definition spsc_step :: "'a nolock_label \<Rightarrow> 'a nolock_system \<Rightarrow> 'a nolock_system option" where
  "spsc_step l s = (if spsc_allowed l then nolock_step l s else None)"

definition spsc_start :: "size_t \<Rightarrow> 'a nolock_system" where
  "spsc_start cap = (nolock_start cap 2)\<lparr>ns_pcs := [Inl (E_done True), Inr (P_done None)]\<rparr>"

abbreviation hh :: "'a nolock \<Rightarrow> nat" where "hh q \<equiv> unat (nq_head q)"
abbreviation tt :: "'a nolock \<Rightarrow> nat" where "tt q \<equiv> unat (nq_tail q)"
abbreviation uu :: "'a nolock \<Rightarrow> nat" where "uu q \<equiv> unat (nq_tail_up q)"
abbreviation mm :: "'a nolock \<Rightarrow> nat" where "mm q \<equiv> unat (nq_max q)"

definition held :: "'a nolock \<Rightarrow> nat" where
  "held q = ring_len (mm q) (hh q) (uu q)"

definition ring_ok :: "'a nolock \<Rightarrow> bool" where
  "ring_ok q \<longleftrightarrow> length (nq_data q) = mm q \<and> nq_head q < nq_max q \<and> nq_tail q < nq_max q \<and> nq_tail_up q < nq_max q"

fun prod_ok :: "'a nolock \<Rightarrow> 'a emplace_pc \<Rightarrow> bool" where
  "prod_ok q (E_load x) \<longleftrightarrow> nq_tail q = nq_tail_up q"
| "prod_ok q (E_done b) \<longleftrightarrow> nq_tail q = nq_tail_up q"
| "prod_ok q (E_full x tail) \<longleftrightarrow> nq_tail q = nq_tail_up q \<and> tail = nq_tail q"
| "prod_ok q (E_cas x tail) \<longleftrightarrow> nq_tail q = nq_tail_up q \<and> tail = nq_tail q \<and> Suc (held q) < mm q"
| "prod_ok q (E_construct x tail) \<longleftrightarrow> tail = nq_tail_up q \<and> nq_tail q = (tail + 1) mod nq_max q \<and> Suc (held q) < mm q"
| "prod_ok q (E_publish x tail) \<longleftrightarrow> tail = nq_tail_up q \<and> nq_tail q = (tail + 1) mod nq_max q \<and> Suc (held q) < mm q \<and>
     nq_data q ! uu q = Some x"

fun cons_ok :: "'a nolock \<Rightarrow> 'a pop_pc \<Rightarrow> bool" where
  "cons_ok q P_load \<longleftrightarrow> True"
| "cons_ok q (P_done r) \<longleftrightarrow> True"
| "cons_ok q (P_empty head) \<longleftrightarrow> head = nq_head q"
| "cons_ok q (P_old head) \<longleftrightarrow> head = nq_head q"
| "cons_ok q (P_read head) \<longleftrightarrow> head = nq_head q \<and> 0 < held q"
| "cons_ok q (P_next head x) \<longleftrightarrow> head = nq_head q \<and> 0 < held q \<and> nq_data q ! hh q = Some x"
| "cons_ok q (P_cas head x n) \<longleftrightarrow> head = nq_head q \<and> 0 < held q \<and> nq_data q ! hh q = Some x \<and>
     n = (head + 1) mod nq_max q"

definition holds :: "'a nolock \<Rightarrow> 'a list \<Rightarrow> bool" where
  "holds q c \<longleftrightarrow> ring_view (nq_data q) (mm q) (hh q) (held q) = map Some c"

definition spsc_inv :: "size_t \<Rightarrow> 'a nolock_system \<Rightarrow> bool" where
  "spsc_inv cap s \<longleftrightarrow> ns_fault s = None \<and> nq_max (ns_queue s) = cap + 1 \<and> ring_ok (ns_queue s) \<and>
     (\<exists>c. holds (ns_queue s) c \<and> ns_published s = ns_popped s @ c) \<and>
     (\<exists>e p. ns_pcs s = [Inl e, Inr p] \<and> prod_ok (ns_queue s) e \<and> cons_ok (ns_queue s) p)"

lemma ring_ok_nat: "ring_ok q \<Longrightarrow> hh q < mm q \<and> tt q < mm q \<and> uu q < mm q \<and> 0 < mm q \<and> nq_max q \<noteq> 0"
  by (auto simp: ring_ok_def word_less_nat_alt)

lemma ring_next_ok: "ring_ok q \<Longrightarrow> ring_next i q = Inr ((i + 1) mod nq_max q)"
  using ring_ok_nat [of q] by (simp add: ring_next_def)

lemma ring_next_less: "ring_ok q \<Longrightarrow> (i + 1) mod nq_max q < nq_max q"
  using ring_ok_nat [of q] by (simp add: word_mod_less_divisor word_neq_0_conv)

lemma held_less: "ring_ok q \<Longrightarrow> held q < mm q"
  using ring_ok_nat [of q] by (simp add: held_def ring_len_less)

lemma held_tail: "ring_ok q \<Longrightarrow> (hh q + held q) mod mm q = uu q"
  using ring_ok_nat [of q] by (simp add: held_def ring_len_tail)

lemma held_0: "ring_ok q \<Longrightarrow> held q = 0 \<longleftrightarrow> nq_head q = nq_tail_up q"
  using ring_ok_nat [of q] by (simp add: held_def ring_len_eq_0 word_unat_eq_iff)

lemma ring_view_snoc: "ring_view d m h (Suc n) = ring_view d m h n @ [d ! ((h + n) mod m)]"
  by (simp add: ring_view_def)

text \<open>The three steps that change the queue.\<close>

lemma reserve_step:
  assumes "ring_ok q"
  shows "ring_ok (q\<lparr>nq_tail := (nq_tail q + 1) mod nq_max q\<rparr>)"
  using assms ring_next_less [OF assms] by (simp add: ring_ok_def)

lemma construct_step:
  assumes "ring_ok q" "holds q c"
  shows "holds (q\<lparr>nq_data := (nq_data q)[uu q := Some x]\<rparr>) c"
proof -
  have "(hh q + i) mod mm q \<noteq> uu q" if "i < held q" for i
    using ring_index_inj [of "hh q" i "mm q" "held q"] held_tail [OF assms(1)] held_less [OF assms(1)] that by auto
  then have "ring_view ((nq_data q)[uu q := Some x]) (mm q) (hh q) (held q) = ring_view (nq_data q) (mm q) (hh q) (held q)"
    by (rule ring_view_other)
  then show ?thesis using assms(2) by (simp add: holds_def held_def)
qed

lemma publish_step:
  fixes q :: "'a nolock"
  assumes "ring_ok q" "holds q c" "Suc (held q) < mm q" "nq_data q ! uu q = Some x"
  defines "q' \<equiv> q\<lparr>nq_tail_up := (nq_tail_up q + 1) mod nq_max q\<rparr>"
  shows "ring_ok q'" "holds q' (c @ [x])" "held q' = Suc (held q)"
proof -
  have u: "unat ((nq_tail_up q + 1) mod nq_max q) = Suc (uu q) mod mm q"
    using assms(1) by (intro unat_succ_mod) (simp add: ring_ok_def)
  show "ring_ok q'" using assms(1) ring_next_less [OF assms(1)] by (simp add: ring_ok_def q'_def)
  show h: "held q' = Suc (held q)"
    using ring_len_push [of "hh q" "mm q" "uu q"] ring_ok_nat [OF assms(1)] assms(3) by (simp add: held_def q'_def u)
  show "holds q' (c @ [x])"
    using assms(2,4) held_tail [OF assms(1)] unfolding holds_def h by (simp add: ring_view_snoc q'_def)
qed

lemma take_step:
  fixes q :: "'a nolock"
  assumes "ring_ok q" "holds q c" "0 < held q"
  defines "q' \<equiv> q\<lparr>nq_head := (nq_head q + 1) mod nq_max q\<rparr>"
  shows "ring_ok q'" "Suc (held q') = held q" "\<exists>x c'. c = x # c' \<and> nq_data q ! hh q = Some x \<and> holds q' c'"
proof -
  have u: "unat ((nq_head q + 1) mod nq_max q) = Suc (hh q) mod mm q"
    using assms(1) by (intro unat_succ_mod) (simp add: ring_ok_def)
  have "hh q \<noteq> uu q" using held_0 [OF assms(1)] assms(3) by (simp add: word_unat_eq_iff)
  show "ring_ok q'" using assms(1) ring_next_less [OF assms(1)] by (simp add: ring_ok_def q'_def)
  show h: "Suc (held q') = held q"
    using ring_len_pop [of "hh q" "mm q" "uu q"] ring_ok_nat [OF assms(1)] \<open>hh q \<noteq> uu q\<close>
    by (simp add: held_def q'_def u)
  have "map Some c = nq_data q ! hh q # ring_view (nq_data q) (mm q) (Suc (hh q) mod mm q) (held q')"
    using assms(2) ring_view_pop [of "hh q" "mm q" "nq_data q" "held q'"] ring_ok_nat [OF assms(1)]
    unfolding holds_def h [symmetric] by simp
  then show "\<exists>x c'. c = x # c' \<and> nq_data q ! hh q = Some x \<and> holds q' c'"
    by (cases c) (auto simp: holds_def q'_def u)
qed

text \<open>A step of the producer, and a step of the consumer, keep the meaning of both threads' variables.\<close>

lemma not_full_held:
  assumes "ring_ok q" "(nq_tail_up q + 1) mod nq_max q \<noteq> nq_head q"
  shows "Suc (held q) < mm q"
proof -
  have "unat ((nq_tail_up q + 1) mod nq_max q) = Suc (uu q) mod mm q"
    using assms(1) by (intro unat_succ_mod) (simp add: ring_ok_def)
  then have "Suc (held q) \<noteq> mm q"
    using ring_full_iff [of "hh q" "mm q" "uu q"] ring_ok_nat [OF assms(1)] assms(2)
    by (simp add: held_def word_unat_eq_iff)
  then show ?thesis using held_less [OF assms(1)] by simp
qed

lemma cons_ok_reserve: "cons_ok q p \<Longrightarrow> cons_ok (q\<lparr>nq_tail := n\<rparr>) p"
  by (cases p) (simp_all add: held_def)

lemma cons_ok_construct:
  assumes "cons_ok q p" "ring_ok q"
  shows "cons_ok (q\<lparr>nq_data := (nq_data q)[uu q := v]\<rparr>) p"
proof -
  have "hh q \<noteq> uu q" if "0 < held q"
    using held_0 [OF assms(2)] that by (simp add: word_unat_eq_iff)
  then show ?thesis using assms(1) by (cases p) (auto simp: held_def nth_list_update_neq)
qed

lemma cons_ok_publish:
  "cons_ok q p \<Longrightarrow> held (q\<lparr>nq_tail_up := n\<rparr>) = Suc (held q) \<Longrightarrow> cons_ok (q\<lparr>nq_tail_up := n\<rparr>) p"
  by (cases p) simp_all

lemma prod_ok_take:
  "prod_ok q e \<Longrightarrow> Suc (held (q\<lparr>nq_head := n\<rparr>)) = held q \<Longrightarrow> prod_ok (q\<lparr>nq_head := n\<rparr>) e"
  by (cases e) simp_all

lemma producer_step:
  assumes "ring_ok q" "holds q c" "prod_ok q e" "cons_ok q p" "\<not> nolock_idle (Inl e)"
  shows "\<exists>e' q'. emplace_step e q = Inr (e', q') \<and> nq_max q' = nq_max q \<and> ring_ok q' \<and>
           holds q' (c @ publishes e e') \<and> prod_ok q' e' \<and> cons_ok q' p"
proof (cases e)
  case (E_full x t)
  then show ?thesis
    using assms not_full_held [OF assms(1)] by (auto simp: ring_next_ok)
next
  case (E_cas x t)
  then show ?thesis
    using assms reserve_step [OF assms(1)] cons_ok_reserve [OF assms(4)]
    by (simp add: ring_next_ok holds_def held_def)
next
  case (E_construct x t)
  moreover from this have "uu q < length (nq_data q)" using assms(1) by (auto simp: ring_ok_def word_less_nat_alt)
  ultimately show ?thesis
    using assms construct_step [OF assms(1,2), of x] cons_ok_construct [OF assms(4,1)]
    by (simp add: ring_ok_def held_def)
next
  case (E_publish x t)
  then have "Suc (held q) < mm q" "nq_data q ! uu q = Some x" using assms(3) by simp_all
  note pub = publish_step [OF assms(1,2) this]
  from E_publish show ?thesis
    using assms pub cons_ok_publish [OF assms(4) pub(3)] by (simp add: ring_next_ok)
qed (use assms in simp_all)

lemma consumer_step:
  assumes "ring_ok q" "holds q c" "prod_ok q e" "cons_ok q p" "\<not> nolock_idle (Inr p)"
  shows "\<exists>p' q' c'. pop_step p q = Inr (p', q') \<and> nq_max q' = nq_max q \<and> ring_ok q' \<and>
           c = takes p' @ c' \<and> holds q' c' \<and> prod_ok q' e \<and> cons_ok q' p'"
proof (cases p)
  case (P_old h)
  then show ?thesis using assms held_0 [OF assms(1)] by auto
next
  case (P_read h)
  moreover from this have "hh q < length (nq_data q)" using assms(1) by (auto simp: ring_ok_def word_less_nat_alt)
  moreover obtain x where "nq_data q ! hh q = Some x"
    using take_step(3) [OF assms(1,2)] assms(4) P_read by auto
  ultimately show ?thesis using assms by simp
next
  case (P_cas h x n)
  then have "0 < held q" using assms(4) by simp
  note take = take_step [OF assms(1,2) this]
  obtain c' where "c = x # c'" "holds (q\<lparr>nq_head := (nq_head q + 1) mod nq_max q\<rparr>) c'"
    using take(3) P_cas assms(4) by auto
  with P_cas show ?thesis
    using assms take prod_ok_take [OF assms(3) take(2)] by simp
qed (use assms in \<open>auto simp: ring_next_ok\<close>)

lemma spsc_inv_calls:
  assumes inv: "spsc_inv cap s" and step: "spsc_step l s = Some s'" and l: "\<forall>t. l \<noteq> Step t"
  shows "spsc_inv cap s'"
  using inv step l
  by (cases l) (auto simp: spsc_inv_def spsc_step_def split: if_splits elim!: nolock_idle.elims)

lemma spsc_inv_Step:
  assumes inv: "spsc_inv cap s" and step: "spsc_step (Step t) s = Some s'"
  shows "spsc_inv cap s'"
proof -
  let ?q = "ns_queue s"
  obtain c e p where s: "ns_fault s = None" "nq_max ?q = cap + 1" "ring_ok ?q" "holds ?q c"
      "ns_published s = ns_popped s @ c" "ns_pcs s = [Inl e, Inr p]" "prod_ok ?q e" "cons_ok ?q p"
    using inv by (auto simp: spsc_inv_def)
  have t: "t < 2" "\<not> nolock_idle (ns_pcs s ! t)" "s' = thread_step t s"
    using step s(6) by (simp_all add: spsc_step_def split: if_splits)
  consider "t = 0" "\<not> nolock_idle (Inl e)" | "t = 1" "\<not> nolock_idle (Inr p)"
    using t(1,2) s(6) by (auto simp: less_2_cases_iff)
  then show ?thesis
  proof cases
    case 1
    then show ?thesis
      using producer_step [OF s(3,4,7,8)] s t(3) by (auto simp: spsc_inv_def)
  next
    case 2
    then show ?thesis
      using consumer_step [OF s(3,4,7,8)] s t(3) by (auto simp: spsc_inv_def)
  qed
qed

lemma spsc_inv_step: "spsc_inv cap s \<Longrightarrow> spsc_step l s = Some s' \<Longrightarrow> spsc_inv cap s'"
  by (cases l) (blast intro: spsc_inv_calls spsc_inv_Step)+

lemma spsc_inv_start: "cap + 1 \<noteq> 0 \<Longrightarrow> spsc_inv cap (spsc_start cap)"
  by (simp add: spsc_inv_def spsc_start_def nolock_start_def NoLock_new_def ring_ok_def holds_def held_def
      ring_len_def ring_view_0 word_neq_0_conv)

interpretation spsc: invariant_system spsc_step "spsc_start cap" "\<lambda>s. cap + 1 \<noteq> 0 \<longrightarrow> spsc_inv cap s" for cap
  by unfold_locales (blast intro: spsc_inv_start spsc_inv_step)+

text \<open>
  (C34) With one producer thread and one consumer thread, in every interleaving of the atomic
  steps of any number of calls: no call reads a slot that holds no object or leaves the array, the
  popped elements are the published ones in the same order, and at most \<open>Cap\<close> elements are held.
\<close>

theorem nolock_spsc_fifo:
  assumes "reach spsc_step (spsc_start cap) s" and "cap + 1 \<noteq> 0"
  shows "ns_fault s = None \<and> (\<exists>c. ns_published s = ns_popped s @ c \<and> length c \<le> unat cap)"
proof -
  let ?q = "ns_queue s"
  have inv: "spsc_inv cap s" using spsc.inv_reach [OF assms(1)] assms(2) by blast
  then obtain c where c: "holds ?q c" "ns_published s = ns_popped s @ c" by (auto simp: spsc_inv_def)
  have "held ?q = length c"
    using c(1) by (metis holds_def length_map length_ring_view)
  moreover have "held ?q < mm ?q" "mm ?q = unat cap + 1"
    using inv assms(2) held_less [of ?q] unatSuc [of cap] by (simp_all add: spsc_inv_def add.commute)
  ultimately show ?thesis using inv c(2) by (auto simp: spsc_inv_def)
qed

lemma spsc_start_1:
  "spsc_start 1 = \<lparr>ns_queue = \<lparr>nq_max = 2, nq_data = [None, None], nq_head = 0, nq_tail = 0, nq_tail_up = 0\<rparr>,
     ns_pcs = [Inl (E_done True), Inr (P_done None)], ns_published = [], ns_popped = [], ns_fault = None\<rparr>"
  by (simp add: spsc_start_def nolock_start_def NoLock_new_def replicate_small)

theorem nolock_spsc_fifo_witness:
  "\<exists>s. reach spsc_step (spsc_start 1) s \<and> ns_published s = [7, 8::int] \<and> ns_popped s = [7] \<and> ns_fault s = None \<and>
     (\<exists>c. ns_published s = ns_popped s @ c \<and> length c \<le> unat (1::size_t))"
proof -
  have "\<exists>s. run_labels spsc_step (emplace_calls 0 (7::int) @ pop_calls 1 @ emplace_calls 0 8) (spsc_start 1) = Some s \<and>
          ns_published s = [7, 8] \<and> ns_popped s = [7]"
    by (simp add: spsc_step_def emplace_calls_def pop_calls_def spsc_start_1 ring_next_def)
  then obtain s where "reach spsc_step (spsc_start 1) s" "ns_published s = [7, 8::int]" "ns_popped s = [7]"
    by (blast dest: run_labels_reach)
  moreover from this(1) have "ns_fault s = None \<and> (\<exists>c. ns_published s = ns_popped s @ c \<and> length c \<le> unat (1::size_t))"
    by (rule nolock_spsc_fifo) simp
  ultimately show ?thesis by blast
qed

subsection \<open>Two consumers\<close>

text \<open>
  The queue with all three indices at \<open>i\<close>, thread 0 (a producer) and thread 2 (a consumer) between calls, and thread 1 at
  the position \<open>stalled\<close> of a pop.
\<close>

definition between :: "'a nolock_system \<Rightarrow> 'a pop_pc \<Rightarrow> size_t \<Rightarrow> size_t \<Rightarrow> 'a list \<Rightarrow> 'a list \<Rightarrow> bool" where
  "between s stalled m i pub pop \<longleftrightarrow> ns_fault s = None \<and> nq_max (ns_queue s) = m \<and> length (nq_data (ns_queue s)) = unat m \<and>
     nq_head (ns_queue s) = i \<and> nq_tail (ns_queue s) = i \<and> nq_tail_up (ns_queue s) = i \<and>
     (\<exists>e p. ns_pcs s = [e, Inr stalled, p] \<and> nolock_idle e \<and> nolock_idle p) \<and> ns_published s = pub \<and> ns_popped s = pop"

lemma next_index_neq: "i < m \<Longrightarrow> 1 < m \<Longrightarrow> (i + 1) mod m \<noteq> (i :: size_t)"
proof
  assume i: "i < m" "1 < m" "(i + 1) mod m = i"
  then have "Suc (unat i) mod unat m = unat i" using unat_succ_mod [OF i(1)] by simp
  moreover have "unat i < unat m" "1 < unat m" using i(1,2) by (simp_all add: word_less_nat_alt)
  ultimately show False by (cases "Suc (unat i) = unat m") (auto simp: mod_less)
qed

text \<open>An element passes through the queue while thread 1 is stalled.\<close>

lemma pass_through:
  assumes "between s stalled m i pub pop" "i < m" "1 < m"
  shows "\<exists>s'. run_labels nolock_step (emplace_calls 0 x @ pop_calls 2) s = Some s' \<and>
    between s' stalled m ((i + 1) mod m) (pub @ [x]) (pop @ [x])"
proof -
  obtain e p where s: "ns_pcs s = [e, Inr stalled, p]" "nolock_idle e" "nolock_idle p"
    using assms(1) by (auto simp: between_def)
  have m: "m \<noteq> 0" "unat i < unat m" using assms(2,3) by (auto simp: word_less_nat_alt)
  show ?thesis
    using assms(1) s m next_index_neq [OF assms(2,3)]
    by (simp add: between_def emplace_calls_def pop_calls_def ring_next_def)
qed

lemma pass_all_through:
  assumes "between s stalled m i pub pop" "i < m" "1 < m"
  shows "\<exists>s' i'. run_labels nolock_step (concat (map (\<lambda>x. emplace_calls 0 x @ pop_calls 2) xs)) s = Some s' \<and>
    unat i' = (unat i + length xs) mod unat m \<and> between s' stalled m i' (pub @ xs) (pop @ xs)"
  using assms
proof (induction xs arbitrary: s i pub pop)
  case Nil
  then show ?case by (intro exI [of _ s] exI [of _ i]) (simp add: word_less_nat_alt)
next
  case (Cons x xs)
  let ?i = "(i + 1) mod m"
  obtain s1 where s1: "run_labels nolock_step (emplace_calls 0 x @ pop_calls 2) s = Some s1"
      "between s1 stalled m ?i (pub @ [x]) (pop @ [x])"
    using pass_through [OF Cons.prems] by blast
  have "?i < m" using Cons.prems(3) by (intro word_mod_less_divisor) (auto simp: word_less_nat_alt)
  from Cons.IH [OF s1(2) this Cons.prems(3)] obtain s' i' where
    "run_labels nolock_step (concat (map (\<lambda>x. emplace_calls 0 x @ pop_calls 2) xs)) s1 = Some s'"
    "unat i' = (unat ?i + length xs) mod unat m" "between s' stalled m i' (pub @ x # xs) (pop @ x # xs)" by auto
  moreover have "(unat ?i + length xs) mod unat m = (unat i + length (x # xs)) mod unat m"
    using unat_succ_mod [OF Cons.prems(2)] by (simp add: mod_simps)
  moreover have "run_labels nolock_step (concat (map (\<lambda>x. emplace_calls 0 x @ pop_calls 2) (x # xs))) s =
      run_labels nolock_step (concat (map (\<lambda>x. emplace_calls 0 x @ pop_calls 2) xs)) s1"
    using s1(1) unfolding run_labels_append list.map concat.simps by simp
  ultimately show ?case by (intro exI [of _ s'] exI [of _ i']) simp
qed

text \<open>
  (C33) With two consumers the compare-and-exchange of \<open>pop\<close> succeeds on an index that has gone round the ring (the ABA
  problem), whatever the capacity: a consumer reads the first element and stalls; the other one takes that element, as many
  further elements as the capacity pass through the queue, and a last one is put into the same slot. The stalled consumer then returns
  the first element a second time, and the last one is lost: the queue is empty.
\<close>

theorem nolock_pop_aba:
  assumes "length xs = unat cap" and "0 < cap" and "cap + 1 \<noteq> 0"
  shows "\<exists>s. reach nolock_step (nolock_start cap 3) s \<and> ns_fault s = None \<and>
    ns_published s = x # xs @ [y] \<and> ns_popped s = x # xs @ [x] \<and>
    nq_head (ns_queue s) = nq_tail (ns_queue s) \<and> nq_head (ns_queue s) = nq_tail_up (ns_queue s)"
proof -
  let ?m = "cap + 1"
  have m: "unat ?m = Suc (unat cap)" using assms(3) by (simp add: unatSuc add.commute)
  then have m1: "1 < ?m" "1 mod ?m = 1" "1 < unat ?m"
    using assms(2) by (simp_all add: word_less_nat_alt word_arith_nat_mod)
  let ?first = "emplace_calls 0 x @ [Call_pop 1, Step 1, Step 1, Step 1, Step 1, Step 1] @ pop_calls 2"
  let ?middle = "concat (map (\<lambda>x. emplace_calls 0 x @ pop_calls 2) xs)"
  obtain s1 where s1: "run_labels nolock_step ?first (nolock_start cap 3) = Some s1"
      "between s1 (P_cas 0 x 1) ?m 1 [x] [x]"
    using m m1 assms(3)
    by (simp add: between_def emplace_calls_def pop_calls_def nolock_start_def NoLock_new_def ring_next_def replicate_small)
  obtain s2 i where s2: "run_labels nolock_step ?middle s1 = Some s2" "unat i = (1 + unat cap) mod unat ?m"
      "between s2 (P_cas 0 x 1) ?m i (x # xs) (x # xs)"
    using pass_all_through [OF s1(2) m1(1,1), of xs] assms(1) by auto
  then have "i = 0" using m by (simp add: unat_eq_zero)
  with s2(3) obtain s3 where s3: "run_labels nolock_step (emplace_calls 0 y @ [Step 1]) s2 = Some s3" "ns_fault s3 = None"
      "ns_published s3 = x # xs @ [y]" "ns_popped s3 = x # xs @ [x]"
      "nq_head (ns_queue s3) = 1" "nq_tail (ns_queue s3) = 1" "nq_tail_up (ns_queue s3) = 1"
    using m m1 assms(3) by (auto simp: between_def emplace_calls_def ring_next_def)
  have "run_labels nolock_step (?first @ ?middle @ emplace_calls 0 y @ [Step 1]) (nolock_start cap 3) = Some s3"
    unfolding run_labels_append [of _ ?first] run_labels_append [of _ ?middle] s1(1) s2(1) option.case s3(1) ..
  from run_labels_reach [OF this] s3 show ?thesis by (intro exI [of _ s3]) simp
qed

theorem nolock_pop_aba_witness:
  "\<exists>s. reach nolock_step (nolock_start 1 3) s \<and> ns_published s = [1, 2, 3 :: int] \<and> ns_popped s = [1, 2, 1]"
  using nolock_pop_aba [of "[2 :: int]" 1 1 3] by auto

subsection \<open>The destructor\<close>

text \<open>
  The loop of the destructor destroys the object at \<open>head_\<close> and does not advance \<open>head_\<close>. The model
  is for an element type whose destructor may run again (for the others the second round is
  already undefined); not returning is \<open>None\<close>.
\<close>

partial_function (option) NoLock_destruct :: "'a nolock \<Rightarrow> 'a nolock option" where
  "NoLock_destruct q =
     (if nq_head q \<noteq> nq_tail q then NoLock_destruct (q\<lparr>nq_data := (nq_data q)[unat (nq_head q) := None]\<rparr>) else Some q)"

lemma NoLock_destruct_empty:
  assumes "NoLock_destruct q = Some q'"
  shows "nq_head q = nq_tail q"
proof (rule NoLock_destruct.raw_induct [where P = "\<lambda>q q'. nq_head q = nq_tail q", OF _ assms])
  fix destruct and q r :: "'a nolock"
  assume IH: "\<And>q r. destruct q = Some r \<Longrightarrow> nq_head q = nq_tail q"
    and body: "(if nq_head q \<noteq> nq_tail q then destruct (q\<lparr>nq_data := (nq_data q)[unat (nq_head q) := None]\<rparr>)
      else Some q) = Some r"
  show "nq_head q = nq_tail q"
  proof (rule ccontr)
    assume "nq_head q \<noteq> nq_tail q"
    with body have "destruct (q\<lparr>nq_data := (nq_data q)[unat (nq_head q) := None]\<rparr>) = Some r" by simp
    from IH [OF this] \<open>nq_head q \<noteq> nq_tail q\<close> show False by simp
  qed
qed

text \<open>The destructor returns exactly on an empty queue: with an element left it never ends.\<close>

theorem NoLock_destruct_returns_iff: "(\<exists>q'. NoLock_destruct q = Some q') \<longleftrightarrow> nq_head q = nq_tail q"
proof
  show "\<exists>q'. NoLock_destruct q = Some q' \<Longrightarrow> nq_head q = nq_tail q"
    using NoLock_destruct_empty by blast
  show "nq_head q = nq_tail q \<Longrightarrow> \<exists>q'. NoLock_destruct q = Some q'"
    by (subst NoLock_destruct.simps) simp
qed

end
