(* ===== verification/Safe_List.thy ===== *)
theory Safe_List
  imports Cxx_Prelude
begin

text \<open>
  \<open>include/data_struct/SafeList.hpp\<close>: a singly linked list with a dummy head and one mutex per node.
  The nodes live in an explicit heap; a \<open>unique_ptr\<close> that is reset deletes its node, and with it the
  chain of nodes that hangs on the node's own \<open>unique_ptr\<close>. A use of a deleted node, also the unlocking
  of its mutex, and the read of the uninitialised \<open>tail_\<close> are faults. \<open>None\<close> for \<open>sl_tail\<close> stands
  for the indeterminate pointer the constructor leaves. The loops are partial functions.
\<close>

record 'a list_node =
  ln_data :: "'a option"
  ln_next :: "nat option"

type_synonym 'a heap = "nat \<rightharpoonup> 'a list_node"

record 'a safe_list =
  sl_heap :: "'a heap"
  sl_fresh :: nat
  sl_head :: nat
  sl_tail :: "nat option"

definition SafeList_new :: "'a safe_list" where
  "SafeList_new =
     \<lparr>sl_heap = [0 \<mapsto> \<lparr>ln_data = None, ln_next = None\<rparr>], sl_fresh = 1, sl_head = 0, sl_tail = None\<rparr>"

text \<open>The deletion of a node and of the nodes it owns; there are at most \<open>fuel\<close> nodes.\<close>

fun delete_chain :: "nat \<Rightarrow> nat option \<Rightarrow> 'a heap \<Rightarrow> 'a heap" where
  "delete_chain fuel None h = h"
| "delete_chain 0 (Some a) h = h"
| "delete_chain (Suc fuel) (Some a) h =
     (case h a of None \<Rightarrow> h | Some n \<Rightarrow> delete_chain fuel (ln_next n) (h(a := None)))"

definition SafeList_pushFront :: "'a \<Rightarrow> 'a safe_list \<Rightarrow> 'a safe_list result" where
  "SafeList_pushFront x s =
     (case sl_heap s (sl_head s) of None \<Rightarrow> Inl Use_After_Free
      | Some hn \<Rightarrow>
         let new_node = sl_fresh s;
             s' = s\<lparr>sl_heap := (sl_heap s)(new_node \<mapsto> \<lparr>ln_data = Some x, ln_next = ln_next hn\<rparr>,
                                         sl_head s \<mapsto> hn\<lparr>ln_next := Some new_node\<rparr>),
                    sl_fresh := Suc new_node\<rparr> in
         Inr (if ln_next hn = None then s'\<lparr>sl_tail := Some new_node\<rparr> else s'))"

definition SafeList_pushBack :: "'a \<Rightarrow> 'a safe_list \<Rightarrow> 'a safe_list result" where
  "SafeList_pushBack x s =
     (case sl_tail s of None \<Rightarrow> Inl Uninitialised_Read
      | Some t \<Rightarrow>
        (case sl_heap s t of None \<Rightarrow> Inl Use_After_Free
         | Some n \<Rightarrow>
            let new_node = sl_fresh s in
            Inr (s\<lparr>sl_heap := (delete_chain (sl_fresh s) (ln_next n) (sl_heap s))
                     (new_node \<mapsto> \<lparr>ln_data = Some x, ln_next = None\<rparr>, t \<mapsto> n\<lparr>ln_next := Some new_node\<rparr>),
                   sl_fresh := Suc new_node, sl_tail := Some new_node\<rparr>)))"

text \<open>The node after \<open>current\<close> with its data; \<open>Inr None\<close> at the end of the list.\<close>

definition next_of :: "'a heap \<Rightarrow> nat \<Rightarrow> (nat \<times> 'a) option result" where
  "next_of h current =
     (case h current of None \<Rightarrow> Inl Use_After_Free
      | Some n \<Rightarrow>
        (case ln_next n of None \<Rightarrow> Inr None
         | Some a \<Rightarrow>
           (case h a of None \<Rightarrow> Inl Use_After_Free
            | Some m \<Rightarrow> (case ln_data m of None \<Rightarrow> Inl Null_Dereference | Some x \<Rightarrow> Inr (Some (a, x))))))"

partial_function (option) find_from :: "('a \<Rightarrow> bool) \<Rightarrow> 'a heap \<Rightarrow> nat \<Rightarrow> 'a option result option" where
  "find_from p h current =
     (case next_of h current of
        Inl e \<Rightarrow> Some (Inl e)
      | Inr r \<Rightarrow> (case r of None \<Rightarrow> Some (Inr None)
                | Some ax \<Rightarrow> if p (snd ax) then Some (Inr (Some (snd ax))) else find_from p h (fst ax)))"

definition SafeList_findFirstIf :: "('a \<Rightarrow> bool) \<Rightarrow> 'a safe_list \<Rightarrow> 'a option result option" where
  "SafeList_findFirstIf p s = find_from p (sl_heap s) (sl_head s)"

partial_function (option) each_from :: "('a \<Rightarrow> 's \<Rightarrow> 's) \<Rightarrow> 'a heap \<Rightarrow> nat \<Rightarrow> 's \<Rightarrow> 's result option" where
  "each_from f h current w =
     (case next_of h current of
        Inl e \<Rightarrow> Some (Inl e)
      | Inr r \<Rightarrow> (case r of None \<Rightarrow> Some (Inr w) | Some ax \<Rightarrow> each_from f h (fst ax) (f (snd ax) w)))"

definition SafeList_forEach :: "('a \<Rightarrow> 's \<Rightarrow> 's) \<Rightarrow> 'a safe_list \<Rightarrow> 's \<Rightarrow> 's result option" where
  "SafeList_forEach f s w = each_from f (sl_heap s) (sl_head s) w"

text \<open>
  \<open>current->next_.reset(next->next_.get())\<close>: \<open>current\<close> now owns the node after \<open>next\<close>, but deleting
  \<open>next\<close> deletes that node too.
\<close>

definition reset_next :: "nat \<Rightarrow> nat \<Rightarrow> 'a safe_list \<Rightarrow> 'a safe_list result" where
  "reset_next current a s =
     (case (sl_heap s current, sl_heap s a) of
        (Some c, Some n) \<Rightarrow>
          Inr (s\<lparr>sl_heap := delete_chain (sl_fresh s) (Some a)
                  ((sl_heap s)(current \<mapsto> c\<lparr>ln_next := ln_next n\<rparr>))\<rparr>)
      | _ \<Rightarrow> Inl Use_After_Free)"

definition unlock_node :: "nat \<Rightarrow> 'a safe_list \<Rightarrow> 'a safe_list result" where
  "unlock_node a s = (if sl_heap s a = None then Inl Use_After_Free else Inr s)"

definition fix_tail :: "nat \<Rightarrow> 'a safe_list \<Rightarrow> 'a safe_list result" where
  "fix_tail current s =
     (case sl_heap s current of None \<Rightarrow> Inl Use_After_Free
      | Some c \<Rightarrow> Inr (if ln_next c = None then s\<lparr>sl_tail := Some current\<rparr> else s))"

partial_function (option) remove_from :: "('a \<Rightarrow> bool) \<Rightarrow> nat \<Rightarrow> 'a safe_list \<Rightarrow> 'a safe_list result option" where
  "remove_from p current s =
     (case next_of (sl_heap s) current of
        Inl e \<Rightarrow> Some (Inl e)
      | Inr r \<Rightarrow> (case r of None \<Rightarrow> Some (Inr s)
          | Some ax \<Rightarrow>
            if p (snd ax)
            then (case and_then (and_then (reset_next current (fst ax) s) (unlock_node (fst ax))) (fix_tail current) of
                    Inl e \<Rightarrow> Some (Inl e) | Inr s' \<Rightarrow> remove_from p current s')
            else remove_from p (fst ax) s))"

definition SafeList_removeIf :: "('a \<Rightarrow> bool) \<Rightarrow> 'a safe_list \<Rightarrow> 'a safe_list result option" where
  "SafeList_removeIf p s = remove_from p (sl_head s) s"

partial_function (option) remove_first_from ::
  "('a \<Rightarrow> bool) \<Rightarrow> nat \<Rightarrow> 'a safe_list \<Rightarrow> (bool \<times> 'a safe_list) result option" where
  "remove_first_from p current s =
     (case next_of (sl_heap s) current of
        Inl e \<Rightarrow> Some (Inl e)
      | Inr r \<Rightarrow> (case r of None \<Rightarrow> Some (Inr (False, s))
          | Some ax \<Rightarrow>
            if p (snd ax)
            then Some (and_then (and_then (and_then (reset_next current (fst ax) s) (fix_tail current))
                   (unlock_node (fst ax))) (\<lambda>s'. Inr (True, s')))
            else remove_first_from p (fst ax) s))"

definition SafeList_removeFirstIf :: "('a \<Rightarrow> bool) \<Rightarrow> 'a safe_list \<Rightarrow> (bool \<times> 'a safe_list) result option" where
  "SafeList_removeFirstIf p s = remove_first_from p (sl_head s) s"

definition SafeList_destroy :: "'a safe_list \<Rightarrow> 'a safe_list result option" where
  "SafeList_destroy s = SafeList_removeIf (\<lambda>_. True) s"

subsection \<open>The list a heap represents\<close>

fun chain :: "'a heap \<Rightarrow> nat option \<Rightarrow> (nat \<times> 'a) list \<Rightarrow> bool" where
  "chain h p [] \<longleftrightarrow> p = None"
| "chain h p ((a, x) # ns) \<longleftrightarrow> p = Some a \<and>
     (\<exists>n. h a = Some n \<and> ln_data n = Some x \<and> chain h (ln_next n) ns)"

definition repr :: "'a safe_list \<Rightarrow> (nat \<times> 'a) list \<Rightarrow> bool" where
  "repr s ns \<longleftrightarrow> (\<exists>hn. sl_heap s (sl_head s) = Some hn \<and> chain (sl_heap s) (ln_next hn) ns) \<and>
     distinct (sl_head s # map fst ns) \<and> (\<forall>a. sl_fresh s \<le> a \<longrightarrow> sl_heap s a = None) \<and>
     sl_tail s = (if ns = [] then None else Some (fst (last ns)))"

lemma chain_frame: "a \<notin> fst ` set ns \<Longrightarrow> chain (h(a := v)) p ns = chain h p ns"
  by (induction ns arbitrary: p) auto

lemma chain_live: "chain h p ns \<Longrightarrow> a \<in> fst ` set ns \<Longrightarrow> h a \<noteq> None"
proof (induction ns arbitrary: p)
  case (Cons bx ns)
  then show ?case by (cases bx) (auto simp del: not_None_eq)
qed simp

lemma repr_fresh:
  assumes "repr s ns"
  shows "sl_fresh s \<noteq> sl_head s" "sl_fresh s \<notin> fst ` set ns"
  using assms by (auto simp: repr_def dest: chain_live)

lemma repr_new: "repr SafeList_new []"
  by (simp add: repr_def SafeList_new_def)

lemma pushFront_repr:
  assumes "repr s ns"
  shows "\<exists>s'. SafeList_pushFront x s = Inr s' \<and> repr s' ((sl_fresh s, x) # ns)"
proof -
  obtain hn where hn: "sl_heap s (sl_head s) = Some hn" "chain (sl_heap s) (ln_next hn) ns"
    using assms by (auto simp: repr_def)
  have empty: "ln_next hn = None \<longleftrightarrow> ns = []" using hn(2) by (cases ns) auto
  show ?thesis
    using assms hn empty repr_fresh [OF assms]
    by (auto simp: SafeList_pushFront_def repr_def Let_def chain_frame)
qed

text \<open>Walking to the last node and hanging a new one on it.\<close>

lemma chain_snoc:
  assumes "chain h p ns" "ns \<noteq> []" "fst (last ns) = t" "h t = Some n" "distinct (map fst ns)" "new \<notin> fst ` set ns"
  shows "chain (h(new \<mapsto> \<lparr>ln_data = Some x, ln_next = None\<rparr>, t \<mapsto> n\<lparr>ln_next := Some new\<rparr>)) p (ns @ [(new, x)])"
  using assms
proof (induction ns arbitrary: p)
  case (Cons ax ns)
  obtain a y where ax: "ax = (a, y)" by force
  show ?case
  proof (cases "ns = []")
    case True
    then show ?thesis using Cons.prems ax by auto
  next
    case False
    then have "t \<in> fst ` set ns" using Cons.prems(3) by auto
    then have "a \<noteq> t" using Cons.prems(5) ax by auto
    then show ?thesis using Cons False ax by auto
  qed
qed simp

lemma chain_last: "chain h p ns \<Longrightarrow> ns \<noteq> [] \<Longrightarrow> \<exists>n. h (fst (last ns)) = Some n \<and> ln_next n = None"
  by (induction ns arbitrary: p) (auto split: if_splits)

lemma pushBack_repr:
  assumes "repr s ns" "ns \<noteq> []"
  shows "\<exists>s'. SafeList_pushBack x s = Inr s' \<and> repr s' (ns @ [(sl_fresh s, x)])"
proof -
  obtain hn where hn: "sl_heap s (sl_head s) = Some hn" "chain (sl_heap s) (ln_next hn) ns"
    using assms by (auto simp: repr_def)
  obtain n where n: "sl_heap s (fst (last ns)) = Some n" "ln_next n = None"
    using chain_last [OF hn(2) assms(2)] by blast
  have last: "fst (last ns) \<in> fst ` set ns" using assms(2) by simp
  moreover have "sl_head s \<notin> fst ` set ns" using assms(1) by (simp add: repr_def)
  ultimately have "fst (last ns) \<noteq> sl_head s" by metis
  moreover have "fst (last ns) \<noteq> sl_fresh s" using repr_fresh(2) [OF assms(1)] last by metis
  moreover have "chain ((sl_heap s)(sl_fresh s \<mapsto> \<lparr>ln_data = Some x, ln_next = None\<rparr>,
      fst (last ns) \<mapsto> n\<lparr>ln_next := Some (sl_fresh s)\<rparr>)) (ln_next hn) (ns @ [(sl_fresh s, x)])"
    using hn n assms repr_fresh [OF assms(1)] by (intro chain_snoc) (auto simp: repr_def)
  ultimately show ?thesis
    using assms hn n repr_fresh [OF assms(1)]
    by (auto simp: SafeList_pushBack_def repr_def Let_def)
qed

lemma next_of_chain:
  assumes "h c = Some n" "chain h (ln_next n) ns"
  shows "next_of h c = Inr (case ns of [] \<Rightarrow> None | ax # _ \<Rightarrow> Some ax)"
  using assms by (cases ns) (auto simp: next_of_def)

lemma next_of_end: "h c = Some n \<Longrightarrow> ln_next n = None \<Longrightarrow> next_of h c = Inr None"
  by (simp add: next_of_def)

lemma find_from_chain:
  assumes "h c = Some n" "chain h (ln_next n) ns"
  shows "find_from p h c = Some (Inr (find p (map snd ns)))"
  using assms
proof (induction ns arbitrary: c n)
  case (Cons ax ns)
  note st = find_from.simps [of p h c] next_of_chain [OF Cons.prems]
  obtain m where "h (fst ax) = Some m" "chain h (ln_next m) ns"
    using Cons.prems(2) by (cases ax) auto
  then show ?case using st Cons.IH by simp
qed (simp add: find_from.simps [of p h] next_of_end)

lemma each_from_chain:
  assumes "h c = Some n" "chain h (ln_next n) ns"
  shows "each_from f h c w = Some (Inr (fold f (map snd ns) w))"
  using assms
proof (induction ns arbitrary: c n w)
  case (Cons ax ns)
  note st = each_from.simps [of f h c w] next_of_chain [OF Cons.prems]
  obtain m where "h (fst ax) = Some m" "chain h (ln_next m) ns"
    using Cons.prems(2) by (cases ax) auto
  then show ?case using st Cons.IH by simp
qed (simp add: each_from.simps [of f h] next_of_end)

text \<open>The node that is removed is deleted before its mutex is unlocked.\<close>

lemma delete_chain_None: "h a = None \<Longrightarrow> delete_chain fuel p h a = None"
  by (induction fuel p h rule: delete_chain.induct) (auto split: option.splits)

lemma reset_next_deletes:
  assumes "reset_next c a s = Inr s'" "0 < sl_fresh s"
  shows "sl_heap s' a = None"
proof -
  obtain fuel where "sl_fresh s = Suc fuel" using assms(2) by (cases "sl_fresh s") auto
  then show ?thesis
    using assms(1) by (auto simp: reset_next_def delete_chain_None split: option.splits)
qed

lemma remove_step_faults:
  assumes "0 < sl_fresh s"
  shows "and_then (reset_next c a s) (unlock_node a) = Inl Use_After_Free"
    and "and_then (and_then (reset_next c a s) (fix_tail c)) (unlock_node a) = Inl Use_After_Free"
proof -
  have r: "reset_next c a s = Inl e \<Longrightarrow> e = Use_After_Free" for e
    by (auto simp: reset_next_def split: option.splits)
  show "and_then (reset_next c a s) (unlock_node a) = Inl Use_After_Free"
    using r reset_next_deletes [OF _ assms] by (cases "reset_next c a s") (auto simp: unlock_node_def)
  show "and_then (and_then (reset_next c a s) (fix_tail c)) (unlock_node a) = Inl Use_After_Free"
    using r reset_next_deletes [OF _ assms]
    by (cases "reset_next c a s") (auto simp: unlock_node_def fix_tail_def split: option.splits)
qed

lemma remove_from_chain:
  assumes "sl_heap s c = Some n" "chain (sl_heap s) (ln_next n) ns" "0 < sl_fresh s"
  shows "remove_from p c s = Some (if \<exists>x\<in>snd ` set ns. p x then Inl Use_After_Free else Inr s)"
    and "remove_first_from p c s = Some (if \<exists>x\<in>snd ` set ns. p x then Inl Use_After_Free else Inr (False, s))"
  using assms
proof (induction ns arbitrary: c n)
  case Nil
  {
    case 1
    then show ?case by (simp add: remove_from.simps [of p c s] next_of_end)
  next
    case 2
    then show ?case by (simp add: remove_first_from.simps [of p c s] next_of_end)
  }
next
  case (Cons ax ns)
  {
    case 1
    obtain m where m: "sl_heap s (fst ax) = Some m" "chain (sl_heap s) (ln_next m) ns"
      using 1(2) by (cases ax) auto
    show ?case
      using remove_from.simps [of p c s] next_of_chain [OF 1(1,2)] Cons.IH(1) [OF m 1(3)]
        remove_step_faults(1) [OF 1(3), of c "fst ax"] by simp
  next
    case 2
    obtain m where m: "sl_heap s (fst ax) = Some m" "chain (sl_heap s) (ln_next m) ns"
      using 2(2) by (cases ax) auto
    show ?case
      using remove_first_from.simps [of p c s] next_of_chain [OF 2(1,2)] Cons.IH(2) [OF m 2(3)]
        remove_step_faults(2) [OF 2(3), of c "fst ax"] by simp
  }
qed

subsection \<open>Properties\<close>

text \<open>The operations that insert, and what a sequence of them builds.\<close>

datatype 'a list_op = Push_front 'a | Push_back 'a

fun push_all :: "'a list_op list \<Rightarrow> 'a safe_list \<Rightarrow> 'a safe_list result" where
  "push_all [] s = Inr s"
| "push_all (Push_front x # ops) s = and_then (SafeList_pushFront x s) (push_all ops)"
| "push_all (Push_back x # ops) s = and_then (SafeList_pushBack x s) (push_all ops)"

fun pushed :: "'a list_op list \<Rightarrow> 'a list \<Rightarrow> 'a list" where
  "pushed [] xs = xs"
| "pushed (Push_front x # ops) xs = pushed ops (x # xs)"
| "pushed (Push_back x # ops) xs = pushed ops (xs @ [x])"

lemma push_all_repr:
  assumes "repr s ns" "ns \<noteq> [] \<or> (\<forall>x ops'. ops \<noteq> Push_back x # ops')"
  shows "\<exists>s' ns'. push_all ops s = Inr s' \<and> repr s' ns' \<and> map snd ns' = pushed ops (map snd ns)"
  using assms
proof (induction ops arbitrary: s ns)
  case (Cons op ops)
  show ?case
  proof (cases op)
    case (Push_front x)
    obtain s' where s': "SafeList_pushFront x s = Inr s'" "repr s' ((sl_fresh s, x) # ns)"
      using pushFront_repr [OF Cons.prems(1)] by blast
    show ?thesis using Cons.IH [OF s'(2)] s'(1) Push_front by simp
  next
    case (Push_back x)
    then have "ns \<noteq> []" using Cons.prems(2) by blast
    then obtain s' where s': "SafeList_pushBack x s = Inr s'" "repr s' (ns @ [(sl_fresh s, x)])"
      using pushBack_repr [OF Cons.prems(1)] by blast
    show ?thesis using Cons.IH [OF s'(2)] s'(1) Push_back by simp
  qed
qed auto

text \<open>
  The list keeps what is pushed: after any insertions of which the first is at the front, no
  operation has faulted, \<open>findFirstIf\<close> returns the first element in list order with the property, and
  \<open>forEach\<close> visits exactly the elements in list order; both return.
\<close>

theorem SafeList_finds_what_was_pushed:
  assumes "\<forall>x ops'. ops \<noteq> Push_back x # ops'"
  shows "\<exists>s. push_all ops SafeList_new = Inr s \<and>
    SafeList_findFirstIf p s = Some (Inr (find p (pushed ops []))) \<and>
    SafeList_forEach f s w = Some (Inr (fold f (pushed ops []) w))"
proof -
  obtain s ns where s: "push_all ops SafeList_new = Inr s" "repr s ns" "map snd ns = pushed ops []"
    using push_all_repr [OF repr_new, of ops] assms by auto
  then obtain hn where "sl_heap s (sl_head s) = Some hn" "chain (sl_heap s) (ln_next hn) ns"
    by (auto simp: repr_def)
  then show ?thesis
    using s(1,3) find_from_chain [of "sl_heap s" "sl_head s" hn ns p]
      each_from_chain [of "sl_heap s" "sl_head s" hn ns f w]
    by (simp add: SafeList_findFirstIf_def SafeList_forEach_def)
qed

theorem SafeList_finds_what_was_pushed_witness:
  "\<exists>s. push_all [Push_front 2, Push_back 3, Push_front (1::int)] SafeList_new = Inr s \<and>
    SafeList_findFirstIf (\<lambda>x. x > 1) s = Some (Inr (Some 2)) \<and>
    SafeList_forEach (\<lambda>x xs. xs @ [x]) s [] = Some (Inr [1, 2, 3])"
  using SafeList_finds_what_was_pushed [of "[Push_front 2, Push_back 3, Push_front (1::int)]"
      "\<lambda>x. x > 1" "\<lambda>x xs. xs @ [x]" "[]"]
  by simp

text \<open>
  \<open>pushBack\<close> on a new list reads an uninitialised pointer: the constructor does not set \<open>tail_\<close>.
\<close>

theorem SafeList_pushBack_uninitialised:
  "SafeList_pushBack x SafeList_new = Inl Uninitialised_Read"
  by (simp add: SafeList_pushBack_def SafeList_new_def)

text \<open>
  (C32) Removing an element is a use after free: \<open>removeIf\<close> and \<open>removeFirstIf\<close> leave a list without a
  matching element as it is, and as soon as one element matches they delete its node (and with it
  the rest of the list) and then unlock the mutex inside the deleted node. So does the destructor
  of a list that is not empty.
\<close>

theorem SafeList_remove_uses_freed_node:
  assumes "\<forall>x ops'. ops \<noteq> Push_back x # ops'" "push_all ops SafeList_new = Inr s"
  shows "SafeList_removeIf p s = Some (if \<exists>x\<in>set (pushed ops []). p x then Inl Use_After_Free else Inr s) \<and>
    SafeList_removeFirstIf p s =
      Some (if \<exists>x\<in>set (pushed ops []). p x then Inl Use_After_Free else Inr (False, s)) \<and>
    (pushed ops [] \<noteq> [] \<longrightarrow> SafeList_destroy s = Some (Inl Use_After_Free))"
proof -
  obtain ns where s: "repr s ns" "map snd ns = pushed ops []"
    using push_all_repr [OF repr_new, of ops] assms by auto
  then obtain hn where h: "sl_heap s (sl_head s) = Some hn" "chain (sl_heap s) (ln_next hn) ns"
    by (auto simp: repr_def)
  have "0 < sl_fresh s" using s(1) h(1) by (cases "sl_fresh s") (auto simp: repr_def)
  note r = remove_from_chain [OF h this]
  have set: "snd ` set ns = set (pushed ops [])" using s(2) by (metis set_map)
  show ?thesis
    using r(1) [of p] r(2) [of p] r(1) [of "\<lambda>_. True"] unfolding set
    by (auto simp: SafeList_removeIf_def SafeList_removeFirstIf_def SafeList_destroy_def)
qed

theorem SafeList_remove_uses_freed_node_witness:
  "\<exists>s. push_all [Push_front (1::int)] SafeList_new = Inr s \<and>
    SafeList_removeIf (\<lambda>x. x = 1) s = Some (Inl Use_After_Free) \<and>
    SafeList_removeFirstIf (\<lambda>x. x = 2) s = Some (Inr (False, s))"
proof -
  obtain s where s: "push_all [Push_front (1::int)] SafeList_new = Inr s"
    by (simp add: SafeList_pushFront_def SafeList_new_def Let_def)
  show ?thesis
    using s SafeList_remove_uses_freed_node [OF _ s, of "\<lambda>x. x = 1"]
      SafeList_remove_uses_freed_node [OF _ s, of "\<lambda>x. x = 2"] by simp
qed

end
