(* ===== verification/Locked_List.thy ===== *)
theory Locked_List
  imports Safe_List "HOL-Library.Sublist"
begin

text \<open>
  \<open>SafeList\<close> of \<open>include/data_struct/SafeList.hpp\<close> under concurrency: every node has a mutex of its own, a traversal
  locks the next node before it lets go of the current one, and \<open>global_mt_\<close> guards \<open>tail_\<close>. Each lock, unlock and
  access to a node or to \<open>tail_\<close> is a step here; the nodes are those of \<open>Safe_List\<close>, where each method is one
  step. The methods are the two insertions and the two traversals that only read. The two that remove are
  left to \<open>Safe_List\<close>: they fault with the first element they take out, whatever else runs.
\<close>

text \<open>
  Positions in \<open>pushFront\<close> (\<open>F\<close>), \<open>pushBack\<close> (\<open>B\<close>), \<open>forEach\<close> (\<open>E\<close>) and \<open>findFirstIf\<close> (\<open>D\<close>), each named after
  the step that comes next, with the local variables that are live there: the value and the new node, the
  node whose mutex \<open>pushBack\<close> holds, \<open>current\<close> and \<open>next\<close>, and whether \<open>next_lock\<close> of \<open>findFirstIf\<close> still holds
  the mutex of the head. A traversal also carries its history: the contents when it locked the head, and the
  values it has seen.
\<close>

type_synonym 'a trail = "'a list \<times> 'a list"
type_synonym 'a search = "('a \<Rightarrow> bool) \<times> 'a list \<times> 'a option"

datatype 'a ll_pc =
    Outside
  | F_alloc 'a | F_lock 'a nat | F_take 'a nat | F_put 'a nat | F_check | F_global | F_tail | F_unlock_global | F_unlock
  | B_alloc 'a | B_read 'a nat | B_lock 'a nat nat | B_global 'a nat nat | B_write 'a nat nat | B_tail nat
  | B_unlock_global nat | B_unlock nat
  | E_lock | E_next nat "'a trail" | E_lock_next nat nat "'a trail" | E_release nat nat "'a trail"
  | E_visit nat "'a trail" | E_end nat "'a trail"
  | D_lock "'a \<Rightarrow> bool" | D_next "'a \<Rightarrow> bool" nat bool "'a trail" | D_lock_next "'a \<Rightarrow> bool" nat bool "'a trail"
  | D_unlock_next "'a \<Rightarrow> bool" nat bool "'a trail" | D_test "'a \<Rightarrow> bool" nat bool "'a trail"
  | D_drop "'a \<Rightarrow> bool" nat "'a trail" | D_end bool "'a search"

record 'a locked_list =
  ll_list :: "'a safe_list"
  ll_locks :: "nat \<rightharpoonup> thread_id"
  ll_global :: "thread_id option"
  ll_pcs :: "'a ll_pc list"
  ll_contents :: "'a list"
  ll_visits :: "'a trail list"
  ll_finds :: "'a search list"
  ll_fault :: "cxx_fault option"

definition ll_goto :: "thread_id \<Rightarrow> 'a ll_pc \<Rightarrow> 'a locked_list \<Rightarrow> 'a locked_list" where
  "ll_goto t pc s = s\<lparr>ll_pcs := (ll_pcs s)[t := pc]\<rparr>"

definition ll_fail :: "cxx_fault \<Rightarrow> 'a locked_list \<Rightarrow> 'a locked_list" where
  "ll_fail f s = s\<lparr>ll_fault := Some f\<rparr>"

abbreviation ll_head :: "'a locked_list \<Rightarrow> nat" where "ll_head s \<equiv> sl_head (ll_list s)"
abbreviation ll_heap :: "'a locked_list \<Rightarrow> 'a heap" where "ll_heap s \<equiv> sl_heap (ll_list s)"
abbreviation ll_fresh :: "'a locked_list \<Rightarrow> nat" where "ll_fresh s \<equiv> sl_fresh (ll_list s)"
abbreviation ll_tail :: "'a locked_list \<Rightarrow> nat option" where "ll_tail s \<equiv> sl_tail (ll_list s)"

text \<open>\<open>ll_at a s f\<close> is an access to node \<open>a\<close>, \<open>ll_lock t a pc s\<close> the locking of its mutex, which waits for the owner.\<close>

definition ll_at :: "nat \<Rightarrow> 'a locked_list \<Rightarrow> ('a list_node \<Rightarrow> 'a locked_list) \<Rightarrow> 'a locked_list" where
  "ll_at a s f = (case ll_heap s a of None \<Rightarrow> ll_fail Use_After_Free s | Some nd \<Rightarrow> f nd)"

definition ll_lock :: "thread_id \<Rightarrow> nat \<Rightarrow> 'a ll_pc \<Rightarrow> 'a locked_list \<Rightarrow> 'a locked_list option" where
  "ll_lock t a pc s =
     (if ll_heap s a = None then Some (ll_fail Use_After_Free s)
      else if ll_locks s a = None then Some (ll_goto t pc (s\<lparr>ll_locks := (ll_locks s)(a \<mapsto> t)\<rparr>))
      else None)"

definition ll_release :: "nat \<Rightarrow> 'a locked_list \<Rightarrow> 'a locked_list" where
  "ll_release a s = s\<lparr>ll_locks := (ll_locks s)(a := None)\<rparr>"

definition ll_lock_global :: "thread_id \<Rightarrow> 'a ll_pc \<Rightarrow> 'a locked_list \<Rightarrow> 'a locked_list option" where
  "ll_lock_global t pc s =
     (if ll_global s = None then Some (ll_goto t pc (s\<lparr>ll_global := Some t\<rparr>)) else None)"

definition ll_alloc :: "'a \<Rightarrow> 'a locked_list \<Rightarrow> 'a locked_list" where
  "ll_alloc x s =
     s\<lparr>ll_list := (ll_list s)\<lparr>sl_heap := (ll_heap s)(ll_fresh s \<mapsto> \<lparr>ln_data = Some x, ln_next = None\<rparr>),
                              sl_fresh := Suc (ll_fresh s)\<rparr>\<rparr>"

definition ll_set_heap :: "'a heap \<Rightarrow> 'a locked_list \<Rightarrow> 'a locked_list" where
  "ll_set_heap h s = s\<lparr>ll_list := (ll_list s)\<lparr>sl_heap := h\<rparr>\<rparr>"

definition ll_set_tail :: "nat option \<Rightarrow> 'a locked_list \<Rightarrow> 'a locked_list" where
  "ll_set_tail p s = s\<lparr>ll_list := (ll_list s)\<lparr>sl_tail := p\<rparr>\<rparr>"

text \<open>\<open>a->next_ = std::move(new_node)\<close>: what \<open>a\<close> owned before is deleted.\<close>

definition ll_hang :: "nat \<Rightarrow> nat \<Rightarrow> 'a list_node \<Rightarrow> 'a locked_list \<Rightarrow> 'a locked_list" where
  "ll_hang a n nd s =
     ll_set_heap ((delete_chain (ll_fresh s) (ln_next nd) (ll_heap s))(a \<mapsto> nd\<lparr>ln_next := Some n\<rparr>)) s"

fun front_turn :: "thread_id \<Rightarrow> 'a ll_pc \<Rightarrow> 'a locked_list \<Rightarrow> 'a locked_list option" where
  "front_turn t (F_alloc x) s = Some (ll_goto t (F_lock x (ll_fresh s)) (ll_alloc x s))"
| "front_turn t (F_lock x n) s = ll_lock t (ll_head s) (F_take x n) s"
| "front_turn t (F_take x n) s =
     Some (ll_at (ll_head s) s (\<lambda>hn. ll_at n s (\<lambda>nd.
       ll_goto t (F_put x n) (ll_set_heap
         ((ll_heap s)(n \<mapsto> nd\<lparr>ln_next := ln_next hn\<rparr>, ll_head s \<mapsto> hn\<lparr>ln_next := None\<rparr>)) s))))"
| "front_turn t (F_put x n) s =
     Some (ll_at (ll_head s) s (\<lambda>hn.
       ll_goto t F_check (ll_hang (ll_head s) n hn (s\<lparr>ll_contents := x # ll_contents s\<rparr>))))"
| "front_turn t F_check s =
     Some (ll_at (ll_head s) s (\<lambda>hn.
       case ln_next hn of None \<Rightarrow> ll_fail Null_Dereference s
       | Some a \<Rightarrow> ll_at a s (\<lambda>nd. ll_goto t (if ln_next nd = None then F_global else F_unlock) s)))"
| "front_turn t F_global s = ll_lock_global t F_tail s"
| "front_turn t F_tail s =
     Some (ll_at (ll_head s) s (\<lambda>hn. ll_goto t F_unlock_global (ll_set_tail (ln_next hn) s)))"
| "front_turn t F_unlock_global s = Some (ll_goto t F_unlock (s\<lparr>ll_global := None\<rparr>))"
| "front_turn t F_unlock s = Some (ll_goto t Outside (ll_release (ll_head s) s))"
| "front_turn t _ s = None"

fun back_turn :: "thread_id \<Rightarrow> 'a ll_pc \<Rightarrow> 'a locked_list \<Rightarrow> 'a locked_list option" where
  "back_turn t (B_alloc x) s = Some (ll_goto t (B_read x (ll_fresh s)) (ll_alloc x s))"
| "back_turn t (B_read x n) s =
     Some (case ll_tail s of None \<Rightarrow> ll_fail Uninitialised_Read s | Some a \<Rightarrow> ll_goto t (B_lock x n a) s)"
| "back_turn t (B_lock x n a) s = ll_lock t a (B_global x n a) s"
| "back_turn t (B_global x n a) s = ll_lock_global t (B_write x n a) s"
| "back_turn t (B_write x n a) s =
     Some (case ll_tail s of None \<Rightarrow> ll_fail Uninitialised_Read s
           | Some d \<Rightarrow> ll_at d s (\<lambda>nd.
               ll_goto t (B_tail a) (ll_hang d n nd (s\<lparr>ll_contents := ll_contents s @ [x]\<rparr>))))"
| "back_turn t (B_tail a) s =
     Some (case ll_tail s of None \<Rightarrow> ll_fail Uninitialised_Read s
           | Some d \<Rightarrow> ll_at d s (\<lambda>nd. ll_goto t (B_unlock_global a) (ll_set_tail (ln_next nd) s)))"
| "back_turn t (B_unlock_global a) s = Some (ll_goto t (B_unlock a) (s\<lparr>ll_global := None\<rparr>))"
| "back_turn t (B_unlock a) s = Some (ll_goto t Outside (ll_release a s))"
| "back_turn t _ s = None"

text \<open>The value of a node, as a traversal reads it through the \<open>shared_ptr\<close>.\<close>

definition ll_data :: "nat \<Rightarrow> 'a locked_list \<Rightarrow> ('a \<Rightarrow> 'a locked_list) \<Rightarrow> 'a locked_list" where
  "ll_data a s f =
     ll_at a s (\<lambda>nd. case ln_data nd of None \<Rightarrow> ll_fail Null_Dereference s | Some x \<Rightarrow> f x)"

fun each_turn :: "thread_id \<Rightarrow> 'a ll_pc \<Rightarrow> 'a locked_list \<Rightarrow> 'a locked_list option" where
  "each_turn t E_lock s = ll_lock t (ll_head s) (E_next (ll_head s) (ll_contents s, [])) s"
| "each_turn t (E_next c tr) s =
     Some (ll_at c s (\<lambda>nd.
       ll_goto t (case ln_next nd of None \<Rightarrow> E_end c tr | Some a \<Rightarrow> E_lock_next c a tr) s))"
| "each_turn t (E_lock_next c a tr) s = ll_lock t a (E_release c a tr) s"
| "each_turn t (E_release c a tr) s = Some (ll_goto t (E_visit a tr) (ll_release c s))"
| "each_turn t (E_visit a tr) s = Some (ll_data a s (\<lambda>x. ll_goto t (E_next a (fst tr, snd tr @ [x])) s))"
| "each_turn t (E_end c tr) s =
     Some (ll_goto t Outside (ll_release c (s\<lparr>ll_visits := tr # ll_visits s\<rparr>)))"
| "each_turn t _ s = None"

text \<open>
  \<open>findFirstIf\<close> unlocks the next node as soon as it has locked it, and \<open>lock = std::move(next_lock)\<close> hands the mutex of
  the head to a variable that ends with the round: from the second round on it holds no mutex.
\<close>

fun find_turn :: "thread_id \<Rightarrow> 'a ll_pc \<Rightarrow> 'a locked_list \<Rightarrow> 'a locked_list option" where
  "find_turn t (D_lock p) s = ll_lock t (ll_head s) (D_next p (ll_head s) True (ll_contents s, [])) s"
| "find_turn t (D_next p c h tr) s =
     Some (ll_at c s (\<lambda>nd.
       ll_goto t (case ln_next nd of None \<Rightarrow> D_end h (p, fst tr, None) | Some a \<Rightarrow> D_lock_next p a h tr) s))"
| "find_turn t (D_lock_next p a h tr) s = ll_lock t a (D_unlock_next p a h tr) s"
| "find_turn t (D_unlock_next p a h tr) s = Some (ll_goto t (D_test p a h tr) (ll_release a s))"
| "find_turn t (D_test p a h tr) s =
     Some (ll_data a s (\<lambda>x.
       ll_goto t (if p x then D_end h (p, fst tr, Some x)
                  else if h then D_drop p a (fst tr, snd tr @ [x])
                  else D_next p a False (fst tr, snd tr @ [x])) s))"
| "find_turn t (D_drop p a tr) s = Some (ll_goto t (D_next p a False tr) (ll_release (ll_head s) s))"
| "find_turn t (D_end h r) s =
     Some (ll_goto t Outside ((if h then ll_release (ll_head s) else id) (s\<lparr>ll_finds := r # ll_finds s\<rparr>)))"
| "find_turn t _ s = None"

definition or_else :: "'b option \<Rightarrow> 'b option \<Rightarrow> 'b option" where
  "or_else a b = (case a of None \<Rightarrow> b | Some v \<Rightarrow> Some v)"

definition ll_turn :: "thread_id \<Rightarrow> 'a locked_list \<Rightarrow> 'a locked_list option" where
  "ll_turn t s =
     (let pc = ll_pcs s ! t in
      or_else (front_turn t pc s) (or_else (back_turn t pc s) (or_else (each_turn t pc s) (find_turn t pc s))))"

datatype 'a ll_label =
    Ll_pushFront thread_id 'a | Ll_pushBack thread_id 'a | Ll_forEach thread_id | Ll_find thread_id "'a \<Rightarrow> bool"
  | Ll_run thread_id

definition ll_call :: "thread_id \<Rightarrow> 'a ll_pc \<Rightarrow> 'a locked_list \<Rightarrow> 'a locked_list option" where
  "ll_call t pc s =
     (if ll_fault s = None \<and> t < length (ll_pcs s)
      then (case ll_pcs s ! t of Outside \<Rightarrow> Some (ll_goto t pc s) | _ \<Rightarrow> None)
      else None)"

fun ll_step :: "'a ll_label \<Rightarrow> 'a locked_list \<Rightarrow> 'a locked_list option" where
  "ll_step (Ll_pushFront t x) s = ll_call t (F_alloc x) s"
| "ll_step (Ll_pushBack t x) s = ll_call t (B_alloc x) s"
| "ll_step (Ll_forEach t) s = ll_call t E_lock s"
| "ll_step (Ll_find t p) s = ll_call t (D_lock p) s"
| "ll_step (Ll_run t) s = (if ll_fault s = None \<and> t < length (ll_pcs s) then ll_turn t s else None)"

text \<open>The threads start on a list that holds \<open>xs\<close>.\<close>

definition ll_start :: "nat \<Rightarrow> 'a safe_list \<Rightarrow> 'a list \<Rightarrow> 'a locked_list" where
  "ll_start threads l xs =
     \<lparr>ll_list = l, ll_locks = Map.empty, ll_global = None, ll_pcs = replicate threads Outside,
      ll_contents = xs, ll_visits = [], ll_finds = [], ll_fault = None\<rparr>"

subsection \<open>The invariant\<close>

text \<open>The mutexes a thread holds at a position; \<open>h0\<close> is the head.\<close>

fun held :: "nat \<Rightarrow> 'a ll_pc \<Rightarrow> nat set" where
  "held h0 (F_take x n) = {h0}" | "held h0 (F_put x n) = {h0}" | "held h0 F_check = {h0}"
| "held h0 F_global = {h0}" | "held h0 F_tail = {h0}" | "held h0 F_unlock_global = {h0}" | "held h0 F_unlock = {h0}"
| "held h0 (B_global x n a) = {a}" | "held h0 (B_write x n a) = {a}" | "held h0 (B_tail a) = {a}"
| "held h0 (B_unlock_global a) = {a}" | "held h0 (B_unlock a) = {a}"
| "held h0 (E_next c tr) = {c}" | "held h0 (E_lock_next c a tr) = {c}" | "held h0 (E_release c a tr) = {c, a}"
| "held h0 (E_visit a tr) = {a}" | "held h0 (E_end c tr) = {c}"
| "held h0 (D_next p c h tr) = (if h then {h0} else {})" | "held h0 (D_lock_next p a h tr) = (if h then {h0} else {})"
| "held h0 (D_unlock_next p a h tr) = insert a (if h then {h0} else {})"
| "held h0 (D_test p a h tr) = (if h then {h0} else {})" | "held h0 (D_drop p a tr) = {h0}"
| "held h0 (D_end h r) = (if h then {h0} else {})"
| "held h0 _ = {}"

fun holds_global :: "'a ll_pc \<Rightarrow> bool" where
  "holds_global F_tail = True" | "holds_global F_unlock_global = True" | "holds_global (B_write x n a) = True"
| "holds_global (B_tail a) = True" | "holds_global (B_unlock_global a) = True" | "holds_global _ = False"

definition locks_ok :: "nat \<Rightarrow> (nat \<rightharpoonup> thread_id) \<Rightarrow> 'a ll_pc list \<Rightarrow> bool" where
  "locks_ok h0 locks pcs \<longleftrightarrow> (\<forall>a. lock_inv (\<lambda>pc. a \<in> held h0 pc) (locks a) pcs)"

text \<open>Where the list is being changed: the head has given away its chain, or a new last node is not yet \<open>tail_\<close>.\<close>

fun is_F_put :: "'a ll_pc \<Rightarrow> bool" where
  "is_F_put (F_put x n) = True" | "is_F_put _ = False"

fun is_B_tail :: "'a ll_pc \<Rightarrow> bool" where
  "is_B_tail (B_tail a) = True" | "is_B_tail _ = False"

definition some_at :: "('a ll_pc \<Rightarrow> bool) \<Rightarrow> 'a ll_pc list \<Rightarrow> bool" where
  "some_at P pcs \<longleftrightarrow> (\<exists>t<length pcs. P (pcs ! t))"

definition head_ok :: "bool \<Rightarrow> 'a list_node option \<Rightarrow> (nat \<times> 'a) list \<Rightarrow> bool" where
  "head_ok taken nd ns \<longleftrightarrow> map_option ln_next nd = Some (if taken then None else Some (fst (hd ns)))"

definition tail_ok :: "bool \<Rightarrow> nat option \<Rightarrow> (nat \<times> 'a) list \<Rightarrow> bool" where
  "tail_ok behind p ns \<longleftrightarrow> (let ms = if behind then butlast ns else ns in ms \<noteq> [] \<and> p = Some (fst (last ms)))"

text \<open>The new node that only the thread knows, and what it holds.\<close>

fun owned :: "(nat \<times> 'a) list \<Rightarrow> 'a ll_pc \<Rightarrow> (nat \<times> 'a list_node) option" where
  "owned ns (F_lock x n) = Some (n, \<lparr>ln_data = Some x, ln_next = None\<rparr>)"
| "owned ns (F_take x n) = Some (n, \<lparr>ln_data = Some x, ln_next = None\<rparr>)"
| "owned ns (F_put x n) = Some (n, \<lparr>ln_data = Some x, ln_next = Some (fst (hd ns))\<rparr>)"
| "owned ns (B_read x n) = Some (n, \<lparr>ln_data = Some x, ln_next = None\<rparr>)"
| "owned ns (B_lock x n a) = Some (n, \<lparr>ln_data = Some x, ln_next = None\<rparr>)"
| "owned ns (B_global x n a) = Some (n, \<lparr>ln_data = Some x, ln_next = None\<rparr>)"
| "owned ns (B_write x n a) = Some (n, \<lparr>ln_data = Some x, ln_next = None\<rparr>)"
| "owned ns _ = None"

definition owned_ok :: "'a heap \<Rightarrow> nat \<Rightarrow> nat set \<Rightarrow> (nat \<times> 'a) list \<Rightarrow> 'a ll_pc list \<Rightarrow> bool" where
  "owned_ok h fresh shared ns pcs \<longleftrightarrow>
     (\<forall>t<length pcs. \<forall>n nd. owned ns (pcs ! t) = Some (n, nd) \<longrightarrow> h n = Some nd \<and> n < fresh \<and> n \<notin> shared) \<and>
     (\<forall>t<length pcs. \<forall>u<length pcs. \<forall>n nd m md. t \<noteq> u \<longrightarrow>
        owned ns (pcs ! t) = Some (n, nd) \<longrightarrow> owned ns (pcs ! u) = Some (m, md) \<longrightarrow> n \<noteq> m)"

text \<open>
  Where a traversal is: it has seen the values \<open>vs\<close> of the nodes up to \<open>c\<close>, and from the first of them on the
  list still begins with what it held at the start of the traversal.
\<close>

definition walk :: "nat \<Rightarrow> (nat \<times> 'a) list \<Rightarrow> nat \<Rightarrow> 'a list \<Rightarrow> 'a list \<Rightarrow> bool" where
  "walk h0 ns c xs vs \<longleftrightarrow>
     (\<exists>pre mid post. ns = pre @ mid @ post \<and> map snd mid = vs \<and> prefix xs (map snd (mid @ post)) \<and>
        (if mid = [] then c = h0 \<and> pre = [] else c = fst (last mid)))"

definition walk_next :: "nat \<Rightarrow> (nat \<times> 'a) list \<Rightarrow> nat \<Rightarrow> 'a list \<Rightarrow> 'a list \<Rightarrow> bool" where
  "walk_next h0 ns a xs vs \<longleftrightarrow> (\<exists>x. walk h0 ns a xs (vs @ [x]))"

definition adjacent :: "nat \<Rightarrow> (nat \<times> 'a) list \<Rightarrow> nat \<Rightarrow> nat \<Rightarrow> bool" where
  "adjacent h0 ns c a \<longleftrightarrow> (\<exists>pre post. h0 # map fst ns = pre @ c # a # post)"

definition visit_ok :: "'a list \<Rightarrow> 'a trail \<Rightarrow> bool" where
  "visit_ok ys tr \<longleftrightarrow> prefix (fst tr) (snd tr) \<and> sublist (snd tr) ys"

definition search_ok :: "'a list \<Rightarrow> 'a search \<Rightarrow> bool" where
  "search_ok ys r \<longleftrightarrow>
     (case r of (p, xs, found) \<Rightarrow> \<exists>zs. sublist (xs @ zs) ys \<and> found = find p (xs @ zs))"

text \<open>What holds at each position, whatever the other threads do.\<close>

fun pc_ok :: "nat \<Rightarrow> (nat \<times> 'a) list \<Rightarrow> 'a ll_pc \<Rightarrow> bool" where
  "pc_ok h0 ns F_check \<longleftrightarrow> 2 \<le> length ns"
| "pc_ok h0 ns F_global \<longleftrightarrow> False" | "pc_ok h0 ns F_tail \<longleftrightarrow> False" | "pc_ok h0 ns F_unlock_global \<longleftrightarrow> False"
| "pc_ok h0 ns (B_lock x n a) \<longleftrightarrow> a \<in> fst ` set ns" | "pc_ok h0 ns (B_global x n a) \<longleftrightarrow> a \<in> fst ` set ns"
| "pc_ok h0 ns (B_write x n a) \<longleftrightarrow> a \<in> fst ` set ns" | "pc_ok h0 ns (B_tail a) \<longleftrightarrow> a \<in> fst ` set ns"
| "pc_ok h0 ns (B_unlock_global a) \<longleftrightarrow> a \<in> fst ` set ns" | "pc_ok h0 ns (B_unlock a) \<longleftrightarrow> a \<in> fst ` set ns"
| "pc_ok h0 ns (E_next c tr) \<longleftrightarrow> walk h0 ns c (fst tr) (snd tr)"
| "pc_ok h0 ns (E_lock_next c a tr) \<longleftrightarrow> adjacent h0 ns c a \<and> walk_next h0 ns a (fst tr) (snd tr)"
| "pc_ok h0 ns (E_release c a tr) \<longleftrightarrow> adjacent h0 ns c a \<and> walk_next h0 ns a (fst tr) (snd tr)"
| "pc_ok h0 ns (E_visit a tr) \<longleftrightarrow> walk_next h0 ns a (fst tr) (snd tr)"
| "pc_ok h0 ns (E_end c tr) \<longleftrightarrow> c \<in> insert h0 (fst ` set ns) \<and> visit_ok (map snd ns) tr"
| "pc_ok h0 ns (D_next p c h tr) \<longleftrightarrow>
     walk h0 ns c (fst tr) (snd tr) \<and> (h \<or> snd tr \<noteq> []) \<and> (\<forall>x\<in>set (snd tr). \<not> p x)"
| "pc_ok h0 ns (D_lock_next p a h tr) \<longleftrightarrow> walk_next h0 ns a (fst tr) (snd tr) \<and> (\<forall>x\<in>set (snd tr). \<not> p x)"
| "pc_ok h0 ns (D_unlock_next p a h tr) \<longleftrightarrow> walk_next h0 ns a (fst tr) (snd tr) \<and> (\<forall>x\<in>set (snd tr). \<not> p x)"
| "pc_ok h0 ns (D_test p a h tr) \<longleftrightarrow> walk_next h0 ns a (fst tr) (snd tr) \<and> (\<forall>x\<in>set (snd tr). \<not> p x)"
| "pc_ok h0 ns (D_drop p a tr) \<longleftrightarrow>
     walk h0 ns a (fst tr) (snd tr) \<and> snd tr \<noteq> [] \<and> (\<forall>x\<in>set (snd tr). \<not> p x)"
| "pc_ok h0 ns (D_end h r) \<longleftrightarrow> search_ok (map snd ns) r"
| "pc_ok h0 ns _ \<longleftrightarrow> True"

definition list_ok :: "(nat \<times> 'a) list \<Rightarrow> 'a locked_list \<Rightarrow> bool" where
  "list_ok ns s \<longleftrightarrow>
     ll_contents s = map snd ns \<and> ns \<noteq> [] \<and> chain (ll_heap s) (Some (fst (hd ns))) ns \<and>
     distinct (ll_head s # map fst ns) \<and> insert (ll_head s) (fst ` set ns) \<subseteq> {..<ll_fresh s} \<and>
     head_ok (some_at is_F_put (ll_pcs s)) (ll_heap s (ll_head s)) ns \<and>
     tail_ok (some_at is_B_tail (ll_pcs s)) (ll_tail s) ns"

definition threads_ok :: "(nat \<times> 'a) list \<Rightarrow> 'a locked_list \<Rightarrow> bool" where
  "threads_ok ns s \<longleftrightarrow>
     locks_ok (ll_head s) (ll_locks s) (ll_pcs s) \<and> lock_inv holds_global (ll_global s) (ll_pcs s) \<and>
     owned_ok (ll_heap s) (ll_fresh s) (insert (ll_head s) (fst ` set ns)) ns (ll_pcs s) \<and>
     (\<forall>t<length (ll_pcs s). pc_ok (ll_head s) ns (ll_pcs s ! t))"

definition results_ok :: "'a locked_list \<Rightarrow> bool" where
  "results_ok s \<longleftrightarrow>
     (\<forall>tr\<in>set (ll_visits s). visit_ok (ll_contents s) tr) \<and> (\<forall>r\<in>set (ll_finds s). search_ok (ll_contents s) r)"

definition ll_body :: "(nat \<times> 'a) list \<Rightarrow> 'a locked_list \<Rightarrow> bool" where
  "ll_body ns s \<longleftrightarrow> ll_fault s = None \<and> list_ok ns s \<and> threads_ok ns s \<and> results_ok s"

definition ll_inv :: "'a locked_list \<Rightarrow> bool" where
  "ll_inv s \<longleftrightarrow> (\<exists>ns. ll_body ns s)"

text \<open>A thread that moves on, and what this leaves of the locks and of the new nodes.\<close>

lemma some_at_same: "t < length pcs \<Longrightarrow> P pc = P (pcs ! t) \<Longrightarrow> some_at P (pcs[t := pc]) = some_at P pcs"
  by (auto simp: some_at_def nth_list_update)

lemma locks_ok_same:
  "t < length pcs \<Longrightarrow> held h0 pc = held h0 (pcs ! t) \<Longrightarrow> locks_ok h0 L (pcs[t := pc]) = locks_ok h0 L pcs"
  by (simp add: locks_ok_def lock_inv_same)

lemma locks_ok_take:
  assumes "locks_ok h0 L pcs" "t < length pcs" "L a = None" "held h0 pc = insert a (held h0 (pcs ! t))"
  shows "locks_ok h0 (L(a \<mapsto> t)) (pcs[t := pc])"
  using assms lock_inv_take [of "\<lambda>pc. a \<in> held h0 pc" pcs t pc]
  by (auto simp: locks_ok_def lock_inv_same dest: spec [of _ a])

lemma locks_ok_drop:
  assumes "locks_ok h0 L pcs" "t < length pcs" "a \<in> held h0 (pcs ! t)" "held h0 pc = held h0 (pcs ! t) - {a}"
  shows "locks_ok h0 (L(a := None)) (pcs[t := pc])"
  using assms lock_inv_drop [of "\<lambda>pc. a \<in> held h0 pc" "L a" pcs t pc]
  by (auto simp: locks_ok_def lock_inv_same)

lemma locks_ok_owner: "locks_ok h0 L pcs \<Longrightarrow> t < length pcs \<Longrightarrow> a \<in> held h0 (pcs ! t) \<Longrightarrow> L a = Some t"
  by (auto simp: locks_ok_def lock_inv_def)

lemma locks_ok_holds: "locks_ok h0 L pcs \<Longrightarrow> L a = Some t \<Longrightarrow> t < length pcs \<and> a \<in> held h0 (pcs ! t)"
  by (auto simp: locks_ok_def lock_inv_def)

lemma locks_ok_excl:
  "locks_ok h0 L pcs \<Longrightarrow> t < length pcs \<Longrightarrow> u < length pcs \<Longrightarrow> a \<in> held h0 (pcs ! t) \<Longrightarrow> a \<in> held h0 (pcs ! u) \<Longrightarrow> t = u"
  by (metis locks_ok_owner option.inject)

lemma owned_ok_same:
  assumes "t < length pcs" "owned ns pc = owned ns (pcs ! t)"
  shows "owned_ok h f A ns (pcs[t := pc]) = owned_ok h f A ns pcs"
proof -
  have "owned ns (pcs[t := pc] ! u) = owned ns (pcs ! u)" if "u < length pcs" for u
    using assms that by (simp add: nth_list_update)
  then show ?thesis by (simp add: owned_ok_def)
qed

lemma owned_ok_node:
  "owned_ok h f A ns pcs \<Longrightarrow> t < length pcs \<Longrightarrow> owned ns (pcs ! t) = Some (n, nd) \<Longrightarrow> h n = Some nd \<and> n < f \<and> n \<notin> A"
  by (simp add: owned_ok_def)

lemma owned_ok_distinct:
  "owned_ok h f A ns pcs \<Longrightarrow> t < length pcs \<Longrightarrow> u < length pcs \<Longrightarrow> t \<noteq> u \<Longrightarrow>
     owned ns (pcs ! t) = Some (n, nd) \<Longrightarrow> owned ns (pcs ! u) \<noteq> Some (n, md)"
  unfolding owned_ok_def by blast

lemmas ll_body_defs = ll_body_def list_ok_def threads_ok_def results_ok_def

text \<open>A step that leaves the nodes and \<open>tail_\<close> as they are.\<close>

lemma move_keeps:
  assumes "ll_body ns s" "t < length (ll_pcs s)" "owned ns pc = owned ns (ll_pcs s ! t)"
    and "is_F_put pc = is_F_put (ll_pcs s ! t)" "is_B_tail pc = is_B_tail (ll_pcs s ! t)" "pc_ok (ll_head s) ns pc"
    and "locks_ok (ll_head s) L ((ll_pcs s)[t := pc])" "lock_inv holds_global G ((ll_pcs s)[t := pc])"
    and "\<forall>tr\<in>set V. visit_ok (map snd ns) tr" "\<forall>r\<in>set F. search_ok (map snd ns) r"
  shows "ll_body ns (ll_goto t pc (s\<lparr>ll_locks := L, ll_global := G, ll_visits := V, ll_finds := F\<rparr>))"
  using assms
  by (simp add: ll_body_defs ll_goto_def some_at_same owned_ok_same nth_list_update)

lemma body_locks:
  assumes "ll_body ns s"
  shows "locks_ok (ll_head s) (ll_locks s) (ll_pcs s)" "lock_inv holds_global (ll_global s) (ll_pcs s)"
  using assms by (simp_all add: ll_body_def threads_ok_def)

lemma body_results:
  assumes "ll_body ns s"
  shows "\<forall>tr\<in>set (ll_visits s). visit_ok (map snd ns) tr" "\<forall>r\<in>set (ll_finds s). search_ok (map snd ns) r"
  using assms unfolding ll_body_defs by metis+

abbreviation quiet :: "(nat \<times> 'a) list \<Rightarrow> 'a ll_pc \<Rightarrow> 'a ll_pc \<Rightarrow> bool" where
  "quiet ns pc pc' \<equiv> owned ns pc' = owned ns pc \<and> is_F_put pc' = is_F_put pc \<and> is_B_tail pc' = is_B_tail pc"

lemma goto_keeps:
  assumes "ll_body ns s" "t < length (ll_pcs s)" "quiet ns (ll_pcs s ! t) pc" "pc_ok (ll_head s) ns pc"
    and "held (ll_head s) pc = held (ll_head s) (ll_pcs s ! t)" "holds_global pc = holds_global (ll_pcs s ! t)"
  shows "ll_body ns (ll_goto t pc s)"
  using move_keeps [of ns s t pc "ll_locks s" "ll_global s" "ll_visits s" "ll_finds s"] assms body_results [OF assms(1)]
    body_locks [OF assms(1)]
  by (simp add: locks_ok_same lock_inv_same)

lemma lock_keeps:
  assumes "ll_body ns s" "t < length (ll_pcs s)" "quiet ns (ll_pcs s ! t) pc" "pc_ok (ll_head s) ns pc"
    and "held (ll_head s) pc = insert a (held (ll_head s) (ll_pcs s ! t))" "holds_global pc = holds_global (ll_pcs s ! t)"
    and "ll_lock t a pc s = Some s'" "ll_heap s a \<noteq> None"
  shows "ll_body ns s'"
proof -
  have "ll_locks s a = None" "s' = ll_goto t pc (s\<lparr>ll_locks := (ll_locks s)(a \<mapsto> t)\<rparr>)"
    using assms(7,8) by (auto simp: ll_lock_def split: if_splits)
  then show ?thesis
    using move_keeps [of ns s t pc "(ll_locks s)(a \<mapsto> t)" "ll_global s" "ll_visits s" "ll_finds s"] assms(1-6)
      body_results [OF assms(1)] body_locks [OF assms(1)] locks_ok_take [of "ll_head s" "ll_locks s" "ll_pcs s" t a pc]
    by (simp add: lock_inv_same)
qed

lemma release_swap:
  "ll_release a (s\<lparr>ll_visits := V, ll_finds := F\<rparr>) = s\<lparr>ll_locks := (ll_locks s)(a := None), ll_visits := V, ll_finds := F\<rparr>"
  by (cases s) (simp add: ll_release_def)

lemma release_keeps:
  assumes "ll_body ns s" "t < length (ll_pcs s)" "quiet ns (ll_pcs s ! t) pc" "pc_ok (ll_head s) ns pc"
    and "a \<in> held (ll_head s) (ll_pcs s ! t)" "held (ll_head s) pc = held (ll_head s) (ll_pcs s ! t) - {a}"
    and "holds_global pc = holds_global (ll_pcs s ! t)"
    and "\<forall>tr\<in>set V. visit_ok (map snd ns) tr" "\<forall>r\<in>set F. search_ok (map snd ns) r"
  shows "ll_body ns (ll_goto t pc (ll_release a (s\<lparr>ll_visits := V, ll_finds := F\<rparr>)))"
  using move_keeps [of ns s t pc "(ll_locks s)(a := None)" "ll_global s" V F] assms
    body_locks [OF assms(1)] locks_ok_drop [of "ll_head s" "ll_locks s" "ll_pcs s" t a pc]
  by (simp add: lock_inv_same release_swap)

lemma global_keeps:
  assumes "ll_body ns s" "t < length (ll_pcs s)" "quiet ns (ll_pcs s ! t) pc" "pc_ok (ll_head s) ns pc"
    and "held (ll_head s) pc = held (ll_head s) (ll_pcs s ! t)"
  shows "ll_lock_global t pc s = Some s' \<Longrightarrow> holds_global pc \<Longrightarrow> ll_body ns s'"
    and "holds_global (ll_pcs s ! t) \<Longrightarrow> \<not> holds_global pc \<Longrightarrow> ll_body ns (ll_goto t pc (s\<lparr>ll_global := None\<rparr>))"
proof -
  note move = move_keeps [of ns s t pc "ll_locks s" _ "ll_visits s" "ll_finds s"]
  note g = body_locks [OF assms(1)] body_results [OF assms(1)]
  show "ll_body ns s'" if "ll_lock_global t pc s = Some s'" "holds_global pc"
  proof -
    have "ll_global s = None" "s' = ll_goto t pc (s\<lparr>ll_global := Some t\<rparr>)"
      using that(1) by (auto simp: ll_lock_global_def split: if_splits)
    then show ?thesis
      using move [of "Some t"] that(2) assms g lock_inv_take [of holds_global "ll_pcs s" t pc]
      by (simp add: locks_ok_same)
  qed
  show "ll_body ns (ll_goto t pc (s\<lparr>ll_global := None\<rparr>))" if "holds_global (ll_pcs s ! t)" "\<not> holds_global pc"
    using move [of None] that assms g lock_inv_drop [OF g(2), of t pc]
    by (simp add: locks_ok_same)
qed

subsection \<open>Traversals\<close>

lemma chain_split:
  assumes "chain h p (as @ (c, x) # bs)"
  shows "\<exists>nd. h c = Some nd \<and> ln_data nd = Some x \<and> ln_next nd = (if bs = [] then None else Some (fst (hd bs)))"
  using assms
proof (induction as arbitrary: p)
  case Nil
  then show ?case by (cases bs) auto
next
  case (Cons a as)
  then show ?case by (cases a) auto
qed

lemma walk_start: "walk h0 ns h0 (map snd ns) []"
  unfolding walk_def by (rule exI [of _ "[]"], rule exI [of _ "[]"]) simp

lemma walk_nonempty:
  assumes "walk h0 ns c xs vs" "vs \<noteq> []"
  obtains pre mid x post where "ns = pre @ mid @ (c, x) # post" "vs = map snd mid @ [x]"
    "prefix xs (map snd (mid @ (c, x) # post))"
proof -
  obtain pre mid post where w: "ns = pre @ mid @ post" "map snd mid = vs" "prefix xs (map snd (mid @ post))"
      "if mid = [] then c = h0 \<and> pre = [] else c = fst (last mid)"
    using assms(1) unfolding walk_def by blast
  then obtain m x where "mid = m @ [(c, x)]" using assms(2) by (cases mid rule: rev_cases) auto
  with w(1-3) show thesis using that [of pre m x post] by simp
qed

lemma walk_empty: "walk h0 ns c xs [] \<Longrightarrow> c = h0 \<and> prefix xs (map snd ns)"
  by (auto simp: walk_def)

lemma walk_nonemptyI: "prefix xs (map snd (mid @ (c, x) # post)) \<Longrightarrow> walk h0 (pre @ mid @ (c, x) # post) c xs (map snd mid @ [x])"
  unfolding walk_def by (rule exI [of _ pre], rule exI [of _ "mid @ [(c, x)]"], rule exI [of _ post]) simp

lemma walk_mem: "walk h0 ns c xs vs \<Longrightarrow> vs \<noteq> [] \<Longrightarrow> c \<in> fst ` set ns"
  by (erule walk_nonempty) auto

lemma walk_mem_head: "walk h0 ns c xs vs \<Longrightarrow> c \<in> insert h0 (fst ` set ns)"
  by (cases "vs = []") (auto dest: walk_empty walk_mem)

lemma walk_next_mem: "walk_next h0 ns a xs vs \<Longrightarrow> a \<in> fst ` set ns"
  by (auto simp: walk_next_def dest: walk_mem)

text \<open>One round of a traversal: the end of the list, or the next node and its value.\<close>

lemma walk_round:
  assumes "walk h0 ns c xs vs" "chain h (Some (fst (hd ns))) ns" "ns \<noteq> []" "h c = Some nd"
    and "c = h0 \<Longrightarrow> ln_next nd = Some (fst (hd ns))" "h0 \<notin> fst ` set ns"
  shows "ln_next nd = None \<Longrightarrow> visit_ok (map snd ns) (xs, vs)"
    and "ln_next nd = Some a \<Longrightarrow> adjacent h0 ns c a \<and> walk_next h0 ns a xs vs"
proof -
  have "(ln_next nd = None \<longrightarrow> visit_ok (map snd ns) (xs, vs)) \<and>
      (ln_next nd = Some a \<longrightarrow> adjacent h0 ns c a \<and> walk_next h0 ns a xs vs)"
  proof (cases "vs = []")
    case True
    then have c: "c = h0" "prefix xs (map snd ns)" using assms(1) walk_empty by blast+
    obtain b y ms where ns: "ns = (b, y) # ms" using assms(3) by (cases ns) auto
    have "adjacent h0 ns c b" unfolding adjacent_def ns c(1) by (rule exI [of _ "[]"]) simp
    moreover have "walk h0 ns b xs ([] @ [y])" using walk_nonemptyI [of xs "[]" b y ms h0 "[]"] c(2) ns by simp
    ultimately show ?thesis using assms(5) c(1) True ns by (auto simp: walk_next_def)
  next
    case False
    obtain pre mid x post where w: "ns = pre @ mid @ (c, x) # post" "vs = map snd mid @ [x]"
        "prefix xs (map snd (mid @ (c, x) # post))"
      using walk_nonempty [OF assms(1) False] .
    have n: "ln_next nd = (if post = [] then None else Some (fst (hd post)))"
      using chain_split [of h _ "pre @ mid" c x post] assms(2,4) w(1) by auto
    show ?thesis
    proof (cases post)
      case Nil
      then show ?thesis using w n by (auto simp: visit_ok_def)
    next
      case (Cons e ms)
      obtain b y where b: "e = (b, y)" by force
      have "adjacent h0 ns c b"
        unfolding adjacent_def w(1) Cons b
        by (rule exI [of _ "h0 # map fst (pre @ mid)"], rule exI [of _ "map fst ms"]) simp
      moreover have "walk h0 ns b xs (vs @ [y])"
        using walk_nonemptyI [of xs "mid @ [(c, x)]" b y ms h0 pre] w Cons b by simp
      ultimately show ?thesis using n Cons b by (auto simp: walk_next_def)
    qed
  qed
  then show "ln_next nd = None \<Longrightarrow> visit_ok (map snd ns) (xs, vs)"
    "ln_next nd = Some a \<Longrightarrow> adjacent h0 ns c a \<and> walk_next h0 ns a xs vs" by simp_all
qed

lemma walk_data:
  assumes "walk_next h0 ns a xs vs" "chain h p ns"
  shows "\<exists>nd x. h a = Some nd \<and> ln_data nd = Some x \<and> walk h0 ns a xs (vs @ [x])"
proof -
  obtain y where w: "walk h0 ns a xs (vs @ [y])" using assms(1) by (auto simp: walk_next_def)
  obtain pre mid x post where "ns = pre @ mid @ (a, x) # post" "vs @ [y] = map snd mid @ [x]"
    by (rule walk_nonempty [OF w]) simp_all
  then show ?thesis using chain_split [of h p "pre @ mid" a x post] assms(2) w by auto
qed

lemma find_first: "\<forall>x\<in>set vs. \<not> p x \<Longrightarrow> find p (vs @ ys) = find p ys"
  by (induction vs) auto

lemma search_none:
  assumes "visit_ok ys (xs, vs)" "\<forall>x\<in>set vs. \<not> p x"
  shows "search_ok ys (p, xs, None)"
proof -
  obtain zs where "vs = xs @ zs" "sublist vs ys" using assms(1) by (auto simp: visit_ok_def prefix_def)
  then show ?thesis using find_first [OF assms(2), of "[]"] by (auto simp: search_ok_def)
qed

lemma search_found:
  assumes "walk h0 ns a xs (vs @ [x])" "\<forall>x\<in>set vs. \<not> p x" "p x"
  shows "search_ok (map snd ns) (p, xs, Some x)"
proof -
  obtain pre mid y post where w: "ns = pre @ mid @ (a, y) # post" "vs @ [x] = map snd mid @ [y]"
      "prefix xs (map snd (mid @ (a, y) # post))"
    by (rule walk_nonempty [OF assms(1)]) simp_all
  then obtain zs where zs: "xs @ zs = vs @ x # map snd post" by (auto simp: prefix_def)
  then have "find p (xs @ zs) = Some x" using find_first [OF assms(2)] assms(3) by simp
  moreover have "sublist (xs @ zs) (map snd ns)" using zs w(1,2) by auto
  ultimately show ?thesis unfolding search_ok_def by auto
qed

text \<open>A new node at either end, seen from a traversal under way.\<close>

lemma walk_snoc: "walk h0 ns c xs vs \<Longrightarrow> walk h0 (ns @ [y]) c xs vs"
proof -
  assume "walk h0 ns c xs vs"
  then obtain pre mid post where w: "ns = pre @ mid @ post" "map snd mid = vs" "prefix xs (map snd (mid @ post))"
      "if mid = [] then c = h0 \<and> pre = [] else c = fst (last mid)"
    unfolding walk_def by blast
  from w(3) have "prefix xs (map snd (mid @ post @ [y]))" using prefix_prefix by fastforce
  with w show ?thesis
    unfolding walk_def by - (rule exI [of _ pre], rule exI [of _ mid], rule exI [of _ "post @ [y]"], simp)
qed

lemma walk_Cons: "walk h0 ns c xs vs \<Longrightarrow> vs \<noteq> [] \<Longrightarrow> walk h0 (y # ns) c xs vs"
  by (erule walk_nonempty) (auto intro: walk_nonemptyI [of _ _ _ _ _ _ "y # _", simplified])

lemma walk_Cons_away: "walk h0 ns c xs vs \<Longrightarrow> h0 \<noteq> c \<Longrightarrow> walk h0 (y # ns) c xs vs"
  by (cases "vs = []") (auto dest: walk_empty intro: walk_Cons)

lemma walk_next_snoc: "walk_next h0 ns a xs vs \<Longrightarrow> walk_next h0 (ns @ [y]) a xs vs"
  by (auto simp: walk_next_def intro: walk_snoc)

lemma walk_next_Cons: "walk_next h0 ns a xs vs \<Longrightarrow> walk_next h0 (y # ns) a xs vs"
  by (auto simp: walk_next_def intro: walk_Cons)

lemma adjacent_snoc: "adjacent h0 ns c a \<Longrightarrow> adjacent h0 (ns @ [y]) c a"
  unfolding adjacent_def by (metis append_Cons append_assoc list.simps(9) map_append)

lemma adjacent_Cons:
  assumes "adjacent h0 ns c a" "c \<noteq> h0"
  shows "adjacent h0 (y # ns) c a"
proof -
  obtain pre post where "h0 # map fst ns = pre @ c # a # post" using assms(1) by (auto simp: adjacent_def)
  moreover from this assms(2) obtain pre' where "pre = h0 # pre'" by (cases pre) auto
  ultimately have "h0 # map fst (y # ns) = (h0 # fst y # pre') @ c # a # post" by simp
  then show ?thesis unfolding adjacent_def by blast
qed

lemma visit_ok_grow: "visit_ok ys tr \<Longrightarrow> sublist ys zs \<Longrightarrow> visit_ok zs tr"
  by (auto simp: visit_ok_def intro: sublist_order.order_trans)

lemma search_ok_grow: "search_ok ys r \<Longrightarrow> sublist ys zs \<Longrightarrow> search_ok zs r"
  unfolding search_ok_def by (cases r) (auto intro: sublist_order.order_trans)

lemma pc_ok_snoc: "pc_ok h0 ns pc \<Longrightarrow> pc_ok h0 (ns @ [y]) pc"
  by (cases pc) (auto intro: walk_snoc walk_next_snoc adjacent_snoc visit_ok_grow search_ok_grow)

lemma pc_ok_Cons: "pc_ok h0 ns pc \<Longrightarrow> h0 \<notin> held h0 pc \<Longrightarrow> pc_ok h0 (y # ns) pc"
  by (cases pc) (auto intro: walk_Cons walk_Cons_away walk_next_Cons adjacent_Cons visit_ok_grow search_ok_grow
      sublist_Cons_right [THEN iffD2] split: if_splits)

lemma held_live:
  assumes "pc_ok h0 ns pc"
  shows "held h0 pc \<subseteq> insert h0 (fst ` set ns)"
proof -
  have "c \<in> insert h0 (fst ` set ns)" if "adjacent h0 ns c a" for c a
  proof -
    have "c \<in> set (h0 # map fst ns)" using that unfolding adjacent_def by (metis in_set_conv_decomp)
    then show ?thesis by simp
  qed
  then show ?thesis
    using assms by (cases pc) (auto dest: walk_mem_head walk_next_mem)
qed

end
