(* ===== verification/Locked_List_Safety.thy ===== *)
theory Locked_List_Safety
  imports Locked_List
begin

text \<open>
  The concurrent \<open>SafeList\<close> of \<open>Locked_List\<close>: every step keeps the invariant, and what follows for the insertions and
  traversals: no fault, what a traversal sees, progress, and the accesses that race.
\<close>

subsection \<open>The steps that change the list\<close>

lemma owned_ok_step:
  assumes "owned_ok h f A ns pcs" "t < length pcs"
    and "\<And>u. u < length pcs \<Longrightarrow> u \<noteq> t \<Longrightarrow> owned ns' (pcs ! u) = owned ns (pcs ! u)"
    and "\<And>u n nd. u < length pcs \<Longrightarrow> u \<noteq> t \<Longrightarrow> owned ns (pcs ! u) = Some (n, nd) \<Longrightarrow> h' n = Some nd \<and> n < f' \<and> n \<notin> A'"
    and "\<And>n nd. owned ns' pc = Some (n, nd) \<Longrightarrow> h' n = Some nd \<and> n < f' \<and> n \<notin> A'"
    and "\<And>u n nd md. owned ns' pc = Some (n, nd) \<Longrightarrow> u < length pcs \<Longrightarrow> u \<noteq> t \<Longrightarrow> owned ns (pcs ! u) \<noteq> Some (n, md)"
  shows "owned_ok h' f' A' ns' (pcs[t := pc])"
proof -
  have o: "owned ns' (pcs[t := pc] ! u) = (if u = t then owned ns' pc else owned ns (pcs ! u))" if "u < length pcs" for u
    using that assms(2,3) by (simp add: nth_list_update)
  show ?thesis
    unfolding owned_ok_def length_list_update
  proof (intro conjI allI impI)
    fix u n nd assume "u < length pcs" "owned ns' (pcs[t := pc] ! u) = Some (n, nd)"
    then show "h' n = Some nd" "n < f'" "n \<notin> A'" using o assms(4,5) by (metis (full_types))+
  next
    fix u v n nd m md
    assume uv: "u < length pcs" "v < length pcs" "u \<noteq> v" "owned ns' (pcs[t := pc] ! u) = Some (n, nd)"
      "owned ns' (pcs[t := pc] ! v) = Some (m, md)"
    show "n \<noteq> m"
    proof (cases "u = t \<or> v = t")
      case True
      then show ?thesis using uv o assms(6) by metis
    next
      case False
      then show ?thesis using uv o owned_ok_distinct [OF assms(1) uv(1-3)] by (metis (full_types))
    qed
  qed
qed

lemma some_at_only:
  "(\<And>u. u < length pcs \<Longrightarrow> P (pcs ! u) \<Longrightarrow> u = t) \<Longrightarrow> t < length pcs \<Longrightarrow> some_at P (pcs[t := pc]) = P pc"
  by (auto simp: some_at_def nth_list_update)

lemma is_F_put_held: "is_F_put pc \<Longrightarrow> h0 \<in> held h0 pc"
  by (cases pc) auto

lemma is_B_tail_global: "is_B_tail pc \<Longrightarrow> holds_global pc"
  by (cases pc) auto

text \<open>The mutex of the head excludes every other insertion in front, \<open>global_mt_\<close> every other one at the end.\<close>

lemma head_excludes:
  assumes "ll_body ns s" "t < length (ll_pcs s)" "ll_head s \<in> held (ll_head s) (ll_pcs s ! t)"
  shows "u < length (ll_pcs s) \<Longrightarrow> ll_head s \<in> held (ll_head s) (ll_pcs s ! u) \<Longrightarrow> u = t"
    and "some_at is_F_put ((ll_pcs s)[t := pc]) = is_F_put pc"
    and "some_at is_F_put (ll_pcs s) = is_F_put (ll_pcs s ! t)"
proof -
  show only: "u = t" if "u < length (ll_pcs s)" "ll_head s \<in> held (ll_head s) (ll_pcs s ! u)" for u
    using locks_ok_excl [OF body_locks(1) [OF assms(1)]] that assms(2,3) by blast
  show "some_at is_F_put ((ll_pcs s)[t := pc]) = is_F_put pc" for pc
    using some_at_only [of "ll_pcs s" is_F_put t pc] only is_F_put_held assms(2) by blast
  from this [of "ll_pcs s ! t"] show "some_at is_F_put (ll_pcs s) = is_F_put (ll_pcs s ! t)" by simp
qed

lemma global_excludes:
  assumes "ll_body ns s" "t < length (ll_pcs s)" "holds_global (ll_pcs s ! t)"
  shows "some_at is_B_tail ((ll_pcs s)[t := pc]) = is_B_tail pc"
    and "some_at is_B_tail (ll_pcs s) = is_B_tail (ll_pcs s ! t)"
proof -
  have "u = t" if "u < length (ll_pcs s)" "holds_global (ll_pcs s ! u)" for u
    using lock_inv_holder [OF body_locks(2) [OF assms(1)]] that assms(2,3) by (metis option.inject)
  then show "some_at is_B_tail ((ll_pcs s)[t := pc]) = is_B_tail pc" for pc
    using some_at_only [of "ll_pcs s" is_B_tail t pc] is_B_tail_global assms(2) by blast
  from this [of "ll_pcs s ! t"] show "some_at is_B_tail (ll_pcs s) = is_B_tail (ll_pcs s ! t)" by simp
qed

lemma body_list:
  assumes "ll_body ns s"
  shows "chain (ll_heap s) (Some (fst (hd ns))) ns" "ns \<noteq> []" "ll_head s \<notin> fst ` set ns" "distinct (map fst ns)"
    "insert (ll_head s) (fst ` set ns) \<subseteq> {..<ll_fresh s}" "ll_contents s = map snd ns"
    "head_ok (some_at is_F_put (ll_pcs s)) (ll_heap s (ll_head s)) ns"
    "tail_ok (some_at is_B_tail (ll_pcs s)) (ll_tail s) ns"
  using assms by (simp_all add: ll_body_def list_ok_def)

lemma body_threads:
  assumes "ll_body ns s"
  shows "owned_ok (ll_heap s) (ll_fresh s) (insert (ll_head s) (fst ` set ns)) ns (ll_pcs s)"
    "u < length (ll_pcs s) \<Longrightarrow> pc_ok (ll_head s) ns (ll_pcs s ! u)"
  using assms by (simp_all add: ll_body_def threads_ok_def)

lemma body_owned:
  assumes "ll_body ns s" "t < length (ll_pcs s)" "owned ns (ll_pcs s ! t) = Some (n, nd)"
  shows "ll_heap s n = Some nd" "n < ll_fresh s" "n \<noteq> ll_head s" "n \<notin> fst ` set ns"
    "u < length (ll_pcs s) \<Longrightarrow> u \<noteq> t \<Longrightarrow> owned ns (ll_pcs s ! u) \<noteq> Some (n, md)"
  using owned_ok_node [OF body_threads(1) [OF assms(1)] assms(2,3)]
    owned_ok_distinct [OF body_threads(1) [OF assms(1)] assms(2) _ _ assms(3), of u md] by auto

text \<open>
  A step of thread \<open>t\<close> that writes to the list, with the locks it had. Each of the four components of the invariant is a
  premise about the parts it depends on.
\<close>

lemma write_keeps:
  assumes "ll_body ns s" "t < length (ll_pcs s)" "sl_head l = ll_head s" "sublist (map snd ns) (map snd ns')"
    and "held (ll_head s) pc = held (ll_head s) (ll_pcs s ! t)" "holds_global pc = holds_global (ll_pcs s ! t)"
    and "list_ok ns' (ll_goto t pc (s\<lparr>ll_contents := map snd ns', ll_list := l\<rparr>))"
    and "\<And>u. u < length (ll_pcs s) \<Longrightarrow> u \<noteq> t \<Longrightarrow>
      owned ns' (ll_pcs s ! u) = owned ns (ll_pcs s ! u) \<and> pc_ok (ll_head s) ns' (ll_pcs s ! u)"
    and "\<And>n nd. ll_heap s n = Some nd \<Longrightarrow> n \<notin> insert (ll_head s) (fst ` set ns) \<Longrightarrow> owned ns (ll_pcs s ! t) \<noteq> Some (n, nd) \<Longrightarrow>
      n < ll_fresh s \<Longrightarrow> sl_heap l n = Some nd \<and> n < sl_fresh l \<and> n \<notin> fst ` set ns'"
    and "\<And>n nd. owned ns' pc = Some (n, nd) \<Longrightarrow> sl_heap l n = Some nd \<and> n < sl_fresh l \<and>
      n \<notin> insert (ll_head s) (fst ` set ns') \<and> (n < ll_fresh s \<longrightarrow> map_option fst (owned ns (ll_pcs s ! t)) = Some n)"
    and "pc_ok (ll_head s) ns' pc"
  shows "ll_body ns' (ll_goto t pc (s\<lparr>ll_contents := map snd ns', ll_list := l\<rparr>))"
proof -
  have "owned_ok (sl_heap l) (sl_fresh l) (insert (ll_head s) (fst ` set ns')) ns' ((ll_pcs s)[t := pc])"
  proof (rule owned_ok_step [OF body_threads(1) [OF assms(1)] assms(2)])
    fix u n nd assume u: "u < length (ll_pcs s)" "u \<noteq> t" "owned ns (ll_pcs s ! u) = Some (n, nd)"
    then have "owned ns (ll_pcs s ! t) \<noteq> Some (n, nd)" using body_owned(5) [OF assms(1) u(1,3)] assms(2) by blast
    then show "sl_heap l n = Some nd \<and> n < sl_fresh l \<and> n \<notin> insert (ll_head s) (fst ` set ns')"
      using body_owned(1-4) [OF assms(1) u(1,3)] assms(9) by simp
  next
    fix u n nd md assume u: "owned ns' pc = Some (n, nd)" "u < length (ll_pcs s)" "u \<noteq> t"
    show "owned ns (ll_pcs s ! u) \<noteq> Some (n, md)"
    proof
      assume o: "owned ns (ll_pcs s ! u) = Some (n, md)"
      then obtain b where "owned ns (ll_pcs s ! t) = Some (n, b)"
        using assms(10) [OF u(1)] body_owned(2) [OF assms(1) u(2)] by fastforce
      then show False using body_owned(5) [OF assms(1) u(2) o assms(2)] u(3) by blast
    qed
  qed (use assms(8,10) in blast)+
  moreover have "\<forall>u<length (ll_pcs s). pc_ok (ll_head s) ns' ((ll_pcs s)[t := pc] ! u)"
    using assms(2,8,11) by (simp add: nth_list_update)
  moreover have "\<forall>tr\<in>set (ll_visits s). visit_ok (map snd ns') tr" "\<forall>r\<in>set (ll_finds s). search_ok (map snd ns') r"
    using body_results [OF assms(1)] assms(4) by (auto intro: visit_ok_grow search_ok_grow)
  ultimately show ?thesis
    using assms(1-3,5-7) body_locks [OF assms(1)]
    by (simp add: ll_body_def threads_ok_def results_ok_def ll_goto_def locks_ok_same lock_inv_same)
qed

lemma same_contents: "ll_body ns s \<Longrightarrow> s\<lparr>ll_contents := map snd ns\<rparr> = s"
  by (simp add: ll_body_def list_ok_def)

lemma new_node_keeps:
  assumes "ll_body ns s" "t < length (ll_pcs s)" "owned ns (ll_pcs s ! t) = None" "\<not> is_F_put (ll_pcs s ! t)"
    and "owned ns pc = Some (ll_fresh s, \<lparr>ln_data = Some x, ln_next = None\<rparr>)" "\<not> is_F_put pc" "pc_ok (ll_head s) ns pc"
    and "held (ll_head s) pc = held (ll_head s) (ll_pcs s ! t)" "holds_global pc = holds_global (ll_pcs s ! t)"
    and "is_B_tail pc = is_B_tail (ll_pcs s ! t)"
  shows "ll_body ns (ll_goto t pc (ll_alloc x s))"
proof -
  let ?l = "(ll_list s)\<lparr>sl_heap := (ll_heap s)(ll_fresh s \<mapsto> \<lparr>ln_data = Some x, ln_next = None\<rparr>),
    sl_fresh := Suc (ll_fresh s)\<rparr>"
  note b = body_list [OF assms(1)]
  have f: "ll_fresh s \<notin> fst ` set ns" "ll_fresh s \<noteq> ll_head s" using b(5) by auto
  have "ll_body ns (ll_goto t pc (s\<lparr>ll_contents := map snd ns, ll_list := ?l\<rparr>))"
  proof (rule write_keeps [OF assms(1,2)])
    show "list_ok ns (ll_goto t pc (s\<lparr>ll_contents := map snd ns, ll_list := ?l\<rparr>))"
      using b f assms(2,4,6,10) by (auto simp: list_ok_def ll_goto_def chain_frame some_at_same)
  qed (use assms b(5) f body_threads [OF assms(1)] in auto)
  then show ?thesis using same_contents [OF assms(1)] by (simp add: ll_alloc_def)
qed

lemma body_head:
  assumes "ll_body ns s" "t < length (ll_pcs s)" "ll_head s \<in> held (ll_head s) (ll_pcs s ! t)"
  shows "\<exists>hn. ll_heap s (ll_head s) = Some hn \<and>
    ln_next hn = (if is_F_put (ll_pcs s ! t) then None else Some (fst (hd ns)))"
  using body_list(7) [OF assms(1)] head_excludes(3) [OF assms] by (auto simp: head_ok_def)

lemma take_keeps:
  assumes "ll_body ns s" "t < length (ll_pcs s)" "ll_pcs s ! t = F_take x n" "front_turn t (F_take x n) s = Some s'"
  shows "ll_body ns s'"
proof -
  note b = body_list [OF assms(1)]
  note o = body_owned [OF assms(1,2), of n]
  have h: "ll_head s \<in> held (ll_head s) (ll_pcs s ! t)" using assms(3) by simp
  obtain hn where hn: "ll_heap s (ll_head s) = Some hn" "ln_next hn = Some (fst (hd ns))"
    using body_head [OF assms(1,2) h] assms(3) by auto
  let ?nd = "\<lparr>ln_data = Some x, ln_next = Some (fst (hd ns))\<rparr>"
  let ?l = "(ll_list s)\<lparr>sl_heap := (ll_heap s)(n \<mapsto> ?nd, ll_head s \<mapsto> hn\<lparr>ln_next := None\<rparr>)\<rparr>"
  have "ll_body ns (ll_goto t (F_put x n) (s\<lparr>ll_contents := map snd ns, ll_list := ?l\<rparr>))"
  proof (rule write_keeps [OF assms(1,2)])
    show "list_ok ns (ll_goto t (F_put x n) (s\<lparr>ll_contents := map snd ns, ll_list := ?l\<rparr>))"
      using b o(4) assms(2,3) head_excludes(2) [OF assms(1,2) h, of "F_put x n"] some_at_same [of t "ll_pcs s" is_B_tail "F_put x n"]
      by (auto simp: list_ok_def ll_goto_def chain_frame head_ok_def)
    show "sl_heap ?l m = Some nd \<and> m < sl_fresh ?l \<and> m \<notin> fst ` set ns"
      if "ll_heap s m = Some nd" "m \<notin> insert (ll_head s) (fst ` set ns)" "owned ns (ll_pcs s ! t) \<noteq> Some (m, nd)"
        "m < ll_fresh s" for m nd
      using that o(1) assms(3) by auto
    show "sl_heap ?l m = Some nd \<and> m < sl_fresh ?l \<and> m \<notin> insert (ll_head s) (fst ` set ns) \<and>
        (m < ll_fresh s \<longrightarrow> map_option fst (owned ns (ll_pcs s ! t)) = Some m)"
      if "owned ns (F_put x n) = Some (m, nd)" for m nd
      using that o(2-4) assms(3) by auto
  qed (use assms(3) body_threads [OF assms(1)] in auto)
  moreover have "s' = ll_goto t (F_put x n) (s\<lparr>ll_list := ?l\<rparr>)"
    using assms(3,4) hn o(1) by (simp add: ll_at_def ll_set_heap_def)
  ultimately show ?thesis using same_contents [OF assms(1)] by simp
qed

lemma owned_Cons: "\<not> is_F_put pc \<Longrightarrow> owned ns' pc = owned ns pc"
  by (cases pc) auto

lemma put_keeps:
  assumes "ll_body ns s" "t < length (ll_pcs s)" "ll_pcs s ! t = F_put x n" "front_turn t (F_put x n) s = Some s'"
  shows "ll_body ((n, x) # ns) s'"
proof -
  note b = body_list [OF assms(1)]
  note o = body_owned [OF assms(1,2), of n]
  have h: "ll_head s \<in> held (ll_head s) (ll_pcs s ! t)" using assms(3) by simp
  obtain hn where hn: "ll_heap s (ll_head s) = Some hn" "ln_next hn = None"
    using body_head [OF assms(1,2) h] assms(3) by auto
  let ?l = "(ll_list s)\<lparr>sl_heap := (ll_heap s)(ll_head s \<mapsto> hn\<lparr>ln_next := Some n\<rparr>)\<rparr>"
  let ?ns = "(n, x) # ns"
  have "ll_body ?ns (ll_goto t F_check (s\<lparr>ll_contents := map snd ?ns, ll_list := ?l\<rparr>))"
  proof (rule write_keeps [OF assms(1,2)])
    have "tail_ok bh (ll_tail s) ?ns" if "tail_ok bh (ll_tail s) ns" for bh
      using that b(2) by (auto simp: tail_ok_def Let_def split: if_splits)
    then show "list_ok ?ns (ll_goto t F_check (s\<lparr>ll_contents := map snd ?ns, ll_list := ?l\<rparr>))"
      using b o(1-4) assms(2,3) head_excludes(2) [OF assms(1,2) h, of F_check] some_at_same [of t "ll_pcs s" is_B_tail F_check]
      by (auto simp: list_ok_def ll_goto_def chain_frame head_ok_def)
    show "owned ?ns (ll_pcs s ! u) = owned ns (ll_pcs s ! u) \<and> pc_ok (ll_head s) ?ns (ll_pcs s ! u)"
      if "u < length (ll_pcs s)" "u \<noteq> t" for u
    proof -
      have "ll_head s \<notin> held (ll_head s) (ll_pcs s ! u)" using head_excludes(1) [OF assms(1,2) h] that by blast
      then show ?thesis
        using body_threads(2) [OF assms(1) that(1)] is_F_put_held owned_Cons by (metis pc_ok_Cons)
    qed
    show "sl_heap ?l m = Some nd \<and> m < sl_fresh ?l \<and> m \<notin> fst ` set ?ns"
      if "ll_heap s m = Some nd" "m \<notin> insert (ll_head s) (fst ` set ns)" "owned ns (ll_pcs s ! t) \<noteq> Some (m, nd)"
        "m < ll_fresh s" for m nd
      using that o(1) assms(3) by auto
    show "pc_ok (ll_head s) ?ns F_check" using b(2) by (cases ns) simp_all
  qed (use assms(3) in \<open>auto simp: sublist_Cons_right\<close>)
  moreover have "s' = ll_goto t F_check (s\<lparr>ll_contents := map snd ?ns, ll_list := ?l\<rparr>)"
    using assms(3,4) hn b(6) by (simp add: ll_at_def ll_set_heap_def ll_hang_def)
  ultimately show ?thesis by simp
qed

lemma owned_snoc: "ns \<noteq> [] \<Longrightarrow> owned (ns @ [y]) pc = owned ns pc"
  by (cases pc) auto

lemma write_back_keeps:
  assumes "ll_body ns s" "t < length (ll_pcs s)" "ll_pcs s ! t = B_write x n a" "back_turn t (B_write x n a) s = Some s'"
  shows "ll_body (ns @ [(n, x)]) s'"
proof -
  note b = body_list [OF assms(1)]
  note o = body_owned [OF assms(1,2), of n]
  have g: "holds_global (ll_pcs s ! t)" using assms(3) by simp
  let ?d = "fst (last ns)" and ?ns = "ns @ [(n, x)]"
  have d: "ll_tail s = Some ?d" "?d \<in> fst ` set ns"
    using b(2,8) global_excludes(2) [OF assms(1,2) g] assms(3) by (auto simp: tail_ok_def)
  obtain nd where nd: "ll_heap s ?d = Some nd" "ln_next nd = None" using chain_last [OF b(1,2)] by blast
  let ?l = "(ll_list s)\<lparr>sl_heap := (ll_heap s)(?d \<mapsto> nd\<lparr>ln_next := Some n\<rparr>)\<rparr>"
  have n: "(ll_heap s)(n \<mapsto> \<lparr>ln_data = Some x, ln_next = None\<rparr>) = ll_heap s" using o(1) assms(3) by (simp add: fun_upd_idem)
  have chain: "chain (sl_heap ?l) (Some (fst (hd ?ns))) ?ns"
    using chain_snoc [OF b(1,2) refl nd(1) b(4), of n x] o(4) assms(3) b(2) n by simp
  have "ll_body ?ns (ll_goto t (B_tail a) (s\<lparr>ll_contents := map snd ?ns, ll_list := ?l\<rparr>))"
  proof (rule write_keeps [OF assms(1,2)])
    show "list_ok ?ns (ll_goto t (B_tail a) (s\<lparr>ll_contents := map snd ?ns, ll_list := ?l\<rparr>))"
    proof -
      have "ll_head s \<noteq> ?d" using b(3) d(2) by metis
      then show ?thesis
        using b chain d o(2-4) assms(2,3) global_excludes(1) [OF assms(1,2) g, of "B_tail a"]
          some_at_same [of t "ll_pcs s" is_F_put "B_tail a"]
        by (auto simp: list_ok_def ll_goto_def head_ok_def tail_ok_def split: if_splits)
    qed
    show "owned ?ns (ll_pcs s ! u) = owned ns (ll_pcs s ! u) \<and> pc_ok (ll_head s) ?ns (ll_pcs s ! u)"
      if "u < length (ll_pcs s)" "u \<noteq> t" for u
      using owned_snoc [OF b(2)] pc_ok_snoc [OF body_threads(2) [OF assms(1) that(1)]] by simp
    show "sl_heap ?l m = Some md \<and> m < sl_fresh ?l \<and> m \<notin> fst ` set ?ns"
      if m: "ll_heap s m = Some md" "m \<notin> insert (ll_head s) (fst ` set ns)" "owned ns (ll_pcs s ! t) \<noteq> Some (m, md)"
        "m < ll_fresh s" for m md
    proof -
      have "m \<noteq> n" using m(1,3) o(1) assms(3) by auto
      moreover have "m \<noteq> ?d" using m(2) d(2) by blast
      ultimately show ?thesis using m by simp
    qed
  qed (use assms(3) body_threads(2) [OF assms(1,2)] in auto)
  moreover have "s' = ll_goto t (B_tail a) (s\<lparr>ll_contents := map snd ?ns, ll_list := ?l\<rparr>)"
    using assms(4) nd d(1) b(6) by (simp add: ll_at_def ll_set_heap_def ll_hang_def)
  ultimately show ?thesis by simp
qed

lemma tail_step_keeps:
  assumes "ll_body ns s" "t < length (ll_pcs s)" "ll_pcs s ! t = B_tail a" "back_turn t (B_tail a) s = Some s'"
  shows "ll_body ns s'"
proof -
  note b = body_list [OF assms(1)]
  have g: "holds_global (ll_pcs s ! t)" using assms(3) by simp
  have ms: "butlast ns \<noteq> []" "ll_tail s = Some (fst (last (butlast ns)))"
    using b(8) global_excludes(2) [OF assms(1,2) g] assms(3) by (auto simp: tail_ok_def Let_def)
  obtain ks d y e where ns: "ns = ks @ (d, y) # [e]"
    using ms(1) by (cases ns rule: rev_cases; cases "butlast ns" rule: rev_cases) auto
  obtain nd where nd: "ll_heap s d = Some nd" "ln_next nd = Some (fst e)"
    using chain_split [of "ll_heap s" _ ks d y "[e]"] b(1) unfolding ns by auto
  let ?l = "(ll_list s)\<lparr>sl_tail := Some (fst e)\<rparr>" and ?pc = "B_unlock_global a"
  have "ll_body ns (ll_goto t ?pc (s\<lparr>ll_contents := map snd ns, ll_list := ?l\<rparr>))"
  proof (rule write_keeps [OF assms(1,2)])
    show "list_ok ns (ll_goto t ?pc (s\<lparr>ll_contents := map snd ns, ll_list := ?l\<rparr>))"
      using b ns assms(2,3) global_excludes(1) [OF assms(1,2) g, of ?pc] some_at_same [of t "ll_pcs s" is_F_put ?pc]
      by (auto simp: list_ok_def ll_goto_def tail_ok_def)
  qed (use assms(3) body_threads [OF assms(1)] body_threads(2) [OF assms(1,2)] in auto)
  moreover have "s' = ll_goto t ?pc (s\<lparr>ll_list := ?l\<rparr>)"
    using assms(4) nd ms(2) ns by (simp add: ll_at_def ll_set_tail_def butlast_append)
  ultimately show ?thesis using same_contents [OF assms(1)] by simp
qed

subsection \<open>Every step keeps the invariant\<close>

lemma body_live:
  assumes "ll_body ns s" "a \<in> insert (ll_head s) (fst ` set ns)"
  shows "ll_heap s a \<noteq> None"
proof (cases "a = ll_head s")
  case True
  then show ?thesis using body_list(7) [OF assms(1)] by (auto simp: head_ok_def)
next
  case False
  then show ?thesis using chain_live [OF body_list(1) [OF assms(1)]] assms(2) by blast
qed

lemma adjacent_mem:
  assumes "adjacent h0 ns c a" "distinct (h0 # map fst ns)"
  shows "a \<in> fst ` set ns" "c \<noteq> a"
proof -
  obtain pre post where l: "h0 # map fst ns = pre @ c # a # post" using assms(1) by (auto simp: adjacent_def)
  then have "distinct (pre @ c # a # post)" using assms(2) by metis
  then show "c \<noteq> a" by auto
  have "a \<in> set (map fst ns)" using l by (cases pre) (auto simp del: set_map)
  then show "a \<in> fst ` set ns" by simp
qed

lemma front_turn_keeps:
  assumes "ll_body ns s" "t < length (ll_pcs s)" "front_turn t (ll_pcs s ! t) s = Some s'"
  shows "ll_inv s'"
proof -
  note b = body_list [OF assms(1)]
  note ok = body_threads(2) [OF assms(1,2)]
  have "\<exists>ns'. ll_body ns' s'"
  proof (cases "ll_pcs s ! t")
    case (F_alloc x)
    then show ?thesis using new_node_keeps [OF assms(1,2), of "F_lock x (ll_fresh s)" x] assms(3) by auto
  next
    case (F_lock x n)
    then show ?thesis
      using lock_keeps [OF assms(1,2), of "F_take x n" "ll_head s"] body_live [OF assms(1), of "ll_head s"] assms(3) by auto
  next
    case (F_take x n)
    then show ?thesis using take_keeps [OF assms(1,2)] assms(3) by metis
  next
    case (F_put x n)
    then show ?thesis using put_keeps [OF assms(1,2)] assms(3) by metis
  next
    case F_check
    then have "2 \<le> length ns" using ok by simp
    then obtain a x c y ms where ns: "ns = [] @ (a, x) # (c, y) # ms"
      by (cases ns; cases "tl ns") auto
    obtain nd where "ll_heap s a = Some nd" "ln_next nd = Some c"
      using chain_split [of "ll_heap s" _ "[]" a x "(c, y) # ms"] b(1) unfolding ns by auto
    moreover obtain hn where "ll_heap s (ll_head s) = Some hn" "ln_next hn = Some a"
      using body_head [OF assms(1,2)] F_check ns by auto
    ultimately have "s' = ll_goto t F_unlock s" using assms(3) F_check by (simp add: ll_at_def)
    then show ?thesis using goto_keeps [OF assms(1,2), of F_unlock] F_check by auto
  next
    case F_unlock
    then show ?thesis
      using release_keeps [OF assms(1,2), of Outside "ll_head s" "ll_visits s" "ll_finds s"] body_results [OF assms(1)] assms(3)
      by auto
  qed (use assms(3) ok in simp_all)
  then show ?thesis by (simp add: ll_inv_def)
qed

lemma back_turn_keeps:
  assumes "ll_body ns s" "t < length (ll_pcs s)" "back_turn t (ll_pcs s ! t) s = Some s'"
  shows "ll_inv s'"
proof -
  note ok = body_threads(2) [OF assms(1,2)]
  have "\<exists>ns'. ll_body ns' s'"
  proof (cases "ll_pcs s ! t")
    case (B_alloc x)
    then show ?thesis using new_node_keeps [OF assms(1,2), of "B_read x (ll_fresh s)" x] assms(3) by auto
  next
    case (B_read x n)
    obtain ms where ms: "ms \<noteq> []" "set ms \<subseteq> set ns" "ll_tail s = Some (fst (last ms))"
      using body_list(8) [OF assms(1)] by (auto simp: tail_ok_def Let_def split: if_splits dest: in_set_butlastD)
    then have "fst (last ms) \<in> fst ` set ns" by (metis image_eqI last_in_set subsetD)
    then show ?thesis using goto_keeps [OF assms(1,2), of "B_lock x n (fst (last ms))"] ms(3) B_read assms(3) by auto
  next
    case (B_lock x n a)
    then show ?thesis
      using lock_keeps [OF assms(1,2), of "B_global x n a" a] body_live [OF assms(1), of a] assms(3) ok by auto
  next
    case (B_global x n a)
    then show ?thesis using global_keeps(1) [OF assms(1,2), of "B_write x n a"] assms(3) ok by auto
  next
    case (B_write x n a)
    then show ?thesis using write_back_keeps [OF assms(1,2)] assms(3) by metis
  next
    case (B_tail a)
    then show ?thesis using tail_step_keeps [OF assms(1,2)] assms(3) by metis
  next
    case (B_unlock_global a)
    then show ?thesis using global_keeps(2) [OF assms(1,2), of "B_unlock a"] assms(3) ok by auto
  next
    case (B_unlock a)
    then show ?thesis
      using release_keeps [OF assms(1,2), of Outside a "ll_visits s" "ll_finds s"] body_results [OF assms(1)] assms(3) by auto
  qed (use assms(3) in simp_all)
  then show ?thesis by (simp add: ll_inv_def)
qed

text \<open>A round of a traversal in the shared list.\<close>

lemma body_round:
  assumes "ll_body ns s" "t < length (ll_pcs s)" "walk (ll_head s) ns c xs vs"
    and "vs = [] \<Longrightarrow> ll_head s \<in> held (ll_head s) (ll_pcs s ! t)" "\<not> is_F_put (ll_pcs s ! t)"
  shows "\<exists>nd. ll_heap s c = Some nd \<and> (ln_next nd = None \<longrightarrow> visit_ok (map snd ns) (xs, vs)) \<and>
    (\<forall>a. ln_next nd = Some a \<longrightarrow> adjacent (ll_head s) ns c a \<and> walk_next (ll_head s) ns a xs vs)"
proof -
  note b = body_list [OF assms(1)]
  obtain nd where nd: "ll_heap s c = Some nd" using body_live [OF assms(1) walk_mem_head [OF assms(3)]] by blast
  have first: "ln_next nd = Some (fst (hd ns))" if "c = ll_head s"
  proof -
    have "vs = []" using walk_mem [OF assms(3)] b(3) that by metis
    then show ?thesis using body_head [OF assms(1,2) assms(4)] assms(5) nd that by auto
  qed
  show ?thesis
    using nd walk_round [OF assms(3) b(1,2) nd first b(3)] by (intro exI [of _ nd]) simp
qed

lemma each_turn_keeps:
  assumes "ll_body ns s" "t < length (ll_pcs s)" "each_turn t (ll_pcs s ! t) s = Some s'"
  shows "ll_body ns s'"
proof -
  note b = body_list [OF assms(1)]
  note ok = body_threads(2) [OF assms(1,2)]
  note res = body_results [OF assms(1)]
  show ?thesis
  proof (cases "ll_pcs s ! t")
    case E_lock
    then show ?thesis
      using lock_keeps [OF assms(1,2), of "E_next (ll_head s) (ll_contents s, [])" "ll_head s"]
        body_live [OF assms(1), of "ll_head s"] assms(3) b(6) by (simp add: walk_start)
  next
    case (E_next c tr)
    then have "snd tr = [] \<Longrightarrow> c = ll_head s" using ok walk_empty by fastforce
    with E_next obtain nd where nd: "ll_heap s c = Some nd" "ln_next nd = None \<longrightarrow> visit_ok (map snd ns) tr"
        "\<forall>a. ln_next nd = Some a \<longrightarrow> adjacent (ll_head s) ns c a \<and> walk_next (ll_head s) ns a (fst tr) (snd tr)"
      using body_round [OF assms(1,2), of c "fst tr" "snd tr"] ok by auto
    have c: "c \<in> insert (ll_head s) (fst ` set ns)" using ok E_next by (auto dest: walk_mem_head)
    have s': "s' = ll_goto t (case ln_next nd of None \<Rightarrow> E_end c tr | Some a \<Rightarrow> E_lock_next c a tr) s"
      using assms(3) E_next nd(1) by (simp add: ll_at_def)
    show ?thesis
      using s' nd(2,3) c E_next goto_keeps [OF assms(1,2), of "E_end c tr"] goto_keeps [OF assms(1,2), of "E_lock_next c _ tr"]
      by (cases "ln_next nd") auto
  next
    case (E_lock_next c a tr)
    moreover from this ok have "a \<in> fst ` set ns" by (auto dest: walk_next_mem)
    ultimately show ?thesis
      using lock_keeps [OF assms(1,2), of "E_release c a tr" a] body_live [OF assms(1), of a] assms(3) ok by auto
  next
    case (E_release c a tr)
    moreover from this ok b(3,4) have "c \<noteq> a" using adjacent_mem(2) by fastforce
    ultimately show ?thesis
      using release_keeps [OF assms(1,2), of "E_visit a tr" c "ll_visits s" "ll_finds s"] assms(3) ok res by auto
  next
    case (E_visit a tr)
    then obtain nd x where "ll_heap s a = Some nd" "ln_data nd = Some x" "walk (ll_head s) ns a (fst tr) (snd tr @ [x])"
      using walk_data [OF _ b(1)] ok by fastforce
    then show ?thesis
      using goto_keeps [OF assms(1,2), of "E_next a (fst tr, snd tr @ [x])"] assms(3) E_visit by (simp add: ll_data_def ll_at_def)
  next
    case (E_end c tr)
    then show ?thesis
      using release_keeps [OF assms(1,2), of Outside c "tr # ll_visits s" "ll_finds s"] assms(3) ok res by simp
  qed (use assms(3) in simp_all)
qed

lemma find_turn_keeps:
  assumes "ll_body ns s" "t < length (ll_pcs s)" "find_turn t (ll_pcs s ! t) s = Some s'"
  shows "ll_body ns s'"
proof -
  note b = body_list [OF assms(1)]
  note ok = body_threads(2) [OF assms(1,2)]
  note res = body_results [OF assms(1)]
  show ?thesis
  proof (cases "ll_pcs s ! t")
    case (D_lock p)
    then show ?thesis
      using lock_keeps [OF assms(1,2), of "D_next p (ll_head s) True (ll_contents s, [])" "ll_head s"]
        body_live [OF assms(1), of "ll_head s"] assms(3) b(6) by (simp add: walk_start)
  next
    case (D_next p c h tr)
    then obtain nd where nd: "ll_heap s c = Some nd" "ln_next nd = None \<longrightarrow> visit_ok (map snd ns) tr"
        "\<forall>a. ln_next nd = Some a \<longrightarrow> adjacent (ll_head s) ns c a \<and> walk_next (ll_head s) ns a (fst tr) (snd tr)"
      using body_round [OF assms(1,2), of c "fst tr" "snd tr"] ok by auto
    have s': "s' = ll_goto t (case ln_next nd of None \<Rightarrow> D_end h (p, fst tr, None) | Some a \<Rightarrow> D_lock_next p a h tr) s"
      using assms(3) D_next nd(1) by (simp add: ll_at_def)
    show ?thesis
      using s' nd(2,3) ok D_next goto_keeps [OF assms(1,2), of "D_end h (p, fst tr, None)"]
        search_none [of "map snd ns" "fst tr" "snd tr" p] goto_keeps [OF assms(1,2), of "D_lock_next p _ h tr"]
      by (cases "ln_next nd") auto
  next
    case (D_lock_next p a h tr)
    moreover from this ok have "a \<in> fst ` set ns" by (auto dest: walk_next_mem)
    ultimately show ?thesis
      using lock_keeps [OF assms(1,2), of "D_unlock_next p a h tr" a] body_live [OF assms(1), of a] assms(3) ok by auto
  next
    case (D_unlock_next p a h tr)
    moreover from this ok b(3) have "a \<noteq> ll_head s" by (auto dest: walk_next_mem)
    ultimately show ?thesis
      using release_keeps [OF assms(1,2), of "D_test p a h tr" a "ll_visits s" "ll_finds s"] assms(3) ok res by auto
  next
    case (D_test p a h tr)
    then obtain nd x where x: "ll_heap s a = Some nd" "ln_data nd = Some x" "walk (ll_head s) ns a (fst tr) (snd tr @ [x])"
      using walk_data [OF _ b(1)] ok by fastforce
    note go = goto_keeps [OF assms(1,2)]
    show ?thesis
      using x(1,2) assms(3) D_test ok x(3) search_found [OF x(3), of p] go [of "D_end h (p, fst tr, Some x)"]
        go [of "D_drop p a (fst tr, snd tr @ [x])"] go [of "D_next p a False (fst tr, snd tr @ [x])"]
      by (auto simp: ll_data_def ll_at_def split: if_splits)
  next
    case (D_drop p a tr)
    then show ?thesis
      using release_keeps [OF assms(1,2), of "D_next p a False tr" "ll_head s" "ll_visits s" "ll_finds s"] assms(3) ok res by auto
  next
    case (D_end h r)
    then show ?thesis
      using release_keeps [OF assms(1,2), of Outside "ll_head s" "ll_visits s" "r # ll_finds s"]
        move_keeps [OF assms(1,2), of Outside "ll_locks s" "ll_global s" "ll_visits s" "r # ll_finds s"]
        assms ok res body_locks [OF assms(1)] by (cases h) (auto simp: locks_ok_same lock_inv_same)
  qed (use assms(3) in simp_all)
qed

lemma or_else_Some: "or_else a b = Some v \<Longrightarrow> a = Some v \<or> b = Some v"
  by (cases a) (auto simp: or_else_def)

lemma ll_turn_Some:
  assumes "ll_turn t s = Some s'"
  obtains "front_turn t (ll_pcs s ! t) s = Some s'" | "back_turn t (ll_pcs s ! t) s = Some s'"
    | "each_turn t (ll_pcs s ! t) s = Some s'" | "find_turn t (ll_pcs s ! t) s = Some s'"
  using assms by (auto simp: ll_turn_def Let_def dest!: or_else_Some)

lemma ll_call_Some:
  assumes "ll_call t pc s = Some s'"
  shows "t < length (ll_pcs s)" "ll_pcs s ! t = Outside" "s' = ll_goto t pc s"
  using assms by (auto simp: ll_call_def split: if_splits ll_pc.splits)

lemma ll_inv_step:
  assumes "ll_inv s" "ll_step l s = Some s'"
  shows "ll_inv s'"
proof -
  obtain ns where b: "ll_body ns s" using assms(1) by (auto simp: ll_inv_def)
  have call: "ll_inv s'" if "ll_call t pc s = Some s'" "pc \<in> {F_alloc x, B_alloc x, E_lock, D_lock p}" for t pc x p
    using goto_keeps [OF b ll_call_Some(1) [OF that(1)], of pc] ll_call_Some(2,3) [OF that(1)] that(2)
    by (auto simp: ll_inv_def)
  show ?thesis
  proof (cases l)
    case (Ll_run t)
    then have "t < length (ll_pcs s)" "ll_turn t s = Some s'" using assms(2) by (auto split: if_splits)
    from this(2) show ?thesis
    proof (cases rule: ll_turn_Some)
      case 1
      then show ?thesis using front_turn_keeps [OF b] \<open>t < length (ll_pcs s)\<close> by blast
    next
      case 2
      then show ?thesis using back_turn_keeps [OF b] \<open>t < length (ll_pcs s)\<close> by blast
    next
      case 3
      then show ?thesis using each_turn_keeps [OF b] \<open>t < length (ll_pcs s)\<close> by (auto simp: ll_inv_def)
    next
      case 4
      then show ?thesis using find_turn_keeps [OF b] \<open>t < length (ll_pcs s)\<close> by (auto simp: ll_inv_def)
    qed
  qed (use assms(2) call in auto)
qed

lemmas ll_defs = ll_goto_def ll_fail_def ll_at_def ll_lock_def ll_release_def ll_lock_global_def ll_alloc_def
  ll_set_heap_def ll_set_tail_def ll_hang_def ll_data_def

lemma ll_step_grows:
  assumes "ll_step l s = Some s'"
  shows "sublist (ll_contents s) (ll_contents s')"
proof -
  have call: "sublist (ll_contents s) (ll_contents s')" if "ll_call t pc s = Some s'" for t pc
    using ll_call_Some(3) [OF that] by (simp add: ll_goto_def)
  have turn: "sublist (ll_contents s) (ll_contents s')"
    if "front_turn t pc s = Some s' \<or> back_turn t pc s = Some s' \<or> each_turn t pc s = Some s' \<or> find_turn t pc s = Some s'" for t pc
    using that by (cases pc) (auto simp: ll_defs sublist_Cons_right split: option.splits if_splits)
  show ?thesis
  proof (cases l)
    case (Ll_run t)
    then have "ll_turn t s = Some s'" using assms by (auto split: if_splits)
    then show ?thesis by (cases rule: ll_turn_Some) (use turn in blast)+
  qed (use assms call in auto)
qed

definition holds_list :: "'a safe_list \<Rightarrow> 'a list \<Rightarrow> bool" where
  "holds_list l xs \<longleftrightarrow> (\<exists>ns. repr l ns \<and> ns \<noteq> [] \<and> map snd ns = xs)"

lemma ll_inv_start:
  assumes "holds_list l xs"
  shows "ll_inv (ll_start n l xs)"
proof -
  obtain ns where r: "repr l ns" "ns \<noteq> []" "map snd ns = xs" using assms by (auto simp: holds_list_def)
  obtain hn where hn: "sl_heap l (sl_head l) = Some hn" "chain (sl_heap l) (ln_next hn) ns"
    using r(1) by (auto simp: repr_def)
  have first: "ln_next hn = Some (fst (hd ns))" using hn(2) r(2) by (cases ns) auto
  have live: "sl_heap l a \<noteq> None" if "a \<in> insert (sl_head l) (fst ` set ns)" for a
    using that hn chain_live [OF hn(2)] by auto
  have "a < sl_fresh l" if "a \<in> insert (sl_head l) (fst ` set ns)" for a
    using live [OF that] r(1) by (meson not_le repr_def)
  then have "list_ok ns (ll_start n l xs)"
    using r hn first
    by (auto simp: list_ok_def ll_start_def some_at_def head_ok_def tail_ok_def repr_def)
  then have "ll_body ns (ll_start n l xs)"
    by (auto simp: ll_body_def threads_ok_def results_ok_def ll_start_def locks_ok_def lock_inv_def owned_ok_def)
  then show ?thesis by (auto simp: ll_inv_def)
qed

interpretation locked_list: invariant_system ll_step "ll_start n l xs"
  "\<lambda>s. holds_list l xs \<longrightarrow> ll_inv s \<and> sublist xs (ll_contents s)"
proof unfold_locales
  show "holds_list l xs \<longrightarrow> ll_inv (ll_start n l xs) \<and> sublist xs (ll_contents (ll_start n l xs))"
    using ll_inv_start by (auto simp: ll_start_def)
  fix s lb s'
  assume "holds_list l xs \<longrightarrow> ll_inv s \<and> sublist xs (ll_contents s)" "ll_step lb s = Some s'"
  then show "holds_list l xs \<longrightarrow> ll_inv s' \<and> sublist xs (ll_contents s')"
    using ll_inv_step [of s lb s'] ll_step_grows [of lb s s'] sublist_order.order_trans [of xs "ll_contents s" "ll_contents s'"]
    by simp
qed

lemma pushed_nonempty: "xs \<noteq> [] \<or> ops \<noteq> [] \<Longrightarrow> pushed ops xs \<noteq> []"
  by (induction ops xs rule: pushed.induct) simp_all

lemma push_all_holds:
  assumes "push_all ops SafeList_new = Inr l" "ops \<noteq> []"
  shows "holds_list l (pushed ops [])"
proof -
  have "\<forall>x ops'. ops \<noteq> Push_back x # ops'" using assms(1) by (auto simp: SafeList_pushBack_def SafeList_new_def)
  then obtain ns where ns: "repr l ns" "map snd ns = pushed ops []"
    using push_all_repr [OF repr_new, of ops] assms(1) by auto
  have "pushed ops [] \<noteq> []" using pushed_nonempty assms(2) by blast
  then have "ns \<noteq> []" using ns(2) by auto
  then show ?thesis using ns by (auto simp: holds_list_def)
qed

subsection \<open>Properties\<close>

text \<open>
  (C11) Any number of threads that insert at both ends, traverse and search concurrently, in every interleaving of the
  single accesses on a list that is not empty at the start: nothing faults, the chain of nodes holds the
  contents, and no element is lost. A \<open>forEach\<close> that has returned saw, in list order, first everything that
  was in the list when it locked the head, and then only elements appended since; a \<open>findFirstIf\<close>
  that has returned gave the first match of such a traversal.
\<close>

theorem locked_list_traversals:
  assumes "push_all ops SafeList_new = Inr l" and "ops \<noteq> []" and "reach ll_step (ll_start n l (pushed ops [])) s"
  shows "ll_fault s = None \<and> sublist (pushed ops []) (ll_contents s) \<and>
    (\<exists>ns. chain (ll_heap s) (Some (fst (hd ns))) ns \<and> map snd ns = ll_contents s) \<and>
    (\<forall>(xs, vs)\<in>set (ll_visits s). prefix xs vs \<and> sublist vs (ll_contents s)) \<and>
    (\<forall>(p, xs, r)\<in>set (ll_finds s). \<exists>zs. sublist (xs @ zs) (ll_contents s) \<and> r = find p (xs @ zs))"
proof -
  have g: "sublist (pushed ops []) (ll_contents s)" and inv: "ll_inv s"
    using locked_list.inv_reach [OF assms(3)] push_all_holds [OF assms(1,2)] by blast+
  obtain ns where b: "ll_body ns s" using inv by (auto simp: ll_inv_def)
  have "ll_fault s = None" "results_ok s" using b by (simp_all add: ll_body_def)
  moreover have "\<exists>ns. chain (ll_heap s) (Some (fst (hd ns))) ns \<and> map snd ns = ll_contents s"
    using body_list(1,6) [OF b] by metis
  moreover have "\<forall>(xs, vs)\<in>set (ll_visits s). prefix xs vs \<and> sublist vs (ll_contents s)"
    using \<open>results_ok s\<close> by (auto simp: results_ok_def visit_ok_def)
  moreover have "\<forall>(p, xs, r)\<in>set (ll_finds s). \<exists>zs. sublist (xs @ zs) (ll_contents s) \<and> r = find p (xs @ zs)"
    using \<open>results_ok s\<close> by (fastforce simp: results_ok_def search_ok_def)
  ultimately show ?thesis using g by blast
qed

text \<open>
  A schedule: a traversal of \<open>[1, 4]\<close> that stands at its first node while another thread puts 2 in front and appends 3,
  and then a search. The traversal is not a snapshot: it sees \<open>[1, 4, 3]\<close>, which the list never was, because 2 was
  in it before 3.
\<close>

definition overtaken_traversal :: "int ll_label list" where
  "overtaken_traversal =
     [Ll_forEach 0] @ replicate 4 (Ll_run 0) @ [Ll_pushFront 1 2] @ replicate 6 (Ll_run 1) @
     [Ll_pushBack 1 3] @ replicate 8 (Ll_run 1) @ replicate 11 (Ll_run 0) @
     [Ll_find 0 (\<lambda>x. 2 < x)] @ replicate 15 (Ll_run 0)"

definition two_elements :: "int safe_list" where
  "two_elements =
     \<lparr>sl_heap = [0 \<mapsto> \<lparr>ln_data = None, ln_next = Some 2\<rparr>, 2 \<mapsto> \<lparr>ln_data = Some 1, ln_next = Some 1\<rparr>,
                 1 \<mapsto> \<lparr>ln_data = Some 4, ln_next = None\<rparr>], sl_fresh = 3, sl_head = 0, sl_tail = Some 1\<rparr>"

lemma push_two_elements: "push_all [Push_front 4, Push_front 1] SafeList_new = Inr two_elements"
  by (simp add: SafeList_pushFront_def SafeList_new_def two_elements_def fun_upd_twist numeral_2_eq_2 numeral_3_eq_3)

lemma overtaken_run:
  "\<exists>s. run_labels ll_step overtaken_traversal (ll_start 2 two_elements [1, 4]) = Some s \<and>
     ll_contents s = [2, 1, 4, 3] \<and> ll_visits s = [([1, 4], [1, 4, 3])] \<and>
     map (\<lambda>(p, xs, r). (xs, r)) (ll_finds s) = [([2, 1, 4, 3], Some 4)]"
  by (simp add: overtaken_traversal_def two_elements_def ll_start_def numeral_eq_Suc ll_call_def ll_turn_def or_else_def ll_defs)

theorem locked_list_traversals_witness:
  "\<exists>s. reach ll_step (ll_start 2 two_elements [1, 4]) s \<and> ll_contents s = [2, 1, 4, 3] \<and> ll_visits s = [([1, 4], [1, 4, 3])] \<and>
     ll_fault s = None \<and> (\<forall>(xs, vs)\<in>set (ll_visits s). prefix xs vs \<and> sublist vs (ll_contents s))"
proof -
  obtain s where s: "run_labels ll_step overtaken_traversal (ll_start 2 two_elements [1, 4]) = Some s"
      "ll_contents s = [2, 1, 4, 3]" "ll_visits s = [([1, 4], [1, 4, 3])]"
    using overtaken_run by blast
  from run_labels_reach [OF s(1)] have r: "reach ll_step (ll_start 2 two_elements (pushed [Push_front 4, Push_front 1] [])) s"
    by simp
  show ?thesis using locked_list_traversals [OF push_two_elements _ r] r s(2,3) by auto
qed

subsection \<open>Progress\<close>

text \<open>The mutex a thread waits for, a node's or the global one.\<close>

fun waits_for :: "nat \<Rightarrow> 'a ll_pc \<Rightarrow> nat option" where
  "waits_for h0 (F_lock x n) = Some h0" | "waits_for h0 (B_lock x n a) = Some a" | "waits_for h0 E_lock = Some h0"
| "waits_for h0 (E_lock_next c a tr) = Some a" | "waits_for h0 (D_lock p) = Some h0"
| "waits_for h0 (D_lock_next p a h tr) = Some a" | "waits_for h0 _ = None"

fun waits_global :: "'a ll_pc \<Rightarrow> bool" where
  "waits_global F_global = True" | "waits_global (B_global x n a) = True" | "waits_global _ = False"

lemma ll_runs:
  assumes "ll_fault s = None" "t < length (ll_pcs s)" "ll_pcs s ! t \<noteq> Outside"
    and "\<And>a. waits_for (ll_head s) (ll_pcs s ! t) = Some a \<Longrightarrow> ll_locks s a = None"
    and "waits_global (ll_pcs s ! t) \<Longrightarrow> ll_global s = None"
  shows "\<exists>s'. ll_step (Ll_run t) s = Some s'"
  using assms
  by (cases "ll_pcs s ! t") (simp_all add: ll_turn_def or_else_def ll_lock_def ll_lock_global_def split: option.split)

text \<open>
  Nodes are locked in list order and the global mutex last: a thread that holds a node waits only for a later node or for
  the global mutex, and the owner of the global mutex does not wait.
\<close>

lemma waits_later:
  assumes "pc_ok h0 ns pc" "waits_for h0 pc = Some a" "c \<in> held h0 pc" "distinct (h0 # map fst ns)"
    and "h0 # map fst ns = pre @ c # post"
  shows "a \<in> set post"
proof -
  have nxt: "a \<in> set post" if adj: "adjacent h0 ns c a"
  proof -
    obtain pre' post' where l: "h0 # map fst ns = pre' @ c # a # post'" using adj unfolding adjacent_def by blast
    have "distinct (pre @ c # post)" using assms(4,5) by metis
    then have "c \<notin> set pre" "c \<notin> set post" by auto
    then have "post = a # post'" using assms(5) l append_Cons_eq_iff [of c pre post pre' "a # post'"] by simp
    then show ?thesis by simp
  qed
  have first: "a \<in> set post" if "c = h0" "a \<in> fst ` set ns"
  proof -
    have "pre = []" using assms(4,5) that(1) by (cases pre) auto
    then show ?thesis using assms(5) that(2) by (metis append_Nil list.inject set_map)
  qed
  show ?thesis
    using assms(1-3) nxt first by (cases pc) (auto dest: walk_next_mem split: if_splits)
qed

text \<open>
  (C12) No deadlock: while some thread is inside a method, some thread can take a step.
\<close>

theorem locked_list_progress:
  assumes "push_all ops SafeList_new = Inr l" and "ops \<noteq> []" and "reach ll_step (ll_start n l (pushed ops [])) s"
    and "t < length (ll_pcs s)" and "ll_pcs s ! t \<noteq> Outside"
  shows "\<exists>u s'. ll_step (Ll_run u) s = Some s'"
proof -
  have "ll_inv s" using locked_list.inv_reach [OF assms(3)] push_all_holds [OF assms(1,2)] by blast
  then obtain ns where b: "ll_body ns s" by (auto simp: ll_inv_def)
  have ok: "ll_fault s = None" using b by (simp add: ll_body_def)
  note locks = body_locks [OF b]
  show ?thesis
  proof (cases "ll_global s")
    case (Some u)
    then have u: "u < length (ll_pcs s)" "holds_global (ll_pcs s ! u)" using locks(2) by (auto simp: lock_inv_def)
    have "\<exists>s'. ll_step (Ll_run u) s = Some s'" by (rule ll_runs [OF ok u(1)]) (use u(2) in \<open>cases "ll_pcs s ! u"; simp\<close>)+
    then show ?thesis by blast
  next
    case None
    show ?thesis
    proof (cases "\<exists>a\<in>set (ll_head s # map fst ns). ll_locks s a \<noteq> None")
      case True
      obtain pre c post where c: "ll_head s # map fst ns = pre @ c # post" "ll_locks s c \<noteq> None" "\<forall>a\<in>set post. ll_locks s a = None"
        using split_list_last_propE [OF True] by (metis (no_types, lifting))
      then obtain u where u: "u < length (ll_pcs s)" "c \<in> held (ll_head s) (ll_pcs s ! u)"
        using locks_ok_holds [OF locks(1)] by blast
      have "ll_locks s a = None" if "waits_for (ll_head s) (ll_pcs s ! u) = Some a" for a
        using waits_later [OF body_threads(2) [OF b u(1)] that u(2) _ c(1)] body_list(3,4) [OF b] c(3) by simp
      then show ?thesis using ll_runs [OF ok u(1)] u(2) None by fastforce
    next
      case False
      have "ll_locks s a = None" for a
      proof (rule ccontr)
        assume "ll_locks s a \<noteq> None"
        moreover from this obtain u where "u < length (ll_pcs s)" "a \<in> held (ll_head s) (ll_pcs s ! u)"
          using locks_ok_holds [OF locks(1)] by blast
        ultimately show False using held_live [OF body_threads(2) [OF b]] False by fastforce
      qed
      then show ?thesis using ll_runs [OF ok assms(4,5)] None by blast
    qed
  qed
qed

theorem locked_list_progress_witness:
  "\<exists>s. reach ll_step (ll_start 1 two_elements [1, 4]) s \<and> ll_pcs s = [F_alloc 7] \<and> (\<exists>u s'. ll_step (Ll_run u) s = Some s')"
proof -
  obtain s where s: "run_labels ll_step [Ll_pushFront 0 7] (ll_start 1 two_elements [1, 4]) = Some s" "ll_pcs s = [F_alloc 7]"
    by (simp add: ll_start_def ll_call_def ll_goto_def)
  note reached = run_labels_reach [OF s(1)]
  then have r: "reach ll_step (ll_start 1 two_elements (pushed [Push_front 4, Push_front 1] [])) s" by simp
  have "\<exists>u s'. ll_step (Ll_run u) s = Some s'"
    by (rule locked_list_progress [OF push_two_elements _ r, of 0]) (simp_all add: s(2))
  with reached s(2) show ?thesis by fast
qed

subsection \<open>Data races\<close>

text \<open>The node whose \<open>next_\<close> the next step of a thread reads or writes.\<close>

fun reads_next :: "'a ll_pc \<Rightarrow> nat option" where
  "reads_next (E_next c tr) = Some c" | "reads_next (D_next p c h tr) = Some c" | "reads_next _ = None"

fun writes_next :: "'a locked_list \<Rightarrow> 'a ll_pc \<Rightarrow> nat option" where
  "writes_next s (F_take x n) = Some (ll_head s)" | "writes_next s (F_put x n) = Some (ll_head s)"
| "writes_next s (B_write x n a) = ll_tail s" | "writes_next s _ = None"

definition next_race :: "thread_id \<Rightarrow> thread_id \<Rightarrow> 'a locked_list \<Rightarrow> bool" where
  "next_race t u s \<longleftrightarrow>
     t \<noteq> u \<and> ll_fault s = None \<and> writes_next s (ll_pcs s ! t) \<noteq> None \<and>
     writes_next s (ll_pcs s ! t) = reads_next (ll_pcs s ! u) \<and>
     ll_step (Ll_run t) s \<noteq> None \<and> ll_step (Ll_run u) s \<noteq> None"

text \<open>
  \<open>pushBack\<close> picks the mutex it locks by a read of \<open>tail_\<close> without \<open>global_mt_\<close>, and then writes to the node that \<open>tail_\<close>
  has become: two of them and a \<open>forEach\<close> that holds the mutex of that node race on its \<open>next_\<close>. \<open>findFirstIf\<close> reads
  \<open>next_\<close> without any mutex and races with a single \<open>pushBack\<close>. The theorems above are about the interleavings of these
  accesses; the C++ standard gives such an execution no meaning.
\<close>

definition stale_tail_schedule :: "int ll_label list" where
  "stale_tail_schedule =
     [Ll_pushBack 1 5, Ll_pushBack 2 6, Ll_run 1, Ll_run 1, Ll_run 2, Ll_run 2] @ replicate 6 (Ll_run 1) @
     [Ll_forEach 0] @ replicate 13 (Ll_run 0) @ [Ll_run 2, Ll_run 2]"

definition unlocked_search_schedule :: "int ll_label list" where
  "unlocked_search_schedule =
     [Ll_find 0 (\<lambda>x. 9 < x)] @ replicate 10 (Ll_run 0) @ [Ll_pushBack 1 5] @ replicate 4 (Ll_run 1)"

theorem pushBack_races_with_forEach:
  "\<exists>s. reach ll_step (ll_start 3 two_elements [1, 4]) s \<and> next_race 2 0 s"
proof -
  have "\<exists>s. run_labels ll_step stale_tail_schedule (ll_start 3 two_elements [1, 4]) = Some s \<and> next_race 2 0 s"
    by (simp add: stale_tail_schedule_def two_elements_def ll_start_def numeral_eq_Suc ll_call_def ll_turn_def or_else_def
        ll_defs next_race_def)
  then show ?thesis using run_labels_reach [where step = ll_step] by fast
qed

theorem findFirstIf_races_with_pushBack:
  "\<exists>s. reach ll_step (ll_start 2 two_elements [1, 4]) s \<and> next_race 1 0 s"
proof -
  have "\<exists>s. run_labels ll_step unlocked_search_schedule (ll_start 2 two_elements [1, 4]) = Some s \<and> next_race 1 0 s"
    by (simp add: unlocked_search_schedule_def two_elements_def ll_start_def numeral_eq_Suc ll_call_def ll_turn_def or_else_def
        ll_defs next_race_def)
  then show ?thesis using run_labels_reach [where step = ll_step] by fast
qed

end
