(* ===== verification/Safe_Map.thy ===== *)
theory Safe_Map
  imports Cxx_Prelude
begin

text \<open>
  \<open>include/data_struct/SafeMap.hpp\<close>: a hash table of buckets, each a \<open>std::list\<close> of pairs
  behind its own reader-writer lock. \<open>std::hash<Key>\<close> is the parameter \<open>hasher\<close>; nothing is
  assumed of it. An operation locks the one bucket its key hashes to, and operations on
  different buckets touch different lists; here each operation is one step, and \<open>Locked_Map\<close> justifies that.

  The contract of a key-value store is the locale \<open>map_store\<close>: the operations implement update,
  deletion and lookup of a map, and every sequence of them then returns the results of the map.
\<close>

subsection \<open>Key-value stores\<close>

datatype ('k, 'v) map_op = Put 'k 'v | Del 'k | Get 'k 'v

fun map_ref :: "('k, 'v) map_op list \<Rightarrow> ('k \<rightharpoonup> 'v) \<Rightarrow> 'v list \<times> ('k \<rightharpoonup> 'v)" where
  "map_ref [] m = ([], m)"
| "map_ref (Put k v # ops) m = map_ref ops (m(k \<mapsto> v))"
| "map_ref (Del k # ops) m = map_ref ops (m(k := None))"
| "map_ref (Get k d # ops) m =
     (let (vs, m') = map_ref ops m in ((case m k of None \<Rightarrow> d | Some v \<Rightarrow> v) # vs, m'))"

fun map_run ::
  "('k \<Rightarrow> 'v \<Rightarrow> 's \<Rightarrow> 's result) \<Rightarrow> ('k \<Rightarrow> 's \<Rightarrow> 's result) \<Rightarrow> ('k \<Rightarrow> 'v \<Rightarrow> 's \<Rightarrow> 'v result) \<Rightarrow>
   ('k, 'v) map_op list \<Rightarrow> 's \<Rightarrow> ('v list \<times> 's) result" where
  "map_run put del val [] s = Inr ([], s)"
| "map_run put del val (Put k v # ops) s = and_then (put k v s) (map_run put del val ops)"
| "map_run put del val (Del k # ops) s = and_then (del k s) (map_run put del val ops)"
| "map_run put del val (Get k d # ops) s =
     and_then (val k d s) (\<lambda>v. and_then (map_run put del val ops s) (\<lambda>(vs, t). Inr (v # vs, t)))"

locale map_store =
  fixes put :: "'k \<Rightarrow> 'v \<Rightarrow> 's \<Rightarrow> 's result"
    and del :: "'k \<Rightarrow> 's \<Rightarrow> 's result"
    and val :: "'k \<Rightarrow> 'v \<Rightarrow> 's \<Rightarrow> 'v result"
    and lookup :: "'s \<Rightarrow> 'k \<rightharpoonup> 'v"
    and invar :: "'s \<Rightarrow> bool"
  assumes put_law: "invar s \<Longrightarrow> \<exists>s'. put k v s = Inr s' \<and> invar s' \<and> lookup s' = (lookup s)(k \<mapsto> v)"
    and del_law: "invar s \<Longrightarrow> \<exists>s'. del k s = Inr s' \<and> invar s' \<and> lookup s' = (lookup s)(k := None)"
    and val_law: "invar s \<Longrightarrow> val k d s = Inr (case lookup s k of None \<Rightarrow> d | Some v \<Rightarrow> v)"
begin

lemma run_refines:
  "invar s \<Longrightarrow> \<exists>t. map_run put del val ops s = Inr (fst (map_ref ops (lookup s)), t) \<and> invar t \<and>
     lookup t = snd (map_ref ops (lookup s))"
proof (induction ops arbitrary: s)
  case Nil
  then show ?case by simp
next
  case (Cons op ops)
  show ?case
  proof (cases op)
    case (Put k v)
    then show ?thesis using put_law [OF Cons.prems, of k v] Cons.IH by fastforce
  next
    case (Del k)
    then show ?thesis using del_law [OF Cons.prems, of k] Cons.IH by fastforce
  next
    case (Get k d)
    then show ?thesis
      using val_law [OF Cons.prems, of k d] Cons.IH [OF Cons.prems]
      by (auto simp: Let_def split: prod.splits)
  qed
qed

end

subsection \<open>Buckets\<close>

type_synonym ('k, 'v) bucket = "('k \<times> 'v) list"

text \<open>\<open>std::find_if\<close> over the list: the position of the first entry with the key.\<close>

fun findEntryFor :: "'k \<Rightarrow> ('k, 'v) bucket \<Rightarrow> nat option" where
  "findEntryFor k [] = None"
| "findEntryFor k (e # es) = (if fst e = k then Some 0 else map_option Suc (findEntryFor k es))"

definition Bucket_valueFor :: "'k \<Rightarrow> 'v \<Rightarrow> ('k, 'v) bucket \<Rightarrow> 'v" where
  "Bucket_valueFor k d b = (case findEntryFor k b of None \<Rightarrow> d | Some i \<Rightarrow> snd (b ! i))"

definition Bucket_addOrUpdateFor :: "'k \<Rightarrow> 'v \<Rightarrow> ('k, 'v) bucket \<Rightarrow> ('k, 'v) bucket" where
  "Bucket_addOrUpdateFor k v b =
     (case findEntryFor k b of None \<Rightarrow> b @ [(k, v)] | Some i \<Rightarrow> b[i := (fst (b ! i), v)])"

definition Bucket_romoveFor :: "'k \<Rightarrow> ('k, 'v) bucket \<Rightarrow> ('k, 'v) bucket" where
  "Bucket_romoveFor k b =
     (case findEntryFor k b of None \<Rightarrow> b | Some i \<Rightarrow> take i b @ drop (Suc i) b)"

lemma findEntryFor_Some:
  "findEntryFor k b = Some i \<Longrightarrow> i < length b \<and> fst (b ! i) = k \<and> map_of b k = Some (snd (b ! i))"
  by (induction b arbitrary: i) (auto split: if_splits)

lemma findEntryFor_None: "findEntryFor k b = None \<longleftrightarrow> k \<notin> fst ` set b"
  by (induction b) auto

lemma findEntryFor_lookup:
  "map_of b k = (case findEntryFor k b of None \<Rightarrow> None | Some i \<Rightarrow> Some (snd (b ! i)))"
  by (auto split: option.splits dest: findEntryFor_Some simp: findEntryFor_None map_of_eq_None_iff)

lemma Bucket_valueFor_lookup:
  "Bucket_valueFor k d b = (case map_of b k of None \<Rightarrow> d | Some v \<Rightarrow> v)"
  by (auto simp: Bucket_valueFor_def findEntryFor_lookup split: option.splits)

lemma Bucket_addOrUpdateFor_Cons:
  "Bucket_addOrUpdateFor k v (e # b) =
     (if fst e = k then (k, v) # b else e # Bucket_addOrUpdateFor k v b)"
  by (cases e) (auto simp: Bucket_addOrUpdateFor_def split: option.splits)

lemma Bucket_romoveFor_Cons:
  "Bucket_romoveFor k (e # b) = (if fst e = k then b else e # Bucket_romoveFor k b)"
  by (auto simp: Bucket_romoveFor_def split: option.splits)

lemma keys_addOrUpdateFor:
  "map fst (Bucket_addOrUpdateFor k v b) = (if k \<in> fst ` set b then map fst b else map fst b @ [k])"
proof (induction b)
  case Nil
  then show ?case by (simp add: Bucket_addOrUpdateFor_def)
next
  case (Cons e b)
  then show ?case by (auto simp: Bucket_addOrUpdateFor_Cons)
qed

lemma set_keys_addOrUpdateFor: "fst ` set (Bucket_addOrUpdateFor k v b) = insert k (fst ` set b)"
  using arg_cong [OF keys_addOrUpdateFor, of set k v b] by (auto split: if_splits)

lemma lookup_addOrUpdateFor: "map_of (Bucket_addOrUpdateFor k v b) = (map_of b)(k \<mapsto> v)"
proof (induction b)
  case Nil
  then show ?case by (simp add: Bucket_addOrUpdateFor_def)
next
  case (Cons e b)
  then show ?case by (cases e) (auto simp: Bucket_addOrUpdateFor_Cons)
qed

lemma set_romoveFor: "set (Bucket_romoveFor k b) \<subseteq> set b"
proof (induction b)
  case Nil
  then show ?case by (simp add: Bucket_romoveFor_def)
next
  case (Cons e b)
  then show ?case by (auto simp: Bucket_romoveFor_Cons)
qed

lemma distinct_romoveFor: "distinct (map fst b) \<Longrightarrow> distinct (map fst (Bucket_romoveFor k b))"
proof (induction b)
  case Nil
  then show ?case by (simp add: Bucket_romoveFor_def)
next
  case (Cons e b)
  then show ?case using set_romoveFor [of k b] by (auto simp: Bucket_romoveFor_Cons)
qed

lemma lookup_romoveFor:
  "distinct (map fst b) \<Longrightarrow> map_of (Bucket_romoveFor k b) = (map_of b)(k := None)"
proof (induction b)
  case Nil
  then show ?case by (simp add: Bucket_romoveFor_def fun_eq_iff)
next
  case (Cons e b)
  then show ?case
    by (cases e) (auto simp: Bucket_romoveFor_Cons fun_eq_iff map_of_eq_None_iff)
qed

subsection \<open>The map\<close>

record ('k, 'v) safe_map =
  sm_buckets :: "('k, 'v) bucket list"
  sm_hasher :: "'k \<Rightarrow> size_t"

text \<open>
  The constructor takes an \<open>int\<close>: a negative number converts to a size beyond
  \<open>max_size()\<close> and the vector throws, and 0 gives a map without a bucket.
\<close>

definition SafeMap_new :: "int \<Rightarrow> ('k \<Rightarrow> size_t) \<Rightarrow> ('k, 'v) safe_map result" where
  "SafeMap_new num_buckets hasher =
     (if num_buckets < 0 then Inl Length_Error
      else Inr \<lparr>sm_buckets = replicate (nat num_buckets) [], sm_hasher = hasher\<rparr>)"

definition getBucket :: "('k, 'v) safe_map \<Rightarrow> 'k \<Rightarrow> nat result" where
  "getBucket m k =
     (if sm_buckets m = [] then Inl Division_By_Zero
      else Inr (unat (sm_hasher m k mod of_nat (length (sm_buckets m)))))"

definition SafeMap_valueFor :: "'k \<Rightarrow> 'v \<Rightarrow> ('k, 'v) safe_map \<Rightarrow> 'v result" where
  "SafeMap_valueFor k d m =
     and_then (getBucket m k) (\<lambda>i. Inr (Bucket_valueFor k d (sm_buckets m ! i)))"

definition SafeMap_addOrUpdateFor :: "'k \<Rightarrow> 'v \<Rightarrow> ('k, 'v) safe_map \<Rightarrow> ('k, 'v) safe_map result" where
  "SafeMap_addOrUpdateFor k v m =
     and_then (getBucket m k) (\<lambda>i. Inr (m\<lparr>sm_buckets :=
       (sm_buckets m)[i := Bucket_addOrUpdateFor k v (sm_buckets m ! i)]\<rparr>))"

definition SafeMap_removeFor :: "'k \<Rightarrow> ('k, 'v) safe_map \<Rightarrow> ('k, 'v) safe_map result" where
  "SafeMap_removeFor k m =
     and_then (getBucket m k) (\<lambda>i. Inr (m\<lparr>sm_buckets :=
       (sm_buckets m)[i := Bucket_romoveFor k (sm_buckets m ! i)]\<rparr>))"

text \<open>\<open>std::map::insert\<close> keeps an entry that is already there.\<close>

definition map_insert :: "'k \<times> 'v \<Rightarrow> ('k \<rightharpoonup> 'v) \<Rightarrow> ('k \<rightharpoonup> 'v)" where
  "map_insert e m = (case m (fst e) of None \<Rightarrow> m(fst e \<mapsto> snd e) | Some _ \<Rightarrow> m)"

definition SafeMap_getMap :: "('k, 'v) safe_map \<Rightarrow> ('k \<rightharpoonup> 'v)" where
  "SafeMap_getMap m = fold (fold map_insert) (sm_buckets m) Map.empty"

text \<open>
  The abstract map, and the invariant: there is a bucket, the number of buckets fits a
  \<open>size_t\<close>, no bucket has two entries with one key, and an entry is in the bucket of its key.
\<close>

definition bucket_index :: "('k, 'v) safe_map \<Rightarrow> 'k \<Rightarrow> nat" where
  "bucket_index m k = unat (sm_hasher m k mod of_nat (length (sm_buckets m)))"

definition sm_lookup :: "('k, 'v) safe_map \<Rightarrow> ('k \<rightharpoonup> 'v)" where
  "sm_lookup m k = map_of (sm_buckets m ! bucket_index m k) k"

definition sm_inv :: "('k, 'v) safe_map \<Rightarrow> bool" where
  "sm_inv m \<longleftrightarrow> sm_buckets m \<noteq> [] \<and> length (sm_buckets m) < 2 ^ 64 \<and>
     (\<forall>i < length (sm_buckets m). distinct (map fst (sm_buckets m ! i)) \<and>
        (\<forall>k \<in> fst ` set (sm_buckets m ! i). bucket_index m k = i))"

lemma bucket_index_less: "sm_inv m \<Longrightarrow> bucket_index m k < length (sm_buckets m)"
  by (simp add: sm_inv_def bucket_index_def unat_mod_distrib unat_of_nat)

lemma getBucket_index: "sm_inv m \<Longrightarrow> getBucket m k = Inr (bucket_index m k)"
  by (simp add: getBucket_def bucket_index_def sm_inv_def)

text \<open>One lemma for the two updates: a bucket is replaced by another with the right entries.\<close>

lemma replace_bucket:
  fixes m :: "('k, 'v) safe_map" and k :: 'k and b :: "('k, 'v) bucket"
  defines "i \<equiv> bucket_index m k"
  defines "m' \<equiv> m\<lparr>sm_buckets := (sm_buckets m)[i := b]\<rparr>"
  assumes inv: "sm_inv m" and dist: "distinct (map fst b)"
    and keys: "fst ` set b \<subseteq> insert k (fst ` set (sm_buckets m ! i))"
    and look: "map_of b = (map_of (sm_buckets m ! i))(k := v)"
  shows "sm_inv m'" "sm_lookup m' = (sm_lookup m)(k := v)"
proof -
  have i: "i < length (sm_buckets m)" unfolding i_def using inv by (rule bucket_index_less)
  have idx: "bucket_index m' k' = bucket_index m k'" for k'
    by (simp add: bucket_index_def m'_def)
  have "\<forall>k' \<in> fst ` set (sm_buckets m ! i). bucket_index m k' = i"
    using inv i by (simp add: sm_inv_def)
  then have "bucket_index m k' = i" if "k' \<in> fst ` set b" for k'
    using that keys i_def by blast
  with inv i dist show "sm_inv m'"
    unfolding sm_inv_def idx by (auto simp: m'_def nth_list_update)
  have "sm_lookup m' k' = ((sm_lookup m)(k := v)) k'" for k'
    unfolding sm_lookup_def idx using look i
    by (cases "bucket_index m k' = i") (auto simp: m'_def sm_lookup_def i_def)
  then show "sm_lookup m' = (sm_lookup m)(k := v)" by (rule ext)
qed

interpretation sm: map_store SafeMap_addOrUpdateFor SafeMap_removeFor SafeMap_valueFor sm_lookup sm_inv
proof (unfold_locales, goal_cases)
  case (1 m k v)
  let ?b = "sm_buckets m ! bucket_index m k"
  have "distinct (map fst ?b)" using 1 bucket_index_less [OF 1] by (simp add: sm_inv_def)
  then have "distinct (map fst (Bucket_addOrUpdateFor k v ?b))"
    by (auto simp: keys_addOrUpdateFor)
  from replace_bucket [where k = k and v = "Some v", OF 1 this] show ?case
    by (simp add: SafeMap_addOrUpdateFor_def getBucket_index [OF 1] set_keys_addOrUpdateFor
        lookup_addOrUpdateFor)
next
  case (2 m k)
  let ?b = "sm_buckets m ! bucket_index m k"
  have d: "distinct (map fst ?b)" using 2 bucket_index_less [OF 2] by (simp add: sm_inv_def)
  then have "distinct (map fst (Bucket_romoveFor k ?b))" by (rule distinct_romoveFor)
  from replace_bucket [OF 2 this _ lookup_romoveFor [OF d]] show ?case
    using set_romoveFor [of k ?b] by (auto simp: SafeMap_removeFor_def getBucket_index [OF 2])
next
  case (3 m k d)
  then show ?case
    by (simp add: SafeMap_valueFor_def getBucket_index Bucket_valueFor_lookup sm_lookup_def)
qed

subsection \<open>Properties\<close>

lemma fold_map_insert:
  "distinct (map fst b) \<Longrightarrow> fold map_insert b m = map_of b ++ m"
proof (induction b arbitrary: m)
  case Nil
  then show ?case by simp
next
  case (Cons e b)
  then have "fold map_insert (e # b) m = map_of b ++ map_insert e m" by simp
  also have "\<dots> = map_of (e # b) ++ m"
    using Cons.prems
    by (cases e) (auto simp: fun_eq_iff map_insert_def map_add_def map_of_eq_None_iff split: option.splits)
  finally show ?case .
qed

lemma fold_buckets:
  assumes "\<And>b. b \<in> set bs \<Longrightarrow> distinct (map fst b)"
  shows "fold (fold map_insert) bs m k =
    (case m k of Some v \<Rightarrow> Some v | None \<Rightarrow>
       (case List.find (\<lambda>b. k \<in> fst ` set b) bs of None \<Rightarrow> None | Some b \<Rightarrow> map_of b k))"
  using assms
proof (induction bs arbitrary: m)
  case Nil
  then show ?case by (simp split: option.splits)
next
  case (Cons b bs)
  then have IH: "fold (fold map_insert) (b # bs) m k = (case (map_of b ++ m) k of Some v \<Rightarrow> Some v | None \<Rightarrow>
       (case List.find (\<lambda>b. k \<in> fst ` set b) bs of None \<Rightarrow> None | Some b \<Rightarrow> map_of b k))"
    by (simp add: fold_map_insert)
  show ?case
  proof (cases "k \<in> fst ` set b")
    case True
    then obtain v where "map_of b k = Some v" by (metis map_of_eq_None_iff option.exhaust)
    with IH True show ?thesis by (simp add: map_add_def split: option.splits)
  next
    case False
    then have "map_of b k = None" by (simp add: map_of_eq_None_iff)
    with IH False show ?thesis by (simp add: map_add_def split: option.splits)
  qed
qed

lemma find_bucket:
  assumes "sm_inv m"
  shows "List.find (\<lambda>b. k \<in> fst ` set b) (sm_buckets m) =
    (let b = sm_buckets m ! bucket_index m k in if k \<in> fst ` set b then Some b else None)"
proof (cases "List.find (\<lambda>b. k \<in> fst ` set b) (sm_buckets m)")
  case None
  then show ?thesis
    using bucket_index_less [OF assms, of k] by (auto simp: find_None_iff Let_def)
next
  case (Some b)
  then obtain i where "i < length (sm_buckets m)" "b = sm_buckets m ! i" "k \<in> fst ` set b"
    by (auto simp: find_Some_iff)
  moreover from this have "bucket_index m k = i" using assms by (auto simp: sm_inv_def)
  ultimately show ?thesis using Some by (simp add: Let_def)
qed

lemma getMap_lookup: "sm_inv m \<Longrightarrow> SafeMap_getMap m = sm_lookup m"
proof
  fix k assume inv: "sm_inv m"
  have "distinct (map fst b)" if "b \<in> set (sm_buckets m)" for b
    using that inv by (auto simp: sm_inv_def in_set_conv_nth)
  then have "SafeMap_getMap m k =
      (case List.find (\<lambda>b. k \<in> fst ` set b) (sm_buckets m) of None \<Rightarrow> None | Some b \<Rightarrow> map_of b k)"
    by (simp add: SafeMap_getMap_def fold_buckets)
  also have "\<dots> = sm_lookup m k"
    using map_of_eq_None_iff [of "sm_buckets m ! bucket_index m k" k]
    by (simp add: find_bucket [OF inv] Let_def sm_lookup_def eq_commute [of None])
  finally show "SafeMap_getMap m k = sm_lookup m k" .
qed

lemma SafeMap_new_inv:
  assumes "0 < n" "n < 2 ^ 31"
  shows "\<exists>m. SafeMap_new n h = Inr m \<and> sm_inv m \<and> sm_lookup m = Map.empty"
proof -
  let ?m = "\<lparr>sm_buckets = replicate (nat n) [], sm_hasher = h\<rparr> :: ('a, 'b) safe_map"
  have inv: "sm_inv ?m" using assms by (simp add: sm_inv_def nat_less_iff)
  then have "sm_lookup ?m = Map.empty"
    using bucket_index_less [OF inv] by (simp add: sm_lookup_def fun_eq_iff)
  with inv show ?thesis using assms by (simp add: SafeMap_new_def)
qed

text \<open>
  \<open>SafeMap\<close> implements a map, for every hash function and every positive number of
  buckets that an \<open>int\<close> can hold: each sequence of \<open>addOrUpdateFor\<close>, \<open>removeFor\<close> and
  \<open>valueFor\<close> on a new \<open>SafeMap\<close> returns the values the mathematical map gives (the default for
  an absent key), and \<open>getMap\<close> afterwards returns that map, no entry lost to a hash collision.
\<close>

theorem SafeMap_refines_map:
  fixes h :: "'k \<Rightarrow> size_t" and ops :: "('k, 'v) map_op list"
  assumes "0 < n" "n < 2 ^ 31"
  shows "\<exists>m t. SafeMap_new n h = Inr m \<and>
      map_run SafeMap_addOrUpdateFor SafeMap_removeFor SafeMap_valueFor ops m
        = Inr (fst (map_ref ops Map.empty), t) \<and>
      SafeMap_getMap t = snd (map_ref ops Map.empty)"
proof -
  obtain m :: "('k, 'v) safe_map" where m: "SafeMap_new n h = Inr m" "sm_inv m" "sm_lookup m = Map.empty"
    using SafeMap_new_inv [OF assms] by blast
  with sm.run_refines [OF m(2), of ops] show ?thesis by (auto simp: getMap_lookup)
qed

theorem SafeMap_refines_map_witness:
  "(0::int) < 2 \<and> (2::int) < 2 ^ 31 \<and>
   (\<exists>m t. SafeMap_new 2 (\<lambda>k::nat. of_nat k) = Inr m \<and>
      map_run SafeMap_addOrUpdateFor SafeMap_removeFor SafeMap_valueFor
        [Put 1 ''a'', Put 3 ''b'', Get 1 ''x'', Put 1 ''c'', Del 3, Get 3 ''x'', Get 1 ''x''] m
        = Inr ([''a'', ''x'', ''c''], t) \<and> SafeMap_getMap t = [1 \<mapsto> ''c''])"
  using SafeMap_refines_map [of 2 "\<lambda>k::nat. of_nat k"
    "[Put 1 ''a'', Put 3 ''b'', Get 1 ''x'', Put 1 ''c'', Del 3, Get 3 ''x'', Get 1 ''x'']"]
  by (simp add: Let_def fun_upd_twist)

text \<open>
  The degenerate constructor arguments: with a negative number of buckets the constructor
  throws, and with 0 buckets it succeeds and every later \<open>valueFor\<close>, \<open>addOrUpdateFor\<close> and
  \<open>removeFor\<close> divides by zero.
\<close>

theorem SafeMap_without_buckets:
  fixes h :: "'k \<Rightarrow> size_t" and v :: 'v
  shows "(n < 0 \<longrightarrow> SafeMap_new n h = (Inl Length_Error :: ('k, 'v) safe_map result)) \<and>
   (\<exists>m :: ('k, 'v) safe_map. SafeMap_new 0 h = Inr m \<and> SafeMap_valueFor k d m = Inl Division_By_Zero \<and>
      SafeMap_addOrUpdateFor k v m = Inl Division_By_Zero \<and> SafeMap_removeFor k m = Inl Division_By_Zero)"
  by (simp add: SafeMap_new_def SafeMap_valueFor_def SafeMap_addOrUpdateFor_def SafeMap_removeFor_def
      getBucket_def)

theorem SafeMap_without_buckets_witness:
  "SafeMap_new (- 1) (\<lambda>k::nat. 0) = (Inl Length_Error :: (nat, nat) safe_map result)"
  using SafeMap_without_buckets [of "- 1" "\<lambda>k::nat. 0" 0 "0::nat" "0::nat"] by simp

end
