(* ===== verification/Locked_Map.thy ===== *)
theory Locked_Map
  imports Safe_Map
begin

text \<open>
  \<open>SafeMap\<close> of \<open>include/data_struct/SafeMap.hpp\<close> under concurrency: each bucket has a \<open>std::shared_mutex\<close>, which
  \<open>valueFor\<close> locks shared and \<open>addOrUpdateFor\<close> and \<open>removeFor\<close> lock exclusively, and \<open>getMap\<close> locks all of
  them one after the other before it copies. Each lock, the search in the bucket, the access to the entry it
  found, the copy of a bucket and each unlock is a step here; the buckets are those of \<open>Safe_Map\<close>, where each
  method is one step.
\<close>

record shared_mutex =
  sx_owner :: "thread_id option"
  sx_sharers :: "thread_id list"

definition try_lock_unique :: "thread_id \<Rightarrow> shared_mutex \<Rightarrow> shared_mutex option" where
  "try_lock_unique t x =
     (if sx_owner x = None \<and> sx_sharers x = [] then Some (x\<lparr>sx_owner := Some t\<rparr>) else None)"

definition try_lock_shared :: "thread_id \<Rightarrow> shared_mutex \<Rightarrow> shared_mutex option" where
  "try_lock_shared t x = (if sx_owner x = None then Some (x\<lparr>sx_sharers := t # sx_sharers x\<rparr>) else None)"

definition unlock_unique :: "shared_mutex \<Rightarrow> shared_mutex" where
  "unlock_unique x = x\<lparr>sx_owner := None\<rparr>"

definition unlock_shared :: "thread_id \<Rightarrow> shared_mutex \<Rightarrow> shared_mutex" where
  "unlock_shared t x = x\<lparr>sx_sharers := remove1 t (sx_sharers x)\<rparr>"

text \<open>
  What an operation did, as recorded when it takes effect: the history of the map. An operation on a key is a
  \<open>map_op\<close> of \<open>Safe_Map\<close>.
\<close>

datatype ('k, 'v) map_event = Did_put 'k 'v | Did_del 'k | Did_get 'k 'v 'v | Did_getMap "'k \<rightharpoonup> 'v"

fun op_key :: "('k, 'v) map_op \<Rightarrow> 'k" where
  "op_key (Put k v) = k" | "op_key (Del k) = k" | "op_key (Get k d) = k"

fun is_reader :: "('k, 'v) map_op \<Rightarrow> bool" where
  "is_reader (Get k d) = True" | "is_reader _ = False"

text \<open>The access of a bucket operation to the entry that \<open>findEntryFor\<close> has returned.\<close>

fun entry_access :: "('k, 'v) map_op \<Rightarrow> nat option \<Rightarrow> ('k, 'v) bucket \<Rightarrow> ('k, 'v) bucket \<times> ('k, 'v) map_event" where
  "entry_access (Put k v) item b =
     ((case item of None \<Rightarrow> b @ [(k, v)] | Some i \<Rightarrow> b[i := (fst (b ! i), v)]), Did_put k v)"
| "entry_access (Del k) item b =
     ((case item of None \<Rightarrow> b | Some i \<Rightarrow> take i b @ drop (Suc i) b), Did_del k)"
| "entry_access (Get k d) item b =
     (b, Did_get k d (case item of None \<Rightarrow> d | Some i \<Rightarrow> snd (b ! i)))"

text \<open>
  Positions in an operation on bucket \<open>i\<close> (\<open>K\<close>) and in \<open>getMap\<close> (\<open>S\<close>, with the bucket that comes next).
\<close>

datatype ('k, 'v) lm_pc =
    Resting
  | K_lock "('k, 'v) map_op" nat | K_find "('k, 'v) map_op" nat | K_access "('k, 'v) map_op" nat "nat option"
  | K_unlock "('k, 'v) map_op" nat "('k, 'v) map_event"
  | S_lock nat | S_copy nat "'k \<rightharpoonup> 'v" | S_unlock nat "('k, 'v) map_event"

record ('k, 'v) locked_map =
  lm_map :: "('k, 'v) safe_map"
  lm_mutexes :: "nat \<Rightarrow> shared_mutex"
  lm_pcs :: "('k, 'v) lm_pc list"
  lm_log :: "(thread_id \<times> ('k, 'v) map_event) list"
  lm_returned :: "(thread_id \<times> ('k, 'v) map_event) list"
  lm_fault :: "cxx_fault option"

abbreviation lm_buckets :: "('k, 'v) locked_map \<Rightarrow> ('k, 'v) bucket list" where
  "lm_buckets s \<equiv> sm_buckets (lm_map s)"

definition lm_goto :: "thread_id \<Rightarrow> ('k, 'v) lm_pc \<Rightarrow> ('k, 'v) locked_map \<Rightarrow> ('k, 'v) locked_map" where
  "lm_goto t pc s = s\<lparr>lm_pcs := (lm_pcs s)[t := pc]\<rparr>"

definition lm_set_mutex :: "nat \<Rightarrow> shared_mutex \<Rightarrow> ('k, 'v) locked_map \<Rightarrow> ('k, 'v) locked_map" where
  "lm_set_mutex i x s = s\<lparr>lm_mutexes := (lm_mutexes s)(i := x)\<rparr>"

definition lm_did :: "thread_id \<Rightarrow> ('k, 'v) map_event \<Rightarrow> ('k, 'v) locked_map \<Rightarrow> ('k, 'v) locked_map" where
  "lm_did t e s = s\<lparr>lm_log := lm_log s @ [(t, e)]\<rparr>"

definition lm_return :: "thread_id \<Rightarrow> ('k, 'v) map_event \<Rightarrow> ('k, 'v) locked_map \<Rightarrow> ('k, 'v) locked_map" where
  "lm_return t e s = lm_goto t Resting (s\<lparr>lm_returned := lm_returned s @ [(t, e)]\<rparr>)"

text \<open>\<open>valueFor\<close>, \<open>addOrUpdateFor\<close> and \<open>romoveFor\<close> of a bucket, which differ in the lock and in the access.\<close>

fun bucket_turn :: "thread_id \<Rightarrow> ('k, 'v) lm_pc \<Rightarrow> ('k, 'v) locked_map \<Rightarrow> ('k, 'v) locked_map option" where
  "bucket_turn t (K_lock op i) s =
     map_option (\<lambda>x. lm_goto t (K_find op i) (lm_set_mutex i x s))
       ((if is_reader op then try_lock_shared t else try_lock_unique t) (lm_mutexes s i))"
| "bucket_turn t (K_find op i) s =
     Some (lm_goto t (K_access op i (findEntryFor (op_key op) (lm_buckets s ! i))) s)"
| "bucket_turn t (K_access op i item) s =
     (let (b, e) = entry_access op item (lm_buckets s ! i) in
      Some (lm_goto t (K_unlock op i e)
        (lm_did t e (s\<lparr>lm_map := (lm_map s)\<lparr>sm_buckets := (lm_buckets s)[i := b]\<rparr>\<rparr>))))"
| "bucket_turn t (K_unlock op i e) s =
     Some (lm_return t e
       (lm_set_mutex i ((if is_reader op then unlock_shared t else unlock_unique) (lm_mutexes s i)) s))"
| "bucket_turn t _ s = None"

text \<open>\<open>getMap\<close>: lock every bucket, copy every bucket, and unlock with the destruction of the vector of locks.\<close>

fun getMap_turn :: "thread_id \<Rightarrow> ('k, 'v) lm_pc \<Rightarrow> ('k, 'v) locked_map \<Rightarrow> ('k, 'v) locked_map option" where
  "getMap_turn t (S_lock j) s =
     (if j < length (lm_buckets s)
      then map_option (\<lambda>x. lm_goto t (S_lock (Suc j)) (lm_set_mutex j x s)) (try_lock_unique t (lm_mutexes s j))
      else Some (lm_goto t (S_copy 0 Map.empty) s))"
| "getMap_turn t (S_copy j res) s =
     Some (if j < length (lm_buckets s)
           then lm_goto t (S_copy (Suc j) (fold map_insert (lm_buckets s ! j) res)) s
           else lm_goto t (S_unlock 0 (Did_getMap res)) (lm_did t (Did_getMap res) s))"
| "getMap_turn t (S_unlock j e) s =
     Some (if j < length (lm_buckets s)
           then lm_goto t (S_unlock (Suc j) e) (lm_set_mutex j (unlock_unique (lm_mutexes s j)) s)
           else lm_return t e s)"
| "getMap_turn t _ s = None"

fun is_getMap_pc :: "('k, 'v) lm_pc \<Rightarrow> bool" where
  "is_getMap_pc (S_lock j) = True" | "is_getMap_pc (S_copy j res) = True" | "is_getMap_pc (S_unlock j e) = True"
| "is_getMap_pc _ = False"

datatype ('k, 'v) lm_label = Lm_op thread_id "('k, 'v) map_op" | Lm_getMap thread_id | Lm_run thread_id

definition lm_ready :: "thread_id \<Rightarrow> ('k, 'v) locked_map \<Rightarrow> bool" where
  "lm_ready t s \<longleftrightarrow>
     t < length (lm_pcs s) \<and> lm_fault s = None \<and> (case lm_pcs s ! t of Resting \<Rightarrow> True | _ \<Rightarrow> False)"

text \<open>A call computes the bucket of its key first, from members that never change.\<close>

fun lm_step :: "('k, 'v) lm_label \<Rightarrow> ('k, 'v) locked_map \<Rightarrow> ('k, 'v) locked_map option" where
  "lm_step (Lm_op t op) s =
     (if lm_ready t s
      then Some (case getBucket (lm_map s) (op_key op) of
                   Inl e \<Rightarrow> s\<lparr>lm_fault := Some e\<rparr>
                 | Inr i \<Rightarrow> lm_goto t (K_lock op i) s)
      else None)"
| "lm_step (Lm_getMap t) s = (if lm_ready t s then Some (lm_goto t (S_lock 0) s) else None)"
| "lm_step (Lm_run t) s =
     (if lm_fault s = None \<and> t < length (lm_pcs s)
      then (if is_getMap_pc (lm_pcs s ! t) then getMap_turn t (lm_pcs s ! t) s else bucket_turn t (lm_pcs s ! t) s)
      else None)"

definition lm_start :: "nat \<Rightarrow> ('k, 'v) safe_map \<Rightarrow> ('k, 'v) locked_map" where
  "lm_start threads m =
     \<lparr>lm_map = m, lm_mutexes = (\<lambda>_. \<lparr>sx_owner = None, sx_sharers = []\<rparr>), lm_pcs = replicate threads Resting,
      lm_log = [], lm_returned = [], lm_fault = None\<rparr>"

subsection \<open>What a history means\<close>

text \<open>A history of a map: what each event does to the map, and whether its result is the one the map gives.\<close>

fun event_effect :: "('k \<rightharpoonup> 'v) \<Rightarrow> ('k, 'v) map_event \<Rightarrow> ('k \<rightharpoonup> 'v)" where
  "event_effect m (Did_put k v) = m(k \<mapsto> v)"
| "event_effect m (Did_del k) = m(k := None)"
| "event_effect m _ = m"

fun event_ok :: "('k \<rightharpoonup> 'v) \<Rightarrow> ('k, 'v) map_event \<Rightarrow> bool" where
  "event_ok m (Did_get k d r) \<longleftrightarrow> r = (case m k of None \<Rightarrow> d | Some v \<Rightarrow> v)"
| "event_ok m (Did_getMap res) \<longleftrightarrow> res = m"
| "event_ok m _ \<longleftrightarrow> True"

fun history_ok :: "('k \<rightharpoonup> 'v) \<Rightarrow> ('k, 'v) map_event list \<Rightarrow> bool" where
  "history_ok m [] \<longleftrightarrow> True"
| "history_ok m (e # es) \<longleftrightarrow> event_ok m e \<and> history_ok (event_effect m e) es"

lemma history_ok_snoc: "history_ok m (es @ [e]) \<longleftrightarrow> history_ok m es \<and> event_ok (foldl event_effect m es) e"
  by (induction es arbitrary: m) auto

text \<open>The events of one thread.\<close>

definition events_of :: "thread_id \<Rightarrow> (thread_id \<times> 'e) list \<Rightarrow> 'e list" where
  "events_of t es = map snd (filter (\<lambda>e. fst e = t) es)"

lemma events_of_snoc: "events_of t (es @ [(u, e)]) = (if u = t then events_of t es @ [e] else events_of t es)"
  by (simp add: events_of_def)

text \<open>The event of an operation that has taken effect and not returned yet.\<close>

fun unreturned :: "('k, 'v) lm_pc \<Rightarrow> ('k, 'v) map_event list" where
  "unreturned (K_unlock op i e) = [e]" | "unreturned (S_unlock j e) = [e]" | "unreturned _ = []"

subsection \<open>The invariant\<close>

text \<open>The positions at which a thread holds the mutex of bucket \<open>i\<close> of \<open>n\<close>, exclusively or shared.\<close>

fun uses_unique :: "nat \<Rightarrow> nat \<Rightarrow> ('k, 'v) lm_pc \<Rightarrow> bool" where
  "uses_unique n i (K_find op i') \<longleftrightarrow> \<not> is_reader op \<and> i = i'"
| "uses_unique n i (K_access op i' item) \<longleftrightarrow> \<not> is_reader op \<and> i = i'"
| "uses_unique n i (K_unlock op i' e) \<longleftrightarrow> \<not> is_reader op \<and> i = i'"
| "uses_unique n i (S_lock j) \<longleftrightarrow> i < j"
| "uses_unique n i (S_copy j res) \<longleftrightarrow> i < n"
| "uses_unique n i (S_unlock j e) \<longleftrightarrow> j \<le> i \<and> i < n"
| "uses_unique n i _ \<longleftrightarrow> False"

fun uses_shared :: "nat \<Rightarrow> ('k, 'v) lm_pc \<Rightarrow> bool" where
  "uses_shared i (K_find op i') \<longleftrightarrow> is_reader op \<and> i = i'"
| "uses_shared i (K_access op i' item) \<longleftrightarrow> is_reader op \<and> i = i'"
| "uses_shared i (K_unlock op i' e) \<longleftrightarrow> is_reader op \<and> i = i'"
| "uses_shared i _ \<longleftrightarrow> False"

definition mutex_ok :: "nat \<Rightarrow> nat \<Rightarrow> shared_mutex \<Rightarrow> ('k, 'v) lm_pc list \<Rightarrow> bool" where
  "mutex_ok n i x pcs \<longleftrightarrow>
     lock_inv (uses_unique n i) (sx_owner x) pcs \<and> distinct (sx_sharers x) \<and>
     (\<forall>t. t \<in> set (sx_sharers x) \<longleftrightarrow> t < length pcs \<and> uses_shared i (pcs ! t)) \<and>
     (sx_owner x \<noteq> None \<longrightarrow> sx_sharers x = [])"

fun lm_pc_ok :: "('k, 'v) safe_map \<Rightarrow> ('k, 'v) lm_pc \<Rightarrow> bool" where
  "lm_pc_ok m (K_lock op i) \<longleftrightarrow> i = bucket_index m (op_key op)"
| "lm_pc_ok m (K_find op i) \<longleftrightarrow> i = bucket_index m (op_key op)"
| "lm_pc_ok m (K_access op i item) \<longleftrightarrow>
     i = bucket_index m (op_key op) \<and> item = findEntryFor (op_key op) (sm_buckets m ! i)"
| "lm_pc_ok m (S_lock j) \<longleftrightarrow> j \<le> length (sm_buckets m)"
| "lm_pc_ok m (S_copy j res) \<longleftrightarrow>
     j \<le> length (sm_buckets m) \<and> res = fold (fold map_insert) (take j (sm_buckets m)) Map.empty"
| "lm_pc_ok m _ \<longleftrightarrow> True"

definition mutexes_ok :: "nat \<Rightarrow> (nat \<Rightarrow> shared_mutex) \<Rightarrow> ('k, 'v) lm_pc list \<Rightarrow> bool" where
  "mutexes_ok n M pcs \<longleftrightarrow> (\<forall>i. mutex_ok n i (M i) pcs)"

definition log_ok :: "('k, 'v) locked_map \<Rightarrow> bool" where
  "log_ok s \<longleftrightarrow>
     history_ok Map.empty (map snd (lm_log s)) \<and>
     foldl event_effect Map.empty (map snd (lm_log s)) = sm_lookup (lm_map s) \<and>
     (\<forall>t<length (lm_pcs s). events_of t (lm_log s) = events_of t (lm_returned s) @ unreturned (lm_pcs s ! t))"

definition lm_inv :: "('k, 'v) locked_map \<Rightarrow> bool" where
  "lm_inv s \<longleftrightarrow>
     lm_fault s = None \<and> sm_inv (lm_map s) \<and> mutexes_ok (length (lm_buckets s)) (lm_mutexes s) (lm_pcs s) \<and>
     (\<forall>t<length (lm_pcs s). lm_pc_ok (lm_map s) (lm_pcs s ! t)) \<and> log_ok s"

text \<open>The mutex of a bucket: nothing changes, it is locked, it is unlocked.\<close>

lemma mutex_ok_same:
  assumes "t < length pcs" "uses_unique n i pc = uses_unique n i (pcs ! t)" "uses_shared i pc = uses_shared i (pcs ! t)"
  shows "mutex_ok n i x (pcs[t := pc]) = mutex_ok n i x pcs"
proof -
  have "uses_shared i (pcs[t := pc] ! u) = uses_shared i (pcs ! u)" for u
    using assms(1,3) by (cases "u = t") simp_all
  then show ?thesis
    using lock_inv_same [of t pcs "uses_unique n i" pc] assms(1,2) by (simp add: mutex_ok_def)
qed

lemma mutex_ok_unique:
  assumes "mutex_ok n i x pcs" "t < length pcs" "try_lock_unique t x = Some y" "uses_unique n i pc" "\<not> uses_shared i pc"
  shows "mutex_ok n i y (pcs[t := pc])"
proof -
  have x: "sx_owner x = None" "sx_sharers x = []" "y = x\<lparr>sx_owner := Some t\<rparr>"
    using assms(3) by (auto simp: try_lock_unique_def split: if_splits)
  then have none: "\<not> uses_shared i (pcs ! u)" if "u < length pcs" for u
    using assms(1) that by (auto simp: mutex_ok_def)
  have "lock_inv (uses_unique n i) (Some t) (pcs[t := pc])"
    using assms(1,2,4) x(1) lock_inv_take [of "uses_unique n i" pcs t pc] by (simp add: mutex_ok_def)
  moreover have "\<not> uses_shared i (pcs[t := pc] ! u)" if "u < length pcs" for u
    using none [OF that] assms(2,5) by (cases "u = t") simp_all
  ultimately show ?thesis by (simp add: x(2,3) mutex_ok_def)
qed

lemma mutex_ok_shared:
  assumes "mutex_ok n i x pcs" "t < length pcs" "try_lock_shared t x = Some y" "\<not> uses_unique n i pc" "uses_shared i pc"
    and "\<not> uses_shared i (pcs ! t)"
  shows "mutex_ok n i y (pcs[t := pc])"
proof -
  have x: "sx_owner x = None" "y = x\<lparr>sx_sharers := t # sx_sharers x\<rparr>"
    using assms(3) by (auto simp: try_lock_shared_def split: if_splits)
  have "\<not> uses_unique n i (pcs ! t)" using assms(1,2) x(1) by (auto simp: mutex_ok_def lock_inv_def)
  then have "lock_inv (uses_unique n i) None (pcs[t := pc])"
    using assms(1,2,4) x(1) by (simp add: mutex_ok_def lock_inv_same)
  then show ?thesis
    using assms x by (auto simp: mutex_ok_def nth_list_update)
qed

lemma mutex_ok_unlock_unique:
  assumes "mutex_ok n i x pcs" "t < length pcs" "uses_unique n i (pcs ! t)" "\<not> uses_unique n i pc" "\<not> uses_shared i pc"
  shows "mutex_ok n i (unlock_unique x) (pcs[t := pc])"
proof -
  have "sx_owner x = Some t" using assms(1-3) by (auto simp: mutex_ok_def dest: lock_inv_holder)
  then have "sx_sharers x = []" using assms(1) by (simp add: mutex_ok_def)
  moreover from this have "\<not> uses_shared i (pcs[t := pc] ! u)" if "u < length pcs" for u
    using assms(1,2,5) that by (cases "u = t") (auto simp: mutex_ok_def)
  moreover have "lock_inv (uses_unique n i) None (pcs[t := pc])"
    using assms(1-4) by (auto simp: mutex_ok_def intro: lock_inv_drop)
  ultimately show ?thesis
    by (auto simp: mutex_ok_def unlock_unique_def)
qed

lemma mutex_ok_unlock_shared:
  assumes "mutex_ok n i x pcs" "t < length pcs" "uses_shared i (pcs ! t)" "\<not> uses_unique n i pc" "\<not> uses_shared i pc"
  shows "mutex_ok n i (unlock_shared t x) (pcs[t := pc])"
proof -
  have t: "t \<in> set (sx_sharers x)" using assms(1-3) by (simp add: mutex_ok_def)
  then have "sx_sharers x \<noteq> []" by auto
  then have "sx_owner x = None" using assms(1) unfolding mutex_ok_def by blast
  moreover from this have "\<not> uses_unique n i (pcs ! t)" using assms(1,2) by (auto simp: mutex_ok_def lock_inv_def)
  ultimately have "lock_inv (uses_unique n i) None (pcs[t := pc])"
    using assms(1,2,4) by (simp add: mutex_ok_def lock_inv_same)
  then show ?thesis
    using assms \<open>sx_owner x = None\<close> by (auto simp: mutex_ok_def unlock_shared_def nth_list_update)
qed

text \<open>A thread that holds a bucket exclusively is alone there.\<close>

lemma mutex_ok_alone:
  assumes "mutex_ok n i x pcs" "t < length pcs" "u < length pcs" "uses_unique n i (pcs ! t)" "u \<noteq> t"
  shows "\<not> uses_unique n i (pcs ! u)" "\<not> uses_shared i (pcs ! u)"
proof -
  have "sx_owner x = Some t" using assms(1,2,4) by (auto simp: mutex_ok_def dest: lock_inv_holder)
  moreover from this have "sx_sharers x = []" using assms(1) by (simp add: mutex_ok_def)
  ultimately show "\<not> uses_unique n i (pcs ! u)" "\<not> uses_shared i (pcs ! u)"
    using assms(1,3,5) by (auto simp: mutex_ok_def lock_inv_def)
qed

subsection \<open>Every step keeps the invariant\<close>

lemma mutexes_ok_same:
  assumes "t < length pcs" "\<And>i. uses_unique n i pc = uses_unique n i (pcs ! t)"
    and "\<And>i. uses_shared i pc = uses_shared i (pcs ! t)"
  shows "mutexes_ok n M (pcs[t := pc]) = mutexes_ok n M pcs"
  using assms by (simp add: mutexes_ok_def mutex_ok_same)

lemma mutexes_ok_one:
  assumes "mutexes_ok n M pcs" "t < length pcs" "mutex_ok n i x (pcs[t := pc])"
    and "\<And>j. j \<noteq> i \<Longrightarrow> uses_unique n j pc = uses_unique n j (pcs ! t) \<and> uses_shared j pc = uses_shared j (pcs ! t)"
  shows "mutexes_ok n (M(i := x)) (pcs[t := pc])"
  unfolding mutexes_ok_def
proof
  fix j
  show "mutex_ok n j ((M(i := x)) j) (pcs[t := pc])"
    using assms by (cases "j = i") (simp_all add: mutexes_ok_def mutex_ok_same)
qed

text \<open>A step that leaves the buckets and the log alone.\<close>

lemma lm_move_keeps:
  assumes "lm_inv s" "t < length (lm_pcs s)" "lm_pc_ok (lm_map s) pc" "unreturned pc = unreturned (lm_pcs s ! t)"
    and "mutexes_ok (length (lm_buckets s)) M ((lm_pcs s)[t := pc])"
  shows "lm_inv (lm_goto t pc (s\<lparr>lm_mutexes := M\<rparr>))"
  using assms by (simp add: lm_inv_def log_ok_def lm_goto_def nth_list_update)

lemma lm_goto_keeps:
  assumes "lm_inv s" "t < length (lm_pcs s)" "lm_pc_ok (lm_map s) pc" "unreturned pc = unreturned (lm_pcs s ! t)"
    and "\<And>i. uses_unique (length (lm_buckets s)) i pc = uses_unique (length (lm_buckets s)) i (lm_pcs s ! t)"
    and "\<And>i. uses_shared i pc = uses_shared i (lm_pcs s ! t)"
  shows "lm_inv (lm_goto t pc s)"
  using lm_move_keeps [OF assms(1-4), of "lm_mutexes s"] assms(1,2,5,6) by (simp add: lm_inv_def mutexes_ok_same)

lemma lm_return_keeps:
  assumes "lm_inv s" "t < length (lm_pcs s)" "unreturned (lm_pcs s ! t) = [e]"
    and "mutexes_ok (length (lm_buckets s)) M ((lm_pcs s)[t := Resting])"
  shows "lm_inv (lm_return t e (s\<lparr>lm_mutexes := M\<rparr>))"
  using assms by (auto simp: lm_inv_def log_ok_def lm_return_def lm_goto_def nth_list_update events_of_snoc)

text \<open>The three accesses are those of the bucket's methods.\<close>

lemma entry_access_bucket:
  "entry_access (Put k v) (findEntryFor k b) b = (Bucket_addOrUpdateFor k v b, Did_put k v)"
  "entry_access (Del k) (findEntryFor k b) b = (Bucket_romoveFor k b, Did_del k)"
  "entry_access (Get k d) (findEntryFor k b) b = (b, Did_get k d (Bucket_valueFor k d b))"
  by (simp_all add: Bucket_addOrUpdateFor_def Bucket_romoveFor_def Bucket_valueFor_def split: option.splits)

lemma access_effect:
  assumes "sm_inv m" "i = bucket_index m (op_key op)"
    and "entry_access op (findEntryFor (op_key op) (sm_buckets m ! i)) (sm_buckets m ! i) = (b, e)"
  defines "m' \<equiv> m\<lparr>sm_buckets := (sm_buckets m)[i := b]\<rparr>"
  shows "sm_inv m' \<and> sm_lookup m' = event_effect (sm_lookup m) e \<and> event_ok (sm_lookup m) e \<and> (is_reader op \<longrightarrow> m' = m)"
proof (cases op)
  case (Put k v)
  then have "SafeMap_addOrUpdateFor k v m = Inr m'" "e = Did_put k v"
    using assms by (auto simp: SafeMap_addOrUpdateFor_def getBucket_index entry_access_bucket simp del: entry_access.simps)
  then show ?thesis using sm.put_law [OF assms(1), of k v] Put by auto
next
  case (Del k)
  then have "SafeMap_removeFor k m = Inr m'" "e = Did_del k"
    using assms by (auto simp: SafeMap_removeFor_def getBucket_index entry_access_bucket simp del: entry_access.simps)
  then show ?thesis using sm.del_law [OF assms(1), of k] Del by auto
next
  case (Get k d)
  then have "m' = m" "SafeMap_valueFor k d m = Inr (Bucket_valueFor k d (sm_buckets m ! i))"
      "e = Did_get k d (Bucket_valueFor k d (sm_buckets m ! i))"
    using assms by (auto simp: SafeMap_valueFor_def getBucket_index entry_access_bucket simp del: entry_access.simps)
  then show ?thesis using sm.val_law [OF assms(1), of k d] assms(1) Get by auto
qed

lemma lm_pc_ok_other:
  assumes "lm_pc_ok m pc" "\<not> uses_unique (length (sm_buckets m)) i pc" "\<not> uses_shared i pc" "i < length (sm_buckets m)"
  shows "lm_pc_ok (m\<lparr>sm_buckets := (sm_buckets m)[i := b]\<rparr>) pc"
  using assms by (cases pc) (auto simp: bucket_index_def)

lemma access_keeps:
  assumes "lm_inv s" "t < length (lm_pcs s)" "lm_pcs s ! t = K_access op i item"
    and "bucket_turn t (K_access op i item) s = Some s'"
  shows "lm_inv s'"
proof -
  let ?n = "length (lm_buckets s)" and ?b = "lm_buckets s ! i"
  have inv: "sm_inv (lm_map s)" "mutexes_ok ?n (lm_mutexes s) (lm_pcs s)" "log_ok s" "lm_fault s = None"
    using assms(1) by (simp_all add: lm_inv_def)
  have ok: "lm_pc_ok (lm_map s) (lm_pcs s ! u)" if "u < length (lm_pcs s)" for u
    using assms(1) that by (simp add: lm_inv_def)
  have i: "i = bucket_index (lm_map s) (op_key op)" "item = findEntryFor (op_key op) ?b"
    using ok [OF assms(2)] assms(3) by simp_all
  obtain b e where be: "entry_access op item ?b = (b, e)" by force
  let ?m = "(lm_map s)\<lparr>sm_buckets := (lm_buckets s)[i := b]\<rparr>"
  note eff = access_effect [OF inv(1) i(1) be [unfolded i(2)]]
  have "lm_pc_ok ?m (lm_pcs s ! u)" if u: "u < length (lm_pcs s)" "u \<noteq> t" for u
  proof (cases "is_reader op")
    case True
    then show ?thesis using eff ok [OF u(1)] by simp
  next
    case False
    then have "uses_unique ?n i (lm_pcs s ! t)" using assms(3) by simp
    then have "\<not> uses_unique ?n i (lm_pcs s ! u)" "\<not> uses_shared i (lm_pcs s ! u)"
      using mutex_ok_alone [OF _ assms(2) u(1) _ u(2)] inv(2) unfolding mutexes_ok_def by blast+
    then show ?thesis
      using lm_pc_ok_other [OF ok [OF u(1)]] bucket_index_less [OF inv(1)] i(1) by blast
  qed
  moreover have "mutexes_ok ?n (lm_mutexes s) ((lm_pcs s)[t := K_unlock op i e])"
    using mutexes_ok_same [OF assms(2), of ?n "K_unlock op i e"] inv(2) assms(3) by simp
  moreover have "s' = lm_goto t (K_unlock op i e) (lm_did t e (s\<lparr>lm_map := ?m\<rparr>))"
    using assms(4) be by simp
  ultimately show ?thesis
    using inv(3,4) eff assms(2,3)
    by (auto simp: lm_inv_def log_ok_def lm_goto_def lm_did_def history_ok_snoc events_of_snoc nth_list_update)
qed

lemma inv_mutexes: "lm_inv s \<Longrightarrow> mutexes_ok (length (lm_buckets s)) (lm_mutexes s) (lm_pcs s)"
  by (simp add: lm_inv_def)

lemma inv_mutex: "lm_inv s \<Longrightarrow> mutex_ok (length (lm_buckets s)) i (lm_mutexes s i) (lm_pcs s)"
  by (simp add: lm_inv_def mutexes_ok_def)

lemma inv_pc: "lm_inv s \<Longrightarrow> t < length (lm_pcs s) \<Longrightarrow> lm_pc_ok (lm_map s) (lm_pcs s ! t)"
  by (simp add: lm_inv_def)

lemma bucket_turn_keeps:
  assumes "lm_inv s" "t < length (lm_pcs s)" "bucket_turn t (lm_pcs s ! t) s = Some s'"
  shows "lm_inv s'"
proof (cases "lm_pcs s ! t")
  case (K_lock op i)
  let ?pc = "K_find op i" and ?n = "length (lm_buckets s)"
  obtain x where x: "(if is_reader op then try_lock_shared t else try_lock_unique t) (lm_mutexes s i) = Some x"
      "s' = lm_goto t ?pc (s\<lparr>lm_mutexes := (lm_mutexes s)(i := x)\<rparr>)"
    using assms(3) K_lock by (auto simp: lm_set_mutex_def)
  have "mutex_ok ?n i x ((lm_pcs s)[t := ?pc])"
    using mutex_ok_shared [OF inv_mutex [OF assms(1)] assms(2), of i x ?pc]
      mutex_ok_unique [OF inv_mutex [OF assms(1)] assms(2), of i x ?pc] x(1) K_lock by (cases "is_reader op") auto
  then have "mutexes_ok ?n ((lm_mutexes s)(i := x)) ((lm_pcs s)[t := ?pc])"
    using mutexes_ok_one [OF inv_mutexes [OF assms(1)] assms(2)] K_lock by simp
  then show ?thesis
    using lm_move_keeps [OF assms(1,2), of ?pc] inv_pc [OF assms(1,2)] K_lock x(2) by simp
next
  case (K_find op i)
  then show ?thesis using lm_goto_keeps [OF assms(1,2)] inv_pc [OF assms(1,2)] assms(3) by auto
next
  case (K_access op i item)
  then show ?thesis using access_keeps [OF assms(1,2)] assms(3) by metis
next
  case (K_unlock op i e)
  let ?n = "length (lm_buckets s)"
  let ?x = "(if is_reader op then unlock_shared t else unlock_unique) (lm_mutexes s i)"
  have "mutex_ok ?n i ?x ((lm_pcs s)[t := Resting])"
    using mutex_ok_unlock_shared [OF inv_mutex [OF assms(1)] assms(2), of i Resting]
      mutex_ok_unlock_unique [OF inv_mutex [OF assms(1)] assms(2), of i Resting] K_unlock by (cases "is_reader op") auto
  then have "mutexes_ok ?n ((lm_mutexes s)(i := ?x)) ((lm_pcs s)[t := Resting])"
    by (rule mutexes_ok_one [OF inv_mutexes [OF assms(1)] assms(2)]) (use K_unlock in simp)
  then show ?thesis
    using lm_return_keeps [OF assms(1,2), of e] assms(3) K_unlock by (auto simp: lm_set_mutex_def)
qed (use assms(3) in simp_all)

lemma copied_keeps:
  assumes "lm_inv s" "t < length (lm_pcs s)" "lm_pcs s ! t = S_copy (length (lm_buckets s)) res"
  shows "lm_inv (lm_goto t (S_unlock 0 (Did_getMap res)) (lm_did t (Did_getMap res) s))"
proof -
  have "res = sm_lookup (lm_map s)"
    using inv_pc [OF assms(1,2)] assms(1,3) getMap_lookup [of "lm_map s"] by (simp add: lm_inv_def SafeMap_getMap_def)
  moreover have "mutexes_ok (length (lm_buckets s)) (lm_mutexes s) ((lm_pcs s)[t := S_unlock 0 (Did_getMap res)])"
    using mutexes_ok_same [OF assms(2), of "length (lm_buckets s)" "S_unlock 0 (Did_getMap res)"]
      inv_mutexes [OF assms(1)] assms(3) by simp
  ultimately show ?thesis
    using assms by (auto simp: lm_inv_def log_ok_def lm_goto_def lm_did_def history_ok_snoc events_of_snoc nth_list_update)
qed

lemma getMap_turn_keeps:
  assumes "lm_inv s" "t < length (lm_pcs s)" "getMap_turn t (lm_pcs s ! t) s = Some s'"
  shows "lm_inv s'"
proof (cases "lm_pcs s ! t")
  case (S_lock j)
  let ?n = "length (lm_buckets s)"
  have j: "j \<le> ?n" using inv_pc [OF assms(1,2)] S_lock by simp
  show ?thesis
  proof (cases "j < ?n")
    case True
    then obtain x where x: "try_lock_unique t (lm_mutexes s j) = Some x"
        "s' = lm_goto t (S_lock (Suc j)) (s\<lparr>lm_mutexes := (lm_mutexes s)(j := x)\<rparr>)"
      using assms(3) S_lock by (auto simp: lm_set_mutex_def)
    have "mutex_ok ?n j x ((lm_pcs s)[t := S_lock (Suc j)])"
      by (rule mutex_ok_unique [OF inv_mutex [OF assms(1)] assms(2) x(1)]) simp_all
    then have "mutexes_ok ?n ((lm_mutexes s)(j := x)) ((lm_pcs s)[t := S_lock (Suc j)])"
      by (rule mutexes_ok_one [OF inv_mutexes [OF assms(1)] assms(2)]) (use S_lock in auto)
    then show ?thesis using lm_move_keeps [OF assms(1,2), of "S_lock (Suc j)"] S_lock x(2) True by simp
  next
    case False
    then show ?thesis
      using lm_goto_keeps [OF assms(1,2), of "S_copy 0 Map.empty"] S_lock assms(3) j by simp
  qed
next
  case (S_copy j res)
  let ?n = "length (lm_buckets s)"
  have j: "j \<le> ?n" "res = fold (fold map_insert) (take j (lm_buckets s)) Map.empty"
    using inv_pc [OF assms(1,2)] S_copy by simp_all
  show ?thesis
  proof (cases "j < ?n")
    case True
    then have "fold map_insert (lm_buckets s ! j) res = fold (fold map_insert) (take (Suc j) (lm_buckets s)) Map.empty"
      using j(2) by (simp add: take_Suc_conv_app_nth)
    then show ?thesis
      using lm_goto_keeps [OF assms(1,2), of "S_copy (Suc j) (fold map_insert (lm_buckets s ! j) res)"] S_copy assms(3) True
      by simp
  next
    case False
    then show ?thesis using copied_keeps [OF assms(1,2)] S_copy assms(3) j(1) by simp
  qed
next
  case (S_unlock j e)
  let ?n = "length (lm_buckets s)" and ?x = "unlock_unique (lm_mutexes s j)"
  show ?thesis
  proof (cases "j < ?n")
    case True
    then have "mutex_ok ?n j ?x ((lm_pcs s)[t := S_unlock (Suc j) e])"
      using mutex_ok_unlock_unique [OF inv_mutex [OF assms(1)] assms(2), of j "S_unlock (Suc j) e"] S_unlock by simp
    then have "mutexes_ok ?n ((lm_mutexes s)(j := ?x)) ((lm_pcs s)[t := S_unlock (Suc j) e])"
      by (rule mutexes_ok_one [OF inv_mutexes [OF assms(1)] assms(2)]) (use S_unlock in auto)
    then show ?thesis
      using lm_move_keeps [OF assms(1,2), of "S_unlock (Suc j) e"] S_unlock assms(3) True by (auto simp: lm_set_mutex_def)
  next
    case False
    then have "mutexes_ok ?n (lm_mutexes s) ((lm_pcs s)[t := Resting])"
      using mutexes_ok_same [OF assms(2), of ?n Resting] inv_mutexes [OF assms(1)] S_unlock by simp
    then show ?thesis using lm_return_keeps [OF assms(1,2), of e "lm_mutexes s"] S_unlock assms(3) False by simp
  qed
qed (use assms(3) in simp_all)

lemma lm_inv_step:
  assumes "lm_inv s" "lm_step l s = Some s'"
  shows "lm_inv s'"
proof (cases l)
  case (Lm_run t)
  then show ?thesis
    using assms bucket_turn_keeps [OF assms(1)] getMap_turn_keeps [OF assms(1)] by (auto split: if_splits)
next
  case (Lm_op t op)
  then have t: "t < length (lm_pcs s)" "lm_pcs s ! t = Resting"
    using assms(2) by (auto simp: lm_ready_def split: if_splits lm_pc.splits)
  have "s' = lm_goto t (K_lock op (bucket_index (lm_map s) (op_key op))) s"
    using assms getBucket_index [of "lm_map s"] Lm_op by (auto simp: lm_inv_def split: if_splits)
  then show ?thesis using lm_goto_keeps [OF assms(1) t(1)] t(2) by simp
next
  case (Lm_getMap t)
  then have "t < length (lm_pcs s)" "lm_pcs s ! t = Resting" "s' = lm_goto t (S_lock 0) s"
    using assms(2) by (auto simp: lm_ready_def split: if_splits lm_pc.splits)
  then show ?thesis using lm_goto_keeps [OF assms(1)] by simp
qed

lemma lm_inv_start:
  assumes "sm_inv m" "sm_lookup m = Map.empty"
  shows "lm_inv (lm_start n m)"
  using assms
  by (auto simp: lm_inv_def lm_start_def log_ok_def mutexes_ok_def mutex_ok_def lock_inv_def events_of_def)

interpretation locked_map: invariant_system lm_step "lm_start n m"
  "\<lambda>s. sm_inv m \<and> sm_lookup m = Map.empty \<longrightarrow> lm_inv s"
  by unfold_locales (auto intro: lm_inv_start lm_inv_step)

lemma reach_lm_inv:
  fixes m :: "('k, 'v) safe_map"
  assumes "SafeMap_new b h = Inr m" "0 < b" "b < 2 ^ 31" "reach lm_step (lm_start n m) s"
  shows "lm_inv s"
proof -
  obtain m' :: "('k, 'v) safe_map" where "SafeMap_new b h = Inr m'" "sm_inv m'" "sm_lookup m' = Map.empty"
    using SafeMap_new_inv [OF assms(2,3)] by blast
  then show ?thesis using locked_map.inv_reach [OF assms(4)] assms(1) by simp
qed

subsection \<open>Properties\<close>

text \<open>
  (C6) \<open>SafeMap\<close> is linearizable: any number of threads that update, remove, look up and copy concurrently, in every
  interleaving of the single accesses, behave as if each operation happened at one moment between its call and its return. The
  log of these moments is a history of a mathematical map (each \<open>valueFor\<close> returns the value the map has at
  that point and each \<open>getMap\<close> the whole map, although it locks the buckets one by one), the table holds the map after the log, and
  the log of a thread is what its operations have returned, in order, and at most the one it is in.
\<close>

theorem locked_map_linearizable:
  assumes "SafeMap_new b h = Inr m" and "0 < b" and "b < 2 ^ 31" and "reach lm_step (lm_start n m) s"
  shows "lm_fault s = None \<and> history_ok Map.empty (map snd (lm_log s)) \<and>
    SafeMap_getMap (lm_map s) = foldl event_effect Map.empty (map snd (lm_log s)) \<and>
    (\<forall>t<length (lm_pcs s). events_of t (lm_log s) = events_of t (lm_returned s) @ unreturned (lm_pcs s ! t))"
  using reach_lm_inv [OF assms] by (auto simp: lm_inv_def log_ok_def getMap_lookup)

text \<open>A schedule: a copy that has locked the first bucket when another thread adds an entry to the second.\<close>

definition copy_and_add :: "(nat, string) lm_label list" where
  "copy_and_add =
     [Lm_op 0 (Put 0 ''a''), Lm_run 0, Lm_run 0, Lm_run 0, Lm_run 0, Lm_getMap 0, Lm_op 1 (Put 1 ''b''), Lm_run 0,
      Lm_run 1, Lm_run 1, Lm_run 1, Lm_run 1] @ replicate 8 (Lm_run 0)"

definition two_buckets :: "(nat, string) safe_map" where
  "two_buckets = \<lparr>sm_buckets = [[], []], sm_hasher = (\<lambda>k. of_nat k)\<rparr>"

lemma two_buckets_new: "SafeMap_new 2 (\<lambda>k. of_nat k) = Inr two_buckets"
  by (simp add: SafeMap_new_def two_buckets_def eval_nat_numeral)

lemma copy_and_add_run:
  "\<exists>s. run_labels lm_step copy_and_add (lm_start 2 two_buckets) = Some s \<and>
     lm_returned s = [(0, Did_put 0 ''a''), (1, Did_put 1 ''b''), (0, Did_getMap [0 \<mapsto> ''a'', 1 \<mapsto> ''b''])]"
  by (simp add: copy_and_add_def two_buckets_def lm_start_def lm_ready_def getBucket_def numeral_eq_Suc lm_goto_def
      lm_set_mutex_def lm_did_def lm_return_def try_lock_unique_def unlock_unique_def map_insert_def)

theorem locked_map_linearizable_witness:
  "\<exists>s. reach lm_step (lm_start 2 two_buckets) s \<and> (0, Did_getMap [0 \<mapsto> ''a'', 1 \<mapsto> ''b'']) \<in> set (lm_returned s) \<and>
     lm_fault s = None \<and> history_ok Map.empty (map snd (lm_log s))"
proof -
  obtain s where s: "run_labels lm_step copy_and_add (lm_start 2 two_buckets) = Some s"
      "(0, Did_getMap [0 \<mapsto> ''a'', 1 \<mapsto> ''b'']) \<in> set (lm_returned s)"
    using copy_and_add_run by fastforce
  note r = run_labels_reach [OF s(1)]
  show ?thesis using locked_map_linearizable [OF two_buckets_new _ _ r] r s(2) by auto
qed

text \<open>A thread in a method that holds a bucket, or finds its bucket free, can go on.\<close>

fun needs_lock :: "nat \<Rightarrow> ('k, 'v) lm_pc \<Rightarrow> nat option" where
  "needs_lock n (K_lock op i) = Some i"
| "needs_lock n (S_lock j) = (if j < n then Some j else None)"
| "needs_lock n _ = None"

lemma lm_runs:
  assumes "lm_inv s" "t < length (lm_pcs s)" "lm_pcs s ! t \<noteq> Resting"
    and "\<And>i. needs_lock (length (lm_buckets s)) (lm_pcs s ! t) = Some i \<Longrightarrow>
      sx_owner (lm_mutexes s i) = None \<and> sx_sharers (lm_mutexes s i) = []"
  shows "\<exists>s'. lm_step (Lm_run t) s = Some s'"
  using assms
  by (cases "lm_pcs s ! t")
    (auto simp: lm_inv_def try_lock_unique_def try_lock_shared_def split: prod.splits)

lemma mutex_free:
  assumes "mutex_ok n i x pcs" "\<And>u. u < length pcs \<Longrightarrow> \<not> uses_unique n i (pcs ! u) \<and> \<not> uses_shared i (pcs ! u)"
  shows "sx_owner x = None \<and> sx_sharers x = []"
proof -
  have "sx_owner x \<noteq> Some u" for u using assms by (auto simp: mutex_ok_def lock_inv_def)
  moreover have "u \<notin> set (sx_sharers x)" for u using assms by (auto simp: mutex_ok_def)
  ultimately show ?thesis by (metis list.set_intros(1) neq_Nil_conv not_None_eq)
qed

text \<open>A thread that holds a bucket either does not wait or is a \<open>getMap\<close> that holds the first bucket.\<close>

lemma holder_waits:
  assumes "uses_unique n i pc \<or> uses_shared i pc" "needs_lock n pc = Some j"
  shows "pc = S_lock j \<and> j < n \<and> 0 < j"
  using assms by (cases pc) (auto split: if_splits)

text \<open>
  (C7) No deadlock: while some thread is inside a method of the map, some thread can take a step. The buckets are
  locked in ascending order and no other method waits with a lock in its hands.
\<close>

theorem locked_map_progress:
  assumes "SafeMap_new b h = Inr m" and "0 < b" and "b < 2 ^ 31" and "reach lm_step (lm_start n m) s"
    and "t < length (lm_pcs s)" and "lm_pcs s ! t \<noteq> Resting"
  shows "\<exists>u s'. lm_step (Lm_run u) s = Some s'"
proof -
  let ?n = "length (lm_buckets s)"
  let ?holds = "\<lambda>u i. uses_unique ?n i (lm_pcs s ! u) \<or> uses_shared i (lm_pcs s ! u)"
  note inv = reach_lm_inv [OF assms(1-4)]
  have rest: "lm_pcs s ! u \<noteq> Resting" if "?holds u i" for u i using that by auto
  show ?thesis
  proof (cases "\<exists>u<length (lm_pcs s). (\<exists>i. ?holds u i) \<and> needs_lock ?n (lm_pcs s ! u) = None")
    case True
    then obtain u i where u: "u < length (lm_pcs s)" "?holds u i" "needs_lock ?n (lm_pcs s ! u) = None" by blast
    have "\<exists>s'. lm_step (Lm_run u) s = Some s'" using u(3) by (intro lm_runs [OF inv u(1) rest [OF u(2)]]) simp
    then show ?thesis by blast
  next
    case False
    have waits: "\<exists>j. needs_lock ?n (lm_pcs s ! u) = Some j \<and> lm_pcs s ! u = S_lock j \<and> 0 < j"
      if u: "u < length (lm_pcs s)" "?holds u i" for u i
    proof -
      obtain j where "needs_lock ?n (lm_pcs s ! u) = Some j" using False u by (meson option.exhaust)
      then show ?thesis using holder_waits [OF u(2)] by blast
    qed
    show ?thesis
    proof (cases "\<exists>u<length (lm_pcs s). \<exists>i. ?holds u i")
      case True
      then obtain u i where u: "u < length (lm_pcs s)" "?holds u i" by blast
      obtain j where pc: "needs_lock ?n (lm_pcs s ! u) = Some j" "lm_pcs s ! u = S_lock j" "0 < j"
        using waits [OF u] by blast
      have "\<not> ?holds v j" if v: "v < length (lm_pcs s)" for v
      proof
        assume h: "?holds v j"
        then obtain k where "lm_pcs s ! v = S_lock k" "0 < k" using waits [OF v] by blast
        then have "uses_unique ?n 0 (lm_pcs s ! v)" by simp
        then have "v = u"
          using mutex_ok_alone(1) [OF inv_mutex [OF inv] u(1) v, of 0] pc by (cases "v = u") simp_all
        then show False using h pc(2) by simp
      qed
      then have "sx_owner (lm_mutexes s j) = None \<and> sx_sharers (lm_mutexes s j) = []"
        by (intro mutex_free [OF inv_mutex [OF inv]]) blast
      then have "\<exists>s'. lm_step (Lm_run u) s = Some s'"
        using pc(1) by (intro lm_runs [OF inv u(1) rest [OF u(2)]]) simp
      then show ?thesis by blast
    next
      case False
      then have "sx_owner (lm_mutexes s i) = None \<and> sx_sharers (lm_mutexes s i) = []" for i
        by (intro mutex_free [OF inv_mutex [OF inv]]) blast
      then show ?thesis using lm_runs [OF inv assms(5,6)] by blast
    qed
  qed
qed

theorem locked_map_progress_witness:
  "\<exists>s. reach lm_step (lm_start 1 two_buckets) s \<and> lm_pcs s = [S_lock 0] \<and> (\<exists>u s'. lm_step (Lm_run u) s = Some s')"
proof -
  obtain s where s: "run_labels lm_step [Lm_getMap 0] (lm_start 1 two_buckets) = Some s" "lm_pcs s = [S_lock 0]"
    by (simp add: lm_start_def lm_ready_def lm_goto_def)
  note r = run_labels_reach [OF s(1)]
  have "\<exists>u s'. lm_step (Lm_run u) s = Some s'"
    by (rule locked_map_progress [OF two_buckets_new _ _ r, of 0]) (simp_all add: s(2))
  with r s(2) show ?thesis by blast
qed

end
