(* ===== verification/Messaging.thy ===== *)
theory Messaging
  imports Container_Interfaces
begin

text \<open>
  \<open>include/atm/Message.hpp\<close> and \<open>include/atm/Dispatcher.hpp\<close>: message queues and the
  dispatcher that waits for a message some handler accepts.

  A \<open>WrappedMessage<Msg>\<close> is a message of the system's message type, and the \<open>dynamic_cast\<close> of a
  \<open>TemplateDispatcher<_, Msg, Func>\<close> together with its function is a partial map from messages
  to actions, defined exactly on the messages of its class. A chain
  \<open>wait().handle<A>(f).handle<B>(g)\<close> is a nest of dispatcher objects, each pointing to the
  previous one; the destructor of the one that is not \<open>chained_\<close> runs the waiting loop.
\<close>

subsection \<open>Queue\<close>

record 'm message_queue =
  mq_queue :: "'m list"

definition Queue_new :: "'m message_queue" where
  "Queue_new = \<lparr>mq_queue = []\<rparr>"

definition Queue_push :: "'m \<Rightarrow> 'm message_queue \<Rightarrow> 'm message_queue" where
  "Queue_push m q = q\<lparr>mq_queue := mq_queue q @ [m]\<rparr>"

text \<open>\<open>waitAndPop\<close> once it holds the lock: \<open>None\<close> when the caller has to sleep.\<close>

definition Queue_waitAndPop :: "'m message_queue \<Rightarrow> ('m \<times> 'm message_queue) option" where
  "Queue_waitAndPop q =
     (case mq_queue q of [] \<Rightarrow> None | m # ms \<Rightarrow> Some (m, q\<lparr>mq_queue := ms\<rparr>))"

interpretation mq_mon: wait_monitor Queue_push Queue_waitAndPop notify_all
    "\<lambda>q. length (mq_queue q)" Queue_new
  by unfold_locales
    (auto simp: Queue_push_def Queue_waitAndPop_def Queue_new_def notify_all_def split: list.splits)

subsection \<open>Sender\<close>

text \<open>A sender holds a pointer to a queue or null; sending through null does nothing.\<close>

type_synonym 'q sender = "'q option"

definition Sender_send :: "'q sender \<Rightarrow> 'm \<Rightarrow> ('q \<Rightarrow> 'm message_queue) \<Rightarrow> ('q \<Rightarrow> 'm message_queue)" where
  "Sender_send s m qs = (case s of None \<Rightarrow> qs | Some i \<Rightarrow> qs(i := Queue_push m (qs i)))"

subsection \<open>Dispatchers\<close>

datatype ('m, 'r) disp =
    Dispatcher bool
  | TemplateDispatcher "('m, 'r) disp" "'m \<Rightarrow> 'r option" bool

fun chained :: "('m, 'r) disp \<Rightarrow> bool" where
  "chained (Dispatcher c) = c"
| "chained (TemplateDispatcher p h c) = c"

fun set_chained :: "('m, 'r) disp \<Rightarrow> ('m, 'r) disp" where
  "set_chained (Dispatcher c) = Dispatcher True"
| "set_chained (TemplateDispatcher p h c) = TemplateDispatcher p h True"

definition Receiver_wait :: "('m, 'r) disp" where
  "Receiver_wait = Dispatcher False"

definition handle :: "('m, 'r) disp \<Rightarrow> ('m \<Rightarrow> 'r option) \<Rightarrow> ('m, 'r) disp" where
  "handle d f = TemplateDispatcher (set_chained d) f False"

text \<open>The move constructors: the new object, and the one moved from.\<close>

definition Dispatcher_move :: "('m, 'r) disp \<Rightarrow> ('m, 'r) disp \<times> ('m, 'r) disp" where
  "Dispatcher_move d = (d, set_chained d)"

datatype 'r dispatch = Handled 'r | Unhandled | Closed

fun dispatcher :: "('m \<Rightarrow> bool) \<Rightarrow> ('m, 'r) disp \<Rightarrow> 'm \<Rightarrow> 'r dispatch" where
  "dispatcher is_close (Dispatcher c) m = (if is_close m then Closed else Unhandled)"
| "dispatcher is_close (TemplateDispatcher p f c) m =
     (case f m of Some r \<Rightarrow> Handled r | None \<Rightarrow> dispatcher is_close p m)"

text \<open>
  The waiting loop on the messages that are in the queue: the action of the first message that
  is handled, the \<open>CloseQueue\<close> exception, or \<open>Blocked\<close> when it has read all of them.
\<close>

datatype ('m, 'r) wait_result = Processed 'r "'m list" | Close_thrown "'m list" | Blocked

fun waitAndDispatcher :: "('m \<Rightarrow> bool) \<Rightarrow> ('m, 'r) disp \<Rightarrow> 'm list \<Rightarrow> ('m, 'r) wait_result" where
  "waitAndDispatcher is_close d [] = Blocked"
| "waitAndDispatcher is_close d (m # q) =
     (case dispatcher is_close d m of
        Handled r \<Rightarrow> Processed r q
      | Closed \<Rightarrow> Close_thrown q
      | Unhandled \<Rightarrow> waitAndDispatcher is_close d q)"

text \<open>
  The destructors of the objects of a chain run from the last to the first; these are the
  objects whose destructor waits.
\<close>

fun destroy :: "('m, 'r) disp \<Rightarrow> ('m, 'r) disp list" where
  "destroy (Dispatcher c) = (if \<not> c then [Dispatcher c] else [])"
| "destroy (TemplateDispatcher p f c) =
     (if \<not> c then [TemplateDispatcher p f c] else []) @ destroy p"

text \<open>The chain \<open>wait().handle(f\<^sub>1) \<dots> .handle(f\<^sub>n)\<close>, as the code writes it.\<close>

definition handler_chain :: "('m \<Rightarrow> 'r option) list \<Rightarrow> ('m, 'r) disp" where
  "handler_chain fs = foldl handle Receiver_wait fs"

lemma destroy_set_chained: "destroy (set_chained (handler_chain fs)) = []"
  by (induction fs rule: rev_induct) (simp_all add: handler_chain_def Receiver_wait_def handle_def)

lemma dispatcher_set_chained [simp]: "dispatcher is_close (set_chained d) m = dispatcher is_close d m"
  by (cases d) auto

lemma dispatcher_handler_chain:
  "dispatcher is_close (handler_chain fs) m =
     (case List.find (\<lambda>f. f m \<noteq> None) (rev fs) of
        Some f \<Rightarrow> Handled (the (f m))
      | None \<Rightarrow> (if is_close m then Closed else Unhandled))"
  by (induction fs rule: rev_induct) (auto simp: handler_chain_def Receiver_wait_def handle_def)

lemma waitAndDispatcher_skips:
  assumes "\<forall>m \<in> set skipped. dispatcher is_close d m = Unhandled"
  shows "waitAndDispatcher is_close d (skipped @ q) = waitAndDispatcher is_close d q"
  using assms by (induction skipped) auto

subsection \<open>Properties\<close>

text \<open>
  A chain of \<open>handle\<close> calls waits exactly once: of all the dispatcher objects of the
  expression, only the destructor of the last one runs the waiting loop, and moving a dispatcher
  leaves the waiting to the new object.
\<close>

theorem handler_chain_waits_once:
  "destroy (handler_chain fs) = [handler_chain fs] \<and>
   destroy (snd (Dispatcher_move (handler_chain fs))) = []"
proof (cases fs rule: rev_cases)
  case Nil
  then show ?thesis by (simp add: handler_chain_def Receiver_wait_def Dispatcher_move_def)
next
  case (snoc gs f)
  then have "handler_chain fs = TemplateDispatcher (set_chained (handler_chain gs)) f False"
    by (simp add: handler_chain_def handle_def)
  then show ?thesis by (simp add: destroy_set_chained Dispatcher_move_def)
qed

text \<open>
  (C20) What a wait does with the queue: it throws away the messages no handler of the chain
  accepts (up to a \<open>CloseQueue\<close>), hands the first accepted message to the last handler of the
  chain that accepts it, and leaves every later message in the queue; on \<open>CloseQueue\<close> it throws;
  if no message is accepted it blocks.
\<close>

theorem waitAndDispatcher_spec:
  "waitAndDispatcher is_close (handler_chain fs) q =
     (case dropWhile (\<lambda>m. (\<forall>f \<in> set fs. f m = None) \<and> \<not> is_close m) q of
        [] \<Rightarrow> Blocked
      | m # rest \<Rightarrow>
         (case List.find (\<lambda>f. f m \<noteq> None) (rev fs) of
            Some f \<Rightarrow> Processed (the (f m)) rest
          | None \<Rightarrow> Close_thrown rest))"
proof (induction q)
  case Nil
  then show ?case by simp
next
  case (Cons m q)
  have none: "List.find (\<lambda>f. f m \<noteq> None) (rev fs) = None \<longleftrightarrow> (\<forall>f \<in> set fs. f m = None)"
    by (auto simp: find_None_iff)
  show ?case
  proof (cases "List.find (\<lambda>f. f m \<noteq> None) (rev fs)")
    case None
    with none Cons show ?thesis by (simp add: dispatcher_handler_chain)
  next
    case (Some f)
    with none have "\<not> (\<forall>f \<in> set fs. f m = None)" by simp
    with Some show ?thesis by (auto simp: dispatcher_handler_chain)
  qed
qed

theorem waitAndDispatcher_spec_witness:
  "waitAndDispatcher (\<lambda>m. m = (0::int)) (handler_chain [\<lambda>m. if m = 1 then Some ''one'' else None,
      \<lambda>m. if m = 2 then Some ''two'' else None]) [7, 2, 1] = Processed ''two'' [1]"
  using waitAndDispatcher_spec [of "\<lambda>m. m = (0::int)" "[\<lambda>m. if m = 1 then Some ''one'' else None,
      \<lambda>m. if m = 2 then Some ''two'' else None]" "[7, 2, 1]"] by simp

text \<open>
  No lost wake-up in the message queue: \<open>push\<close> notifies all sleepers, so threads sleep in
  \<open>waitAndPop\<close> with no woken thread on its way only while the queue is empty.
\<close>

theorem Queue_no_lost_wakeup:
  assumes "reach (mon_step Queue_push Queue_waitAndPop notify_all) (mon_start Queue_new) s"
    and "waiting s \<noteq> []" and "woken s = []"
  shows "mq_queue (mon_obj s) = []"
  using mq_mon.sleepers_only_when_empty [OF assms] by simp

theorem Queue_no_lost_wakeup_witness:
  "\<exists>s. run_labels (mon_step Queue_push Queue_waitAndPop notify_all)
         [Call_pop 1, Call_pop 2, Do_push (7::int) [1, 2], Resume 2, Resume 1] (mon_start Queue_new) = Some s \<and>
       waiting s = [1] \<and> woken s = [] \<and> delivered s = [(2, 7)] \<and> mq_queue (mon_obj s) = []"
proof -
  let ?st = "mon_step Queue_push Queue_waitAndPop notify_all"
  let ?s = "\<lparr>mon_obj = \<lparr>mq_queue = ([] :: int list)\<rparr>, waiting = [1], woken = [], delivered = [(2, 7::int)]\<rparr>"
  have run: "run_labels ?st [Call_pop 1, Call_pop 2, Do_push (7::int) [1, 2], Resume 2, Resume 1]
      (mon_start Queue_new) = Some ?s"
    by (simp add: mon_start_def Queue_new_def mon_attempt_def Queue_waitAndPop_def
        Queue_push_def notify_all_def)
  have "mq_queue (mon_obj ?s) = []"
    using Queue_no_lost_wakeup [OF run_labels_reach [OF run]] by simp
  with run show ?thesis by auto
qed

end
