(* ===== verification/Withdraw_Msg.thy ===== *)
theory Withdraw_Msg
  imports Messaging
begin

text \<open>
  \<open>include/atm/WithdrawMsg.hpp\<close>: the messages the cash machine, the bank and the interface
  exchange, one constructor per struct with the struct's fields, and \<open>messaging::CloseQueue\<close>.
  The system has three receivers; a \<open>Sender\<close> field is a null pointer or the queue of one of them.
\<close>

datatype queue_id = Atm_queue | Bank_queue | Interface_queue

type_synonym msg_sender = "queue_id sender"

datatype message =
    withdraw string uint32 msg_sender
  | withdraw_ok
  | withdraw_denied
  | cancel_withdrawal string uint32
  | withdrawal_processed string uint32
  | card_inserted string
  | digit_pressed char
  | clear_last_pressed
  | eject_card
  | withdraw_pressed uint32
  | cancel_pressed
  | issue_money uint32
  | verify_pin string string msg_sender
  | pin_verified
  | pin_incorrect
  | display_enter_pin
  | display_enter_card
  | display_insufficient_funds
  | display_withdrawal_cancelled
  | display_pin_incorrect_message
  | display_pin_correct_message
  | display_withdrawal_options
  | get_balance string msg_sender
  | balance uint32
  | display_balance uint32
  | balance_pressed
  | CloseQueue

definition is_close :: "message \<Rightarrow> bool" where
  "is_close m \<longleftrightarrow> m = CloseQueue"

text \<open>What a handler sends, in order, and an action of a machine: its new state and its sends.\<close>

type_synonym outbox = "(msg_sender \<times> message) list"
type_synonym 's action = "'s \<Rightarrow> 's \<times> outbox"
type_synonym 's handler = "message \<Rightarrow> 's action option"

definition deliver :: "outbox \<Rightarrow> (queue_id \<Rightarrow> message message_queue) \<Rightarrow> (queue_id \<Rightarrow> message message_queue)" where
  "deliver out qs = fold (\<lambda>(s, m). Sender_send s m) out qs"

lemma deliver_Nil [simp]: "deliver [] qs = qs"
  by (simp add: deliver_def)

lemma deliver_Cons [simp]: "deliver ((s, m) # out) qs = deliver out (Sender_send s m qs)"
  by (simp add: deliver_def)

lemma Sender_send_queue [simp]:
  "mq_queue (Sender_send q m qs j) = (if q = Some j then mq_queue (qs j) @ [m] else mq_queue (qs j))"
  by (simp add: Sender_send_def Queue_push_def split: option.splits)

text \<open>What a list of sends adds to each queue.\<close>

definition sent_to :: "queue_id \<Rightarrow> outbox \<Rightarrow> message list" where
  "sent_to i out = map snd (filter (\<lambda>(s, m). s = Some i) out)"

lemma sent_to_simps [simp]:
  "sent_to i [] = []"
  "sent_to i ((s, m) # out) = (if s = Some i then m # sent_to i out else sent_to i out)"
  by (simp_all add: sent_to_def)

lemma deliver_queue: "mq_queue (deliver out qs i) = mq_queue (qs i) @ sent_to i out"
proof (induction out arbitrary: qs)
  case Nil
  then show ?case by simp
next
  case (Cons e out)
  then show ?case by (cases e) (auto simp: Sender_send_def Queue_push_def split: option.splits)
qed

end
