(* ===== verification/Bank_Machine.thy ===== *)
theory Bank_Machine
  imports Withdraw_Msg
begin

text \<open>
  \<open>include/atm/BankMachine.hpp\<close>: the bank's balance, a 32-bit \<open>unsigned\<close>, and the five handlers
  of \<open>BankMachine::run\<close>, in the order in which the code chains them. The bank replies through the
  sender that the request carries. \<open>run\<close> repeats the wait for ever; it does not catch the
  \<open>CloseQueue\<close> exception.
\<close>

record bank =
  bank_balance :: uint32

definition BankMachine_new :: bank where
  "BankMachine_new = \<lparr>bank_balance = 199\<rparr>"

fun on_verify_pin :: "bank handler" where
  "on_verify_pin (verify_pin account pin atm_queue) = Some (\<lambda>b.
     (b, [(atm_queue, if pin = ''0000'' then pin_verified else pin_incorrect)]))"
| "on_verify_pin _ = None"

fun on_withdraw :: "bank handler" where
  "on_withdraw (withdraw account amount atm_queue) = Some (\<lambda>b.
     if bank_balance b \<ge> amount
     then (b\<lparr>bank_balance := bank_balance b - amount\<rparr>, [(atm_queue, withdraw_ok)])
     else (b, [(atm_queue, withdraw_denied)]))"
| "on_withdraw _ = None"

fun on_get_balance :: "bank handler" where
  "on_get_balance (get_balance account atm_queue) = Some (\<lambda>b.
     (b, [(atm_queue, balance (bank_balance b))]))"
| "on_get_balance _ = None"

fun on_withdrawal_processed :: "bank handler" where
  "on_withdrawal_processed (withdrawal_processed account amount) = Some (\<lambda>b. (b, []))"
| "on_withdrawal_processed _ = None"

fun on_cancel_withdrawal :: "bank handler" where
  "on_cancel_withdrawal (cancel_withdrawal account amount) = Some (\<lambda>b.
     (b\<lparr>bank_balance := bank_balance b + amount\<rparr>, []))"
| "on_cancel_withdrawal _ = None"

definition BankMachine_run :: "(message, bank action) disp" where
  "BankMachine_run = handler_chain
     [on_verify_pin, on_withdraw, on_get_balance, on_withdrawal_processed, on_cancel_withdrawal]"

fun bank_request :: "message \<Rightarrow> bool" where
  "bank_request (verify_pin _ _ _) = True"
| "bank_request (withdraw _ _ _) = True"
| "bank_request (get_balance _ _) = True"
| "bank_request (withdrawal_processed _ _) = True"
| "bank_request (cancel_withdrawal _ _) = True"
| "bank_request _ = False"

lemma BankMachine_handles:
  "dispatcher is_close BankMachine_run m =
     (case m of
        verify_pin account pin q \<Rightarrow> Handled (the (on_verify_pin m))
      | withdraw account amount q \<Rightarrow> Handled (the (on_withdraw m))
      | get_balance account q \<Rightarrow> Handled (the (on_get_balance m))
      | withdrawal_processed account amount \<Rightarrow> Handled (the (on_withdrawal_processed m))
      | cancel_withdrawal account amount \<Rightarrow> Handled (the (on_cancel_withdrawal m))
      | CloseQueue \<Rightarrow> Closed
      | _ \<Rightarrow> Unhandled)"
  by (cases m) (simp_all add: BankMachine_run_def dispatcher_handler_chain is_close_def)

text \<open>
  A withdrawal never overdraws the account and never invents money: it is granted exactly
  when the balance covers the amount, and then the balance falls by exactly the amount, with no
  wrap-around of the 32-bit balance; otherwise the balance is unchanged and the reply is a denial.
\<close>

theorem bank_withdraw_exact:
  "\<exists>act. dispatcher is_close BankMachine_run (withdraw account amount q) = Handled act \<and>
     (if unat amount \<le> unat (bank_balance b)
      then snd (act b) = [(q, withdraw_ok)] \<and>
           unat (bank_balance (fst (act b))) + unat amount = unat (bank_balance b)
      else snd (act b) = [(q, withdraw_denied)] \<and> fst (act b) = b)"
  by (simp add: BankMachine_handles word_le_nat_alt unat_sub)

end
