(* ===== verification/Interface_Machine.thy ===== *)
theory Interface_Machine
  imports Withdraw_Msg
begin

text \<open>
  \<open>include/atm/InterfaceMachine.hpp\<close>: the machine that prints what the customer sees. Its state
  is the list of lines written to the standard output; each handler holds \<open>mt_\<close> while it writes.
\<close>

type_synonym screen = "string list"

definition print_lines :: "string list \<Rightarrow> screen action" where
  "print_lines ls s = (s @ ls, [])"

fun show_issue_money :: "screen handler" where
  "show_issue_money (issue_money amount) = Some (print_lines [''Issuing '' @ decimal (unat amount)])"
| "show_issue_money _ = None"

fun show_insufficient_funds :: "screen handler" where
  "show_insufficient_funds display_insufficient_funds = Some (print_lines [''Insufficient funds''])"
| "show_insufficient_funds _ = None"

fun show_enter_card :: "screen handler" where
  "show_enter_card display_enter_card = Some (print_lines [''Please enter your card (I)''])"
| "show_enter_card _ = None"

fun show_enter_pin :: "screen handler" where
  "show_enter_pin display_enter_pin = Some (print_lines [''Please enter your PIN (0-9)''])"
| "show_enter_pin _ = None"

fun show_balance :: "screen handler" where
  "show_balance (display_balance amount) =
     Some (print_lines [''The balance of your account is '' @ decimal (unat amount)])"
| "show_balance _ = None"

fun show_withdrawal_options :: "screen handler" where
  "show_withdrawal_options display_withdrawal_options =
     Some (print_lines [''Withdraw 50? (w)'', ''Display Balance? (b)'', ''Cancel? (c)''])"
| "show_withdrawal_options _ = None"

fun show_withdrawal_cancelled :: "screen handler" where
  "show_withdrawal_cancelled display_withdrawal_cancelled = Some (print_lines [''Withdrawal cancelled''])"
| "show_withdrawal_cancelled _ = None"

fun show_pin_incorrect :: "screen handler" where
  "show_pin_incorrect display_pin_incorrect_message = Some (print_lines [''PIN incorrect''])"
| "show_pin_incorrect _ = None"

fun show_pin_correct :: "screen handler" where
  "show_pin_correct display_pin_correct_message = Some (print_lines [''PIN verified''])"
| "show_pin_correct _ = None"

fun show_eject_card :: "screen handler" where
  "show_eject_card eject_card = Some (print_lines [''Ejecting card''])"
| "show_eject_card _ = None"

definition InterfaceMachine_run :: "(message, screen action) disp" where
  "InterfaceMachine_run = handler_chain
     [show_issue_money, show_insufficient_funds, show_enter_card, show_enter_pin, show_balance,
      show_withdrawal_options, show_withdrawal_cancelled, show_pin_incorrect, show_pin_correct,
      show_eject_card]"

fun display_request :: "message \<Rightarrow> bool" where
  "display_request (issue_money _) = True"
| "display_request display_insufficient_funds = True"
| "display_request display_enter_card = True"
| "display_request display_enter_pin = True"
| "display_request (display_balance _) = True"
| "display_request display_withdrawal_options = True"
| "display_request display_withdrawal_cancelled = True"
| "display_request display_pin_incorrect_message = True"
| "display_request display_pin_correct_message = True"
| "display_request eject_card = True"
| "display_request _ = False"

lemma InterfaceMachine_handles:
  assumes "display_request m"
  shows "\<exists>ls. ls \<noteq> [] \<and> dispatcher is_close InterfaceMachine_run m = Handled (print_lines ls)"
  using assms by (cases m) (auto simp: InterfaceMachine_run_def dispatcher_handler_chain)

lemma InterfaceMachine_other:
  "\<not> display_request m \<Longrightarrow>
   dispatcher is_close InterfaceMachine_run m = (if m = CloseQueue then Closed else Unhandled)"
  by (cases m) (auto simp: InterfaceMachine_run_def dispatcher_handler_chain is_close_def)

lemma InterfaceMachine_prints:
  "dispatcher is_close InterfaceMachine_run m = Handled act \<Longrightarrow> \<exists>ls. act = print_lines ls"
  using InterfaceMachine_handles [of m] InterfaceMachine_other [of m]
  by (cases "display_request m") (auto split: if_splits)

end
