(* ===== verification/Atm_Machine.thy ===== *)
theory Atm_Machine
  imports Withdraw_Msg
begin

text \<open>
  \<open>include/atm/ATM.hpp\<close>: the state machine of the cash machine. \<open>state_\<close> holds the function to
  call next. A state function first sends its prompt, then waits with its handlers;
  \<open>doneProcessing\<close> only sends and moves on. A \<open>body\<close> keeps these two parts of a state function
  apart, because other threads run between the prompt and the message.
\<close>

datatype atm_state =
    St_waitForCard | St_gettingPin | St_verifyingPin | St_waitForAction
  | St_processingWithdrawal | St_processBalance | St_doneProcessing

record atm =
  atm_bank :: msg_sender
  atm_interface :: msg_sender
  withdrawal_amount :: uint32
  account :: string
  pin :: string
  state :: atm_state

text \<open>
  The constructor leaves \<open>withdrawal_amount_\<close> uninitialised: its first value is a parameter.
\<close>

definition ATM_new :: "msg_sender \<Rightarrow> msg_sender \<Rightarrow> uint32 \<Rightarrow> atm" where
  "ATM_new b i w = \<lparr>atm_bank = b, atm_interface = i, withdrawal_amount = w, account = '''', pin = '''',
     state = St_waitForCard\<rparr>"

text \<open>\<open>getSender\<close>: a sender for the machine's own queue.\<close>

definition ATM_getSender :: msg_sender where
  "ATM_getSender = Some Atm_queue"

datatype body = Prompt_wait "atm \<Rightarrow> outbox" "(message, atm action) disp" | No_wait "atm action"

fun cancel_handler :: "atm handler" where
  "cancel_handler cancel_pressed = Some (\<lambda>a. (a\<lparr>state := St_doneProcessing\<rparr>, []))"
| "cancel_handler _ = None"

subsection \<open>waitForCard\<close>

fun on_card_inserted :: "atm handler" where
  "on_card_inserted (card_inserted acc) = Some (\<lambda>a.
     (a\<lparr>account := acc, pin := '''', state := St_gettingPin\<rparr>, [(atm_interface a, display_enter_pin)]))"
| "on_card_inserted _ = None"

definition waitForCard :: body where
  "waitForCard = Prompt_wait (\<lambda>a. [(atm_interface a, display_enter_card)]) (handler_chain [on_card_inserted])"

subsection \<open>gettingPin\<close>

fun on_digit_pressed :: "atm handler" where
  "on_digit_pressed (digit_pressed d) = Some (\<lambda>a.
     let p = pin a @ [d] in
     if length p = 4
     then (a\<lparr>pin := p, state := St_verifyingPin\<rparr>, [(atm_bank a, verify_pin (account a) p ATM_getSender)])
     else (a\<lparr>pin := p\<rparr>, []))"
| "on_digit_pressed _ = None"

fun on_clear_last_pressed :: "atm handler" where
  "on_clear_last_pressed clear_last_pressed = Some (\<lambda>a.
     (if pin a \<noteq> [] then a\<lparr>pin := butlast (pin a)\<rparr> else a, []))"
| "on_clear_last_pressed _ = None"

definition gettingPin :: body where
  "gettingPin = Prompt_wait (\<lambda>a. []) (handler_chain [on_digit_pressed, on_clear_last_pressed, cancel_handler])"

subsection \<open>verifyingPin\<close>

fun on_pin_verified :: "atm handler" where
  "on_pin_verified pin_verified = Some (\<lambda>a.
     (a\<lparr>state := St_waitForAction\<rparr>, [(atm_interface a, display_pin_correct_message)]))"
| "on_pin_verified _ = None"

fun on_pin_incorrect :: "atm handler" where
  "on_pin_incorrect pin_incorrect = Some (\<lambda>a.
     (a\<lparr>pin := '''', state := St_gettingPin\<rparr>, [(atm_interface a, display_pin_incorrect_message)]))"
| "on_pin_incorrect _ = None"

definition verifyingPin :: body where
  "verifyingPin = Prompt_wait (\<lambda>a. []) (handler_chain [on_pin_verified, on_pin_incorrect, cancel_handler])"

subsection \<open>waitForAction\<close>

fun on_withdraw_pressed :: "atm handler" where
  "on_withdraw_pressed (withdraw_pressed amount) = Some (\<lambda>a.
     (a\<lparr>withdrawal_amount := amount, state := St_processingWithdrawal\<rparr>,
      [(atm_bank a, withdraw (account a) amount ATM_getSender)]))"
| "on_withdraw_pressed _ = None"

fun on_balance_pressed :: "atm handler" where
  "on_balance_pressed balance_pressed = Some (\<lambda>a.
     (a\<lparr>state := St_processBalance\<rparr>, [(atm_bank a, get_balance (account a) ATM_getSender)]))"
| "on_balance_pressed _ = None"

definition waitForAction :: body where
  "waitForAction = Prompt_wait (\<lambda>a. [(atm_interface a, display_withdrawal_options)])
     (handler_chain [on_withdraw_pressed, on_balance_pressed, cancel_handler])"

subsection \<open>processingWithdrawal\<close>

fun on_withdraw_ok :: "atm handler" where
  "on_withdraw_ok withdraw_ok = Some (\<lambda>a.
     (a\<lparr>state := St_doneProcessing\<rparr>, [(atm_interface a, issue_money (withdrawal_amount a))]))"
| "on_withdraw_ok _ = None"

fun on_withdraw_denied :: "atm handler" where
  "on_withdraw_denied withdraw_denied = Some (\<lambda>a.
     (a\<lparr>state := St_doneProcessing\<rparr>, [(atm_interface a, display_insufficient_funds)]))"
| "on_withdraw_denied _ = None"

fun on_withdrawal_cancel :: "atm handler" where
  "on_withdrawal_cancel cancel_pressed = Some (\<lambda>a.
     (a\<lparr>state := St_doneProcessing\<rparr>,
      [(atm_bank a, cancel_withdrawal (account a) (withdrawal_amount a)),
       (atm_interface a, display_withdrawal_cancelled)]))"
| "on_withdrawal_cancel _ = None"

definition processingWithdrawal :: body where
  "processingWithdrawal = Prompt_wait (\<lambda>a. [])
     (handler_chain [on_withdraw_ok, on_withdraw_denied, on_withdrawal_cancel])"

subsection \<open>processBalance and doneProcessing\<close>

fun on_balance :: "atm handler" where
  "on_balance (balance amount) = Some (\<lambda>a.
     (a\<lparr>state := St_waitForAction\<rparr>, [(atm_interface a, display_balance amount)]))"
| "on_balance _ = None"

definition processBalance :: body where
  "processBalance = Prompt_wait (\<lambda>a. []) (handler_chain [on_balance, cancel_handler])"

definition doneProcessing :: body where
  "doneProcessing = No_wait (\<lambda>a. (a\<lparr>state := St_waitForCard\<rparr>, [(atm_interface a, eject_card)]))"

subsection \<open>run\<close>

fun state_body :: "atm_state \<Rightarrow> body" where
  "state_body St_waitForCard = waitForCard"
| "state_body St_gettingPin = gettingPin"
| "state_body St_verifyingPin = verifyingPin"
| "state_body St_waitForAction = waitForAction"
| "state_body St_processingWithdrawal = processingWithdrawal"
| "state_body St_processBalance = processBalance"
| "state_body St_doneProcessing = doneProcessing"

text \<open>The wait of a state function, on one message.\<close>

definition state_dispatch :: "atm_state \<Rightarrow> message \<Rightarrow> atm action dispatch" where
  "state_dispatch st m =
     (case state_body st of Prompt_wait _ d \<Rightarrow> dispatcher is_close d m | No_wait _ \<Rightarrow> Unhandled)"

lemmas body_defs = waitForCard_def gettingPin_def verifyingPin_def waitForAction_def
  processingWithdrawal_def processBalance_def doneProcessing_def

text \<open>Which messages each state accepts, and what it does with them.\<close>

lemma state_dispatch_cases:
  "state_dispatch st m =
     (case (st, m) of
        (St_doneProcessing, _) \<Rightarrow> Unhandled
      | (_, CloseQueue) \<Rightarrow> Closed
      | (St_waitForCard, card_inserted _) \<Rightarrow> Handled (the (on_card_inserted m))
      | (St_gettingPin, digit_pressed _) \<Rightarrow> Handled (the (on_digit_pressed m))
      | (St_gettingPin, clear_last_pressed) \<Rightarrow> Handled (the (on_clear_last_pressed m))
      | (St_gettingPin, cancel_pressed) \<Rightarrow> Handled (the (cancel_handler m))
      | (St_verifyingPin, pin_verified) \<Rightarrow> Handled (the (on_pin_verified m))
      | (St_verifyingPin, pin_incorrect) \<Rightarrow> Handled (the (on_pin_incorrect m))
      | (St_verifyingPin, cancel_pressed) \<Rightarrow> Handled (the (cancel_handler m))
      | (St_waitForAction, withdraw_pressed _) \<Rightarrow> Handled (the (on_withdraw_pressed m))
      | (St_waitForAction, balance_pressed) \<Rightarrow> Handled (the (on_balance_pressed m))
      | (St_waitForAction, cancel_pressed) \<Rightarrow> Handled (the (cancel_handler m))
      | (St_processingWithdrawal, withdraw_ok) \<Rightarrow> Handled (the (on_withdraw_ok m))
      | (St_processingWithdrawal, withdraw_denied) \<Rightarrow> Handled (the (on_withdraw_denied m))
      | (St_processingWithdrawal, cancel_pressed) \<Rightarrow> Handled (the (on_withdrawal_cancel m))
      | (St_processBalance, balance _) \<Rightarrow> Handled (the (on_balance m))
      | (St_processBalance, cancel_pressed) \<Rightarrow> Handled (the (cancel_handler m))
      | _ \<Rightarrow> Unhandled)"
  by (cases st; cases m)
    (simp_all add: state_dispatch_def body_defs dispatcher_handler_chain is_close_def)

end
