(* ===== verification/Atm_System.thy ===== *)
theory Atm_System
  imports Bank_Machine Interface_Machine Atm_Machine
begin

text \<open>
  The three machines of \<open>include/atm\<close> as they run together (\<open>testATM\<close>): the cash machine, the
  bank and the interface, each in its own thread with its own message queue, and a customer who
  presses keys.

  A step is one thread's next turn: the cash machine sends the prompt of its current state, or
  takes one message in the wait of that state; the bank or the interface takes one message; the
  customer's key or a \<open>CloseQueue\<close> is put into a queue. A handler touches only its own machine
  and appends to the other queues, so that taking it as one step loses no behaviour. A message
  that no handler accepts is thrown away. \<open>CloseQueue\<close> ends \<open>ATM::run\<close>, which catches it;
  \<open>BankMachine::run\<close> and \<open>InterfaceMachine::run\<close> do not, and an exception that leaves a
  thread's function aborts the process. \<open>sys_issued\<close> is a history variable: the money that the
  cash machine has told the interface to issue.
\<close>

record system =
  sys_atm :: atm
  sys_waiting :: bool
  sys_ended :: bool
  sys_bank :: bank
  sys_screen :: screen
  sys_aborted :: bool
  sys_queues :: "queue_id \<Rightarrow> message message_queue"
  sys_issued :: nat

datatype label = User message | Done queue_id | Atm_enter | Atm_recv | Bank_recv | Interface_recv

fun user_message :: "message \<Rightarrow> bool" where
  "user_message (card_inserted _) = True"
| "user_message (digit_pressed _) = True"
| "user_message clear_last_pressed = True"
| "user_message (withdraw_pressed _) = True"
| "user_message cancel_pressed = True"
| "user_message balance_pressed = True"
| "user_message _ = False"

fun money :: "message \<Rightarrow> nat" where
  "money (issue_money n) = unat n"
| "money _ = 0"

definition outbox_money :: "outbox \<Rightarrow> nat" where
  "outbox_money out = sum_list (map (money \<circ> snd) out)"

definition ATM_run_enter :: "system \<Rightarrow> system option" where
  "ATM_run_enter s =
     (if sys_ended s \<or> sys_waiting s then None
      else case state_body (state (sys_atm s)) of
        Prompt_wait prompt d \<Rightarrow>
          Some (s\<lparr>sys_waiting := True, sys_queues := deliver (prompt (sys_atm s)) (sys_queues s)\<rparr>)
      | No_wait act \<Rightarrow>
          (let (a, out) = act (sys_atm s) in
           Some (s\<lparr>sys_atm := a, sys_queues := deliver out (sys_queues s),
                  sys_issued := sys_issued s + outbox_money out\<rparr>)))"

definition ATM_run_recv :: "system \<Rightarrow> system option" where
  "ATM_run_recv s =
     (if sys_ended s \<or> \<not> sys_waiting s then None
      else case Queue_waitAndPop (sys_queues s Atm_queue) of
        None \<Rightarrow> None
      | Some (m, q) \<Rightarrow>
         (let s1 = s\<lparr>sys_queues := (sys_queues s)(Atm_queue := q)\<rparr> in
          case state_dispatch (state (sys_atm s)) m of
            Handled act \<Rightarrow>
              (let (a, out) = act (sys_atm s) in
               Some (s1\<lparr>sys_atm := a, sys_waiting := False, sys_queues := deliver out (sys_queues s1),
                       sys_issued := sys_issued s + outbox_money out\<rparr>))
          | Closed \<Rightarrow> Some (s1\<lparr>sys_ended := True\<rparr>)
          | Unhandled \<Rightarrow> Some s1))"

definition bank_turn :: "system \<Rightarrow> system option" where
  "bank_turn s =
     (case Queue_waitAndPop (sys_queues s Bank_queue) of
        None \<Rightarrow> None
      | Some (m, q) \<Rightarrow>
         (let s1 = s\<lparr>sys_queues := (sys_queues s)(Bank_queue := q)\<rparr> in
          case dispatcher is_close BankMachine_run m of
            Handled act \<Rightarrow>
              (let (b, out) = act (sys_bank s) in
               Some (s1\<lparr>sys_bank := b, sys_queues := deliver out (sys_queues s1)\<rparr>))
          | Closed \<Rightarrow> Some (s1\<lparr>sys_aborted := True\<rparr>)
          | Unhandled \<Rightarrow> Some s1))"

definition interface_turn :: "system \<Rightarrow> system option" where
  "interface_turn s =
     (case Queue_waitAndPop (sys_queues s Interface_queue) of
        None \<Rightarrow> None
      | Some (m, q) \<Rightarrow>
         (let s1 = s\<lparr>sys_queues := (sys_queues s)(Interface_queue := q)\<rparr> in
          case dispatcher is_close InterfaceMachine_run m of
            Handled act \<Rightarrow>
              (let (c, out) = act (sys_screen s) in
               Some (s1\<lparr>sys_screen := c, sys_queues := deliver out (sys_queues s1)\<rparr>))
          | Closed \<Rightarrow> Some (s1\<lparr>sys_aborted := True\<rparr>)
          | Unhandled \<Rightarrow> Some s1))"

fun sys_step :: "label \<Rightarrow> system \<Rightarrow> system option" where
  "sys_step l s =
     (if sys_aborted s then None
      else case l of
        User m \<Rightarrow> (if user_message m
          then Some (s\<lparr>sys_queues := Sender_send (Some Atm_queue) m (sys_queues s)\<rparr>) else None)
      | Done i \<Rightarrow> Some (s\<lparr>sys_queues := Sender_send (Some i) CloseQueue (sys_queues s)\<rparr>)
      | Atm_enter \<Rightarrow> ATM_run_enter s
      | Atm_recv \<Rightarrow> ATM_run_recv s
      | Bank_recv \<Rightarrow> bank_turn s
      | Interface_recv \<Rightarrow> interface_turn s)"

definition sys_start :: "uint32 \<Rightarrow> system" where
  "sys_start w = \<lparr>sys_atm = ATM_new (Some Bank_queue) (Some Interface_queue) w, sys_waiting = False,
     sys_ended = False, sys_bank = BankMachine_new, sys_screen = [], sys_aborted = False,
     sys_queues = (\<lambda>_. Queue_new), sys_issued = 0\<rparr>"

declare sys_step.simps [simp del]

subsection \<open>Steps, seen on the queues\<close>

abbreviation aq :: "system \<Rightarrow> message list" where
  "aq s \<equiv> mq_queue (sys_queues s Atm_queue)"

abbreviation bq :: "system \<Rightarrow> message list" where
  "bq s \<equiv> mq_queue (sys_queues s Bank_queue)"

abbreviation iq :: "system \<Rightarrow> message list" where
  "iq s \<equiv> mq_queue (sys_queues s Interface_queue)"

text \<open>The senders of the cash machine point to the queues of its partners.\<close>

definition wired :: "system \<Rightarrow> bool" where
  "wired s \<longleftrightarrow> atm_bank (sys_atm s) = Some Bank_queue \<and> atm_interface (sys_atm s) = Some Interface_queue"

lemma waitAndPop_Some:
  "Queue_waitAndPop q = Some (m, q') \<longleftrightarrow> mq_queue q = m # mq_queue q' \<and> q' = q\<lparr>mq_queue := tl (mq_queue q)\<rparr>"
  by (auto simp: Queue_waitAndPop_def split: list.splits)

lemma outbox_money_simps [simp]:
  "outbox_money [] = 0" "outbox_money ((x, m) # out) = money m + outbox_money out"
  by (simp_all add: outbox_money_def)

lemma pop_cases:
  obtains "mq_queue q = []" "Queue_waitAndPop q = None"
  | m ms where "mq_queue q = m # ms" "Queue_waitAndPop q = Some (m, q\<lparr>mq_queue := ms\<rparr>)"
  by (cases "mq_queue q") (auto simp: Queue_waitAndPop_def)

text \<open>
  The turn of the cash machine on a message it handles, one case per handler of the code.
\<close>

lemma state_dispatch_HandledE:
  assumes "state_dispatch st m = Handled act"
  obtains
    acc where "st = St_waitForCard" "m = card_inserted acc" "act = the (on_card_inserted m)"
  | d where "st = St_gettingPin" "m = digit_pressed d" "act = the (on_digit_pressed m)"
  | "st = St_gettingPin" "m = clear_last_pressed" "act = the (on_clear_last_pressed m)"
  | "st \<in> {St_gettingPin, St_verifyingPin, St_waitForAction, St_processBalance}" "m = cancel_pressed"
    "act = the (cancel_handler m)"
  | "st = St_verifyingPin" "m = pin_verified" "act = the (on_pin_verified m)"
  | "st = St_verifyingPin" "m = pin_incorrect" "act = the (on_pin_incorrect m)"
  | n where "st = St_waitForAction" "m = withdraw_pressed n" "act = the (on_withdraw_pressed m)"
  | "st = St_waitForAction" "m = balance_pressed" "act = the (on_balance_pressed m)"
  | "st = St_processingWithdrawal" "m = withdraw_ok" "act = the (on_withdraw_ok m)"
  | "st = St_processingWithdrawal" "m = withdraw_denied" "act = the (on_withdraw_denied m)"
  | "st = St_processingWithdrawal" "m = cancel_pressed" "act = the (on_withdrawal_cancel m)"
  | n where "st = St_processBalance" "m = balance n" "act = the (on_balance m)"
  using assms
  by (cases st; cases m) (simp_all add: state_dispatch_cases)

lemma state_body_prompt:
  assumes "state_body st = Prompt_wait prompt d"
  shows "st \<noteq> St_doneProcessing \<and>
    (prompt a = [] \<or> (\<exists>m. display_request m \<and> money m = 0 \<and> prompt a = [(atm_interface a, m)]))"
  using assms by (cases st) (auto simp: body_defs)

lemma state_body_No_wait:
  "state_body st = No_wait act \<longleftrightarrow> st = St_doneProcessing \<and>
     act = (\<lambda>a. (a\<lparr>state := St_waitForCard\<rparr>, [(atm_interface a, eject_card)]))"
  by (cases st) (auto simp: body_defs)

text \<open>Every step of the system, with what it does to the queues.\<close>

lemma sys_stepE:
  assumes "sys_step l s = Some s'"
  obtains
    (user) m where "l = User m" "user_message m" "aq s' = aq s @ [m]" "bq s' = bq s" "iq s' = iq s"
      "sys_atm s' = sys_atm s" "sys_bank s' = sys_bank s" "sys_issued s' = sys_issued s"
  | (close) i where "l = Done i" "aq s' = aq s @ (if i = Atm_queue then [CloseQueue] else [])"
      "bq s' = bq s @ (if i = Bank_queue then [CloseQueue] else [])"
      "iq s' = iq s @ (if i = Interface_queue then [CloseQueue] else [])"
      "sys_atm s' = sys_atm s" "sys_bank s' = sys_bank s" "sys_issued s' = sys_issued s"
  | (enter) out where "l = Atm_enter" "\<not> sys_waiting s"
      "out = [] \<or> (\<exists>m. display_request m \<and> money m = 0 \<and> out = [(atm_interface (sys_atm s), m)])"
      "aq s' = aq s @ sent_to Atm_queue out" "bq s' = bq s @ sent_to Bank_queue out"
      "iq s' = iq s @ sent_to Interface_queue out"
      "sys_atm s' = sys_atm s \<or> state (sys_atm s) = St_doneProcessing \<and>
         sys_atm s' = (sys_atm s)\<lparr>state := St_waitForCard\<rparr>"
      "sys_bank s' = sys_bank s" "sys_issued s' = sys_issued s"
  | (recv) m ms act out where "l = Atm_recv" "aq s = m # ms" "sys_waiting s"
      "state_dispatch (state (sys_atm s)) m = Handled act" "act (sys_atm s) = (sys_atm s', out)"
      "aq s' = ms @ sent_to Atm_queue out" "bq s' = bq s @ sent_to Bank_queue out"
      "iq s' = iq s @ sent_to Interface_queue out"
      "sys_bank s' = sys_bank s" "sys_issued s' = sys_issued s + outbox_money out"
  | (drop) m where "l = Atm_recv" "aq s = m # aq s'" "sys_waiting s"
      "\<And>act. state_dispatch (state (sys_atm s)) m \<noteq> Handled act"
      "bq s' = bq s" "iq s' = iq s"
      "sys_atm s' = sys_atm s" "sys_bank s' = sys_bank s" "sys_issued s' = sys_issued s"
  | (bank) m ms act out where "l = Bank_recv" "bq s = m # ms"
      "dispatcher is_close BankMachine_run m = Handled act" "act (sys_bank s) = (sys_bank s', out)"
      "aq s' = aq s @ sent_to Atm_queue out" "bq s' = ms @ sent_to Bank_queue out"
      "iq s' = iq s @ sent_to Interface_queue out"
      "sys_atm s' = sys_atm s" "sys_issued s' = sys_issued s"
  | (bank_drop) m where "l = Bank_recv" "bq s = m # bq s'"
      "\<And>act. dispatcher is_close BankMachine_run m \<noteq> Handled act" "aq s' = aq s" "iq s' = iq s"
      "sys_atm s' = sys_atm s" "sys_bank s' = sys_bank s" "sys_issued s' = sys_issued s"
  | (interface) m where "l = Interface_recv" "iq s = m # iq s'" "aq s' = aq s" "bq s' = bq s"
      "sys_atm s' = sys_atm s" "sys_bank s' = sys_bank s" "sys_issued s' = sys_issued s"
proof (cases l)
  case (User m)
  with assms show ?thesis by (intro user [of m]) (auto simp: sys_step.simps split: if_splits)
next
  case (Done i)
  with assms show ?thesis by (intro close [of i]) (auto simp: sys_step.simps split: if_splits)
next
  case Atm_enter
  with assms have run: "ATM_run_enter s = Some s'" by (simp add: sys_step.simps split: if_splits)
  show ?thesis
  proof (cases "state_body (state (sys_atm s))")
    case (Prompt_wait prompt d)
    with run Atm_enter show ?thesis
      using state_body_prompt [OF Prompt_wait, of "sys_atm s"]
      by (intro enter [of "prompt (sys_atm s)"])
        (auto simp: ATM_run_enter_def deliver_queue split: if_splits)
  next
    case (No_wait act)
    with run Atm_enter show ?thesis
      by (intro enter [of "[(atm_interface (sys_atm s), eject_card)]"])
        (auto simp: ATM_run_enter_def deliver_queue state_body_No_wait doneProcessing_def split: if_splits)
  qed
next
  case Atm_recv
  with assms have run: "ATM_run_recv s = Some s'" by (simp add: sys_step.simps split: if_splits)
  then obtain m ms where q: "aq s = m # ms"
    "Queue_waitAndPop (sys_queues s Atm_queue) = Some (m, (sys_queues s Atm_queue)\<lparr>mq_queue := ms\<rparr>)"
    by (cases "sys_queues s Atm_queue" rule: pop_cases) (auto simp: ATM_run_recv_def split: if_splits)
  show ?thesis
  proof (cases "state_dispatch (state (sys_atm s)) m")
    case (Handled act)
    with run q Atm_recv show ?thesis
      by (intro recv [of m ms act "snd (act (sys_atm s))"])
        (auto simp: ATM_run_recv_def deliver_queue Let_def split: if_splits prod.splits)
  qed (use run q Atm_recv in \<open>auto intro!: drop [of m] simp: ATM_run_recv_def split: if_splits\<close>)
next
  case Bank_recv
  with assms have run: "bank_turn s = Some s'" by (simp add: sys_step.simps split: if_splits)
  then obtain m ms where q: "bq s = m # ms"
    "Queue_waitAndPop (sys_queues s Bank_queue) = Some (m, (sys_queues s Bank_queue)\<lparr>mq_queue := ms\<rparr>)"
    by (cases "sys_queues s Bank_queue" rule: pop_cases) (auto simp: bank_turn_def)
  show ?thesis
  proof (cases "dispatcher is_close BankMachine_run m")
    case (Handled act)
    with run q Bank_recv show ?thesis
      by (intro bank [of m ms act "snd (act (sys_bank s))"])
        (auto simp: bank_turn_def deliver_queue Let_def split: prod.splits)
  qed (use run q Bank_recv in \<open>auto intro!: bank_drop [of m] simp: bank_turn_def\<close>)
next
  case Interface_recv
  with assms have run: "interface_turn s = Some s'" by (simp add: sys_step.simps split: if_splits)
  then obtain m ms where q: "iq s = m # ms" "Queue_waitAndPop (sys_queues s Interface_queue)
      = Some (m, (sys_queues s Interface_queue)\<lparr>mq_queue := ms\<rparr>)"
    by (cases "sys_queues s Interface_queue" rule: pop_cases) (auto simp: interface_turn_def)
  show ?thesis
    using run q Interface_recv
    by (intro interface [of m])
      (auto simp: interface_turn_def Let_def deliver_queue print_lines_def
        dest!: InterfaceMachine_prints split: dispatch.splits)
qed

subsection \<open>Well-formedness\<close>

fun bank_reply :: "message \<Rightarrow> bool" where
  "bank_reply pin_verified = True"
| "bank_reply pin_incorrect = True"
| "bank_reply withdraw_ok = True"
| "bank_reply withdraw_denied = True"
| "bank_reply (balance _) = True"
| "bank_reply _ = False"

text \<open>A request the cash machine makes: it asks for the reply on its own queue, and a PIN to be
  verified has four digits.\<close>

fun proper_request :: "message \<Rightarrow> bool" where
  "proper_request (verify_pin acc p q) \<longleftrightarrow> length p = 4 \<and> q = Some Atm_queue"
| "proper_request (withdraw acc n q) \<longleftrightarrow> q = Some Atm_queue"
| "proper_request (get_balance acc q) \<longleftrightarrow> q = Some Atm_queue"
| "proper_request (cancel_withdrawal acc n) \<longleftrightarrow> True"
| "proper_request _ \<longleftrightarrow> False"

fun pin_ok :: "atm_state \<Rightarrow> string \<Rightarrow> bool" where
  "pin_ok St_gettingPin p \<longleftrightarrow> length p < 4"
| "pin_ok St_verifyingPin p \<longleftrightarrow> length p = 4"
| "pin_ok _ p \<longleftrightarrow> True"

definition sys_wf :: "system \<Rightarrow> bool" where
  "sys_wf s \<longleftrightarrow> wired s \<and> pin_ok (state (sys_atm s)) (pin (sys_atm s)) \<and>
     (\<forall>m \<in> set (aq s). user_message m \<or> bank_reply m \<or> m = CloseQueue) \<and>
     (\<forall>m \<in> set (bq s). proper_request m \<or> m = CloseQueue) \<and>
     (\<forall>m \<in> set (iq s). display_request m \<or> m = CloseQueue)"

lemma sys_wf_start: "sys_wf (sys_start w)"
  by (simp add: sys_wf_def sys_start_def wired_def ATM_new_def Queue_new_def)

text \<open>What a handler of the cash machine sends and leaves, when its senders are wired.\<close>

lemma atm_action_wf:
  assumes "state_dispatch (state a) m = Handled act" "act a = (a', out)"
    and "atm_bank a = Some Bank_queue" "atm_interface a = Some Interface_queue" "pin_ok (state a) (pin a)"
  shows "atm_bank a' = Some Bank_queue \<and> atm_interface a' = Some Interface_queue \<and>
    pin_ok (state a') (pin a') \<and> sent_to Atm_queue out = [] \<and>
    (\<forall>m \<in> set (sent_to Bank_queue out). proper_request m) \<and>
    (\<forall>m \<in> set (sent_to Interface_queue out). display_request m)"
  using assms(1)
  by (cases rule: state_dispatch_HandledE)
    (use assms(2-) in \<open>auto simp: ATM_getSender_def Let_def split: if_splits\<close>)

lemma bank_action_wf:
  assumes "proper_request m" "dispatcher is_close BankMachine_run m = Handled act" "act b = (b', out)"
  shows "sent_to Bank_queue out = [] \<and> sent_to Interface_queue out = [] \<and>
    (\<forall>m \<in> set (sent_to Atm_queue out). bank_reply m)"
  using assms by (cases m) (auto simp: BankMachine_handles split: if_splits)

lemma CloseQueue_dispatch: "dispatcher is_close BankMachine_run CloseQueue = Closed"
  by (simp add: BankMachine_handles)

lemma sys_wf_step:
  assumes wf: "sys_wf s" and step: "sys_step l s = Some s'"
  shows "sys_wf s'"
  using step
proof (cases rule: sys_stepE)
  case (recv m ms act out)
  then show ?thesis
    using wf atm_action_wf [OF recv(4,5)] by (auto simp: sys_wf_def wired_def)
next
  case (bank m ms act out)
  then have "m \<noteq> CloseQueue" by (auto simp: CloseQueue_dispatch)
  with wf bank(2) have "proper_request m" by (auto simp: sys_wf_def)
  from bank_action_wf [OF this bank(3,4)] show ?thesis
    using wf bank by (auto simp: sys_wf_def wired_def)
qed (use wf in \<open>auto simp: sys_wf_def wired_def split: if_splits\<close>)

subsection \<open>Requests and replies\<close>

datatype kind = K_pin | K_withdraw | K_balance

fun reply_kind :: "message \<Rightarrow> kind list" where
  "reply_kind pin_verified = [K_pin]"
| "reply_kind pin_incorrect = [K_pin]"
| "reply_kind withdraw_ok = [K_withdraw]"
| "reply_kind withdraw_denied = [K_withdraw]"
| "reply_kind (balance _) = [K_balance]"
| "reply_kind _ = []"

fun request_kind :: "message \<Rightarrow> kind list" where
  "request_kind (verify_pin _ _ _) = [K_pin]"
| "request_kind (withdraw _ _ _) = [K_withdraw]"
| "request_kind (get_balance _ _) = [K_balance]"
| "request_kind _ = []"

fun awaits :: "atm_state \<Rightarrow> kind list" where
  "awaits St_verifyingPin = [K_pin]"
| "awaits St_processingWithdrawal = [K_withdraw]"
| "awaits St_processBalance = [K_balance]"
| "awaits _ = []"

definition replies :: "message list \<Rightarrow> kind list" where
  "replies ms = concat (map reply_kind ms)"

definition requests :: "message list \<Rightarrow> kind list" where
  "requests ms = concat (map request_kind ms)"

text \<open>
  Everything under way between the two machines, oldest first: the replies that wait in the
  queue of the cash machine, then the requests that wait in the queue of the bank.
\<close>

definition pipeline :: "system \<Rightarrow> kind list" where
  "pipeline s = replies (aq s) @ requests (bq s)"

lemma replies_simps [simp]:
  "replies [] = []" "replies (m # ms) = reply_kind m @ replies ms" "replies (xs @ ys) = replies xs @ replies ys"
  by (simp_all add: replies_def)

lemma requests_simps [simp]:
  "requests [] = []" "requests (m # ms) = request_kind m @ requests ms"
  "requests (xs @ ys) = requests xs @ requests ys"
  by (simp_all add: requests_def)

lemma reply_kind_user [simp]: "user_message m \<Longrightarrow> reply_kind m = []"
  by (cases m) auto

lemma bank_answers:
  assumes "proper_request m" "dispatcher is_close BankMachine_run m = Handled act" "act b = (b', out)"
  shows "replies (sent_to Atm_queue out) = request_kind m"
  using assms by (cases m) (auto simp: BankMachine_handles split: if_splits)

lemma unhandled_request_kind:
  "(\<And>act. dispatcher is_close BankMachine_run m \<noteq> Handled act) \<Longrightarrow> request_kind m = []"
  by (cases m) (auto simp: BankMachine_handles)

text \<open>
  The reply the cash machine waits for is the last one under way: the machine may have dropped
  out of earlier waits (by \<open>cancel_pressed\<close>), but the request of the current wait came after
  those of the earlier ones.
\<close>

definition reply_coming :: "system \<Rightarrow> bool" where
  "reply_coming s \<longleftrightarrow>
     (awaits (state (sys_atm s)) \<noteq> [] \<longrightarrow> (\<exists>ks. pipeline s = ks @ awaits (state (sys_atm s))))"

lemma unhandled_reply_kind:
  assumes "\<And>act. state_dispatch st m \<noteq> Handled act" "st \<noteq> St_doneProcessing"
  shows "reply_kind m = [] \<or> reply_kind m \<noteq> awaits st"
  using assms by (cases m; cases st) (auto simp: state_dispatch_cases)

lemma length_reply_kind: "reply_kind m \<noteq> [] \<Longrightarrow> \<exists>k. reply_kind m = [k]"
  by (cases m) auto

lemma length_awaits: "awaits st \<noteq> [] \<Longrightarrow> \<exists>k. awaits st = [k]"
  by (cases st) auto

lemma awaits_single: "xs @ k # ys = awaits st \<Longrightarrow> xs = [] \<and> ys = []"
  by (cases st) (auto simp: append_eq_Cons_conv)

lemma atm_action_requests:
  assumes "state_dispatch (state a) m = Handled act" "act a = (a', out)" "atm_bank a = Some Bank_queue"
    "atm_interface a = Some Interface_queue"
  shows "requests (sent_to Bank_queue out) = awaits (state a')"
  using assms(1)
  by (cases rule: state_dispatch_HandledE)
    (use assms(2-) in \<open>auto simp: Let_def split: if_splits\<close>)

lemma reply_coming_step:
  assumes wf: "sys_wf s" and inv: "reply_coming s" and step: "sys_step l s = Some s'"
  shows "reply_coming s'"
  using step
proof (cases rule: sys_stepE)
  case (recv m ms act out)
  then have "requests (sent_to Bank_queue out) = awaits (state (sys_atm s'))"
    using wf atm_action_requests [OF recv(4,5)] by (simp add: sys_wf_def wired_def)
  then show ?thesis using recv by (auto simp: reply_coming_def pipeline_def)
next
  case (drop m)
  have "\<exists>ks. pipeline s' = ks @ awaits (state (sys_atm s))"
    if "awaits (state (sys_atm s)) \<noteq> []" "pipeline s = ks @ awaits (state (sys_atm s))" for ks
  proof -
    have st: "state (sys_atm s) \<noteq> St_doneProcessing" using that(1) by auto
    have "reply_kind m @ pipeline s' = ks @ awaits (state (sys_atm s))"
      using drop that(2) by (simp add: pipeline_def)
    then show ?thesis
      using unhandled_reply_kind [OF drop(4) st] length_reply_kind [of m] length_awaits [OF that(1)]
      by (cases "reply_kind m"; cases ks) auto
  qed
  then show ?thesis using inv drop by (auto simp: reply_coming_def)
next
  case (bank m ms act out)
  then have "m \<noteq> CloseQueue" by (auto simp: CloseQueue_dispatch)
  with wf bank(2) have m: "proper_request m" by (auto simp: sys_wf_def)
  have "pipeline s' = pipeline s"
    using bank bank_answers [OF m bank(3,4)] bank_action_wf [OF m bank(3,4)] by (simp add: pipeline_def)
  then show ?thesis using inv bank by (simp add: reply_coming_def)
next
  case (bank_drop m)
  then show ?thesis
    using inv unhandled_request_kind [OF bank_drop(3)] by (simp add: reply_coming_def pipeline_def)
next
  case (enter out)
  then have "pipeline s' = pipeline s"
    using wf by (auto simp: pipeline_def sys_wf_def wired_def)
  then show ?thesis using inv enter by (auto simp: reply_coming_def)
qed (use inv in \<open>auto simp: reply_coming_def pipeline_def split: if_splits\<close>)

interpretation atm_sys: invariant_system sys_step "sys_start w" "\<lambda>s. sys_wf s \<and> reply_coming s"
proof
  show "sys_wf (sys_start w) \<and> reply_coming (sys_start w)"
    using sys_wf_start by (simp add: reply_coming_def sys_start_def ATM_new_def)
next
  fix s l s'
  assume "sys_wf s \<and> reply_coming s" "sys_step l s = Some s'"
  then show "sys_wf s' \<and> reply_coming s'"
    by (blast intro: sys_wf_step reply_coming_step)
qed

subsection \<open>Concrete schedules\<close>

lemmas sys_eval = sys_start_def sys_step.simps ATM_run_enter_def ATM_run_recv_def bank_turn_def interface_turn_def
  ATM_new_def Queue_new_def BankMachine_new_def Queue_waitAndPop_def Queue_push_def Sender_send_def ATM_getSender_def
  body_defs state_dispatch_cases BankMachine_handles Let_def

text \<open>The customer inserts a card and types a PIN; the machine takes each key as it comes.\<close>

definition type_pin :: "string \<Rightarrow> label list" where
  "type_pin p = concat (map (\<lambda>d. [User (digit_pressed d), Atm_enter, Atm_recv]) p)"

definition insert_card :: "label list" where
  "insert_card = [User (card_inserted ''acc1234''), Atm_enter, Atm_recv]"

lemma session_to_verification:
  "\<exists>s. run_labels sys_step (insert_card @ type_pin ''0000'') (sys_start 0) = Some s \<and>
     state (sys_atm s) = St_verifyingPin \<and> bq s = [verify_pin ''acc1234'' ''0000'' ATM_getSender]"
  by (simp add: sys_eval insert_card_def type_pin_def)

subsection \<open>Properties of every schedule\<close>

text \<open>
  The bank and the interface never throw a message away: in every reachable state, each
  message that waits for the bank or for the interface is one it handles, or the \<open>CloseQueue\<close>
  of \<open>done\<close>. (The cash machine, by contrast, throws away what its current state does not handle.)
\<close>

theorem no_message_to_bank_or_interface_is_dropped:
  assumes "reach sys_step (sys_start w) s"
  shows "(\<forall>m \<in> set (bq s). dispatcher is_close BankMachine_run m \<noteq> Unhandled) \<and>
    (\<forall>m \<in> set (iq s). dispatcher is_close InterfaceMachine_run m \<noteq> Unhandled)"
proof -
  have wf: "sys_wf s" using atm_sys.inv_reach [OF assms] by simp
  have "dispatcher is_close BankMachine_run m \<noteq> Unhandled" if "proper_request m \<or> m = CloseQueue" for m
    using that by (cases m) (simp_all add: BankMachine_handles)
  moreover have "dispatcher is_close InterfaceMachine_run m \<noteq> Unhandled"
    if "display_request m \<or> m = CloseQueue" for m
    using that InterfaceMachine_handles [of m] InterfaceMachine_other [of m] by fastforce
  ultimately show ?thesis using wf by (simp add: sys_wf_def)
qed

theorem no_message_to_bank_or_interface_is_dropped_witness:
  "\<exists>s. run_labels sys_step [Atm_enter, User (card_inserted ''acc1234''), Atm_recv] (sys_start 0) = Some s \<and>
     iq s = [display_enter_card, display_enter_pin] \<and>
     (\<forall>m \<in> set (iq s). dispatcher is_close InterfaceMachine_run m \<noteq> Unhandled)"
proof -
  obtain s where run: "run_labels sys_step [Atm_enter, User (card_inserted ''acc1234''), Atm_recv] (sys_start 0)
      = Some s" and iq: "iq s = [display_enter_card, display_enter_pin]"
    by (simp add: sys_step.simps sys_start_def ATM_run_enter_def ATM_run_recv_def ATM_new_def body_defs
        Queue_waitAndPop_def Queue_new_def state_dispatch_cases)
  from no_message_to_bank_or_interface_is_dropped [OF run_labels_reach [OF run]] run iq
  show ?thesis by blast
qed

text \<open>
  The PIN the cash machine collects has fewer than four digits while it is being typed and
  exactly four when it is sent: every \<open>verify_pin\<close> that reaches the bank carries four digits.
\<close>

theorem pin_has_four_digits:
  assumes "reach sys_step (sys_start w) s"
  shows "(state (sys_atm s) = St_gettingPin \<longrightarrow> length (pin (sys_atm s)) < 4) \<and>
    (\<forall>acc p q. verify_pin acc p q \<in> set (bq s) \<longrightarrow> length p = 4 \<and> q = ATM_getSender)"
proof -
  have wf: "sys_wf s" using atm_sys.inv_reach [OF assms] by simp
  then show ?thesis by (auto simp: sys_wf_def ATM_getSender_def)
qed

theorem pin_has_four_digits_witness:
  "\<exists>s. run_labels sys_step (insert_card @ type_pin ''0000'') (sys_start 0) = Some s \<and>
     verify_pin ''acc1234'' ''0000'' ATM_getSender \<in> set (bq s) \<and> length ''0000'' = 4"
proof -
  obtain s where run: "run_labels sys_step (insert_card @ type_pin ''0000'') (sys_start 0) = Some s"
    and "verify_pin ''acc1234'' ''0000'' ATM_getSender \<in> set (bq s)"
    using session_to_verification by auto
  moreover from this pin_has_four_digits [OF run_labels_reach [OF run]] have "length ''0000'' = 4" by blast
  ultimately show ?thesis by blast
qed

text \<open>
  The cash machine never waits for a reply that will not come: whenever it is in a state that
  waits for the bank, a reply of the right kind is in its queue or a request for one is in the
  queue of the bank, whatever the customer typed or cancelled before.
\<close>

theorem atm_never_waits_in_vain:
  assumes "reach sys_step (sys_start w) s" and "awaits (state (sys_atm s)) = [k]"
  shows "(\<exists>m \<in> set (aq s). reply_kind m = [k]) \<or> (\<exists>m \<in> set (bq s). request_kind m = [k])"
proof -
  obtain ks where "replies (aq s) @ requests (bq s) = ks @ [k]"
    using atm_sys.inv_reach [OF assms(1)] assms(2) by (auto simp: reply_coming_def pipeline_def)
  then have "k \<in> set (replies (aq s) @ requests (bq s))" by simp
  then consider m where "m \<in> set (aq s)" "k \<in> set (reply_kind m)" | m where "m \<in> set (bq s)" "k \<in> set (request_kind m)"
    by (auto simp: replies_def requests_def)
  then show ?thesis
  proof cases
    case (1 m)
    from 1(2) have "reply_kind m = [k]" by (cases m rule: message.exhaust) auto
    with 1(1) show ?thesis by blast
  next
    case (2 m)
    from 2(2) have "request_kind m = [k]" by (cases m rule: message.exhaust) auto
    with 2(1) show ?thesis by blast
  qed
qed

theorem atm_never_waits_in_vain_witness:
  "\<exists>s. run_labels sys_step (insert_card @ type_pin ''0000'') (sys_start 0) = Some s \<and>
     awaits (state (sys_atm s)) = [K_pin] \<and>
     ((\<exists>m \<in> set (aq s). reply_kind m = [K_pin]) \<or> (\<exists>m \<in> set (bq s). request_kind m = [K_pin]))"
proof -
  obtain s where run: "run_labels sys_step (insert_card @ type_pin ''0000'') (sys_start 0) = Some s"
    and "state (sys_atm s) = St_verifyingPin"
    using session_to_verification by auto
  then have "awaits (state (sys_atm s)) = [K_pin]" by simp
  with run atm_never_waits_in_vain [OF run_labels_reach [OF run] this] show ?thesis by blast
qed

subsection \<open>Schedules without cancellation\<close>

definition sys_step_nc :: "label \<Rightarrow> system \<Rightarrow> system option" where
  "sys_step_nc l s = (if l = User cancel_pressed then None else sys_step l s)"

text \<open>
  Without \<open>cancel_pressed\<close> the two machines work in strict alternation: at most one request or
  reply is under way, and it belongs to the current wait.
\<close>

definition in_step :: "system \<Rightarrow> bool" where
  "in_step s \<longleftrightarrow> cancel_pressed \<notin> set (aq s) \<and> pipeline s = awaits (state (sys_atm s)) \<and>
     (\<forall>acc n. cancel_withdrawal acc n \<notin> set (bq s)) \<and>
     (\<forall>acc n q. withdraw acc n q \<in> set (bq s) \<longrightarrow> n = withdrawal_amount (sys_atm s)) \<and>
     (\<forall>acc p q. verify_pin acc p q \<in> set (bq s) \<longrightarrow> p = pin (sys_atm s))"

definition authenticated :: "system \<Rightarrow> bool" where
  "authenticated s \<longleftrightarrow> (pin_verified \<in> set (aq s) \<longrightarrow> pin (sys_atm s) = ''0000'') \<and>
     (state (sys_atm s) \<in> {St_waitForAction, St_processingWithdrawal, St_processBalance} \<longrightarrow>
        pin (sys_atm s) = ''0000'')"

text \<open>The money in the account, the money issued, and the money granted but not yet issued.\<close>

definition conserved :: "system \<Rightarrow> bool" where
  "conserved s \<longleftrightarrow> unat (bank_balance (sys_bank s)) + sys_issued s +
     count_list (aq s) withdraw_ok * unat (withdrawal_amount (sys_atm s)) = 199"

definition nc_inv :: "system \<Rightarrow> bool" where
  "nc_inv s \<longleftrightarrow> sys_wf s \<and> in_step s \<and> authenticated s \<and> conserved s"

lemma replies_Nil_iff: "replies ms = [] \<longleftrightarrow> (\<forall>m \<in> set ms. reply_kind m = [])"
  by (auto simp: replies_def)

lemma requests_Nil_iff: "requests ms = [] \<longleftrightarrow> (\<forall>m \<in> set ms. request_kind m = [])"
  by (auto simp: requests_def)

lemma no_replies:
  assumes "replies ms = []"
  shows "count_list ms withdraw_ok = 0" "pin_verified \<notin> set ms"
  using assms by (auto simp: replies_Nil_iff count_list_0_iff)

lemma no_requests:
  assumes "requests ms = []"
  shows "withdraw acc n q \<notin> set ms" "verify_pin acc p q \<notin> set ms"
  using assms by (auto simp: requests_Nil_iff)

text \<open>What a handler of the cash machine other than a cancellation does.\<close>

lemma handled_reply_kind:
  "state_dispatch st m = Handled act \<Longrightarrow> m \<noteq> cancel_pressed \<Longrightarrow> reply_kind m = awaits st"
  by (erule state_dispatch_HandledE) auto

lemma atm_action_requests_now:
  assumes "state_dispatch (state a) m = Handled act" "act a = (a', out)" "m \<noteq> cancel_pressed"
    and "atm_bank a = Some Bank_queue" "atm_interface a = Some Interface_queue"
  shows "(\<forall>acc n. cancel_withdrawal acc n \<notin> set (sent_to Bank_queue out)) \<and>
    (\<forall>acc n q. withdraw acc n q \<in> set (sent_to Bank_queue out) \<longrightarrow> n = withdrawal_amount a') \<and>
    (\<forall>acc p q. verify_pin acc p q \<in> set (sent_to Bank_queue out) \<longrightarrow> p = pin a')"
  using assms(1)
  by (cases rule: state_dispatch_HandledE)
    (use assms(2-) in \<open>auto simp: Let_def split: if_splits\<close>)

lemma atm_action_money:
  assumes "state_dispatch (state a) m = Handled act" "act a = (a', out)"
  shows "outbox_money out = (if m = withdraw_ok then unat (withdrawal_amount a) else 0) \<and>
    (m = withdraw_ok \<longrightarrow> withdrawal_amount a' = withdrawal_amount a)"
  using assms(1)
  by (cases rule: state_dispatch_HandledE)
    (use assms(2-) in \<open>auto simp: Let_def split: if_splits\<close>)

lemma atm_action_pin:
  assumes "state_dispatch (state a) m = Handled act" "act a = (a', out)" "m \<noteq> cancel_pressed"
    and "state a' \<in> {St_waitForAction, St_processingWithdrawal, St_processBalance}"
  shows "pin a' = pin a \<and>
    (m = pin_verified \<or> state a \<in> {St_waitForAction, St_processingWithdrawal, St_processBalance})"
  using assms(1)
  by (cases rule: state_dispatch_HandledE)
    (use assms(2-) in \<open>auto simp: Let_def split: if_splits\<close>)

lemma nc_recv:
  assumes inv: "nc_inv s"
    and q: "aq s = m # ms" and disp: "state_dispatch (state (sys_atm s)) m = Handled act"
    and act: "act (sys_atm s) = (sys_atm s', out)" and s': "aq s' = ms @ sent_to Atm_queue out"
      "bq s' = bq s @ sent_to Bank_queue out" "sys_bank s' = sys_bank s"
      "sys_issued s' = sys_issued s + outbox_money out"
  shows "in_step s' \<and> authenticated s' \<and> conserved s'"
proof -
  have m: "m \<noteq> cancel_pressed" and wired: "atm_bank (sys_atm s) = Some Bank_queue"
    "atm_interface (sys_atm s) = Some Interface_queue" "pin_ok (state (sys_atm s)) (pin (sys_atm s))"
    using inv q by (auto simp: nc_inv_def in_step_def sys_wf_def wired_def)
  have idle: "replies ms = []" "requests (bq s) = []"
    using inv q handled_reply_kind [OF disp m] by (auto simp: nc_inv_def in_step_def pipeline_def)
  note quiet = no_replies [OF idle(1)] no_requests [OF idle(2)]
  have none: "sent_to Atm_queue out = []" using atm_action_wf [OF disp act wired] by simp
  have "in_step s'"
    using inv q s' none idle quiet atm_action_requests [OF disp act wired(1,2)]
      atm_action_requests_now [OF disp act m wired(1,2)]
    by (auto simp: nc_inv_def in_step_def pipeline_def)
  moreover have "authenticated s'"
    using inv q s' none quiet atm_action_pin [OF disp act m]
    by (auto simp: nc_inv_def authenticated_def)
  moreover have "conserved s'"
    using inv q s' none quiet atm_action_money [OF disp act]
    by (auto simp: nc_inv_def conserved_def)
  ultimately show ?thesis by simp
qed

lemma bank_action_money:
  assumes "dispatcher is_close BankMachine_run m = Handled act" "act b = (b', out)"
    and "proper_request m" "\<And>acc n. m \<noteq> cancel_withdrawal acc n"
    and "\<And>acc n q. m = withdraw acc n q \<Longrightarrow> n = amount"
  shows "unat (bank_balance b') + count_list (sent_to Atm_queue out) withdraw_ok * unat amount =
    unat (bank_balance b)"
  using assms by (cases m) (auto simp: BankMachine_handles word_le_nat_alt unat_sub split: if_splits)

lemma bank_action_pin:
  assumes "dispatcher is_close BankMachine_run m = Handled act" "act b = (b', out)" "proper_request m"
    and "pin_verified \<in> set (sent_to Atm_queue out)"
  shows "\<exists>acc q. m = verify_pin acc ''0000'' q"
  using assms by (cases m) (auto simp: BankMachine_handles split: if_splits)

lemma nc_bank:
  assumes inv: "nc_inv s"
    and q: "bq s = m # ms" and disp: "dispatcher is_close BankMachine_run m = Handled act"
    and act: "act (sys_bank s) = (sys_bank s', out)" and s': "aq s' = aq s @ sent_to Atm_queue out"
      "bq s' = ms @ sent_to Bank_queue out" "sys_atm s' = sys_atm s" "sys_issued s' = sys_issued s"
  shows "in_step s' \<and> authenticated s' \<and> conserved s'"
proof -
  have "m \<noteq> CloseQueue" using disp by (auto simp: CloseQueue_dispatch)
  with inv q have m: "proper_request m" and nc: "\<And>acc n. m \<noteq> cancel_withdrawal acc n"
    by (auto simp: nc_inv_def sys_wf_def in_step_def)
  obtain k where "request_kind m = [k]" using m nc by (cases m) auto
  then have "replies (aq s) @ k # requests ms = awaits (state (sys_atm s))"
    using inv q by (simp add: nc_inv_def in_step_def pipeline_def)
  then have idle: "replies (aq s) = []" "requests ms = []"
    by (auto dest: awaits_single)
  note quiet = no_replies [OF idle(1)] no_requests [OF idle(2)]
  have none: "sent_to Bank_queue out = []" "\<forall>x \<in> set (sent_to Atm_queue out). bank_reply x"
    using bank_action_wf [OF m disp act] by simp_all
  have "cancel_pressed \<notin> set (sent_to Atm_queue out)" using none(2) by auto
  then have "in_step s'"
    using inv q s' none bank_answers [OF m disp act] by (auto simp: nc_inv_def in_step_def pipeline_def)
  moreover have "authenticated s'"
    using inv q s' quiet bank_action_pin [OF disp act m]
    by (auto simp: nc_inv_def authenticated_def in_step_def)
  moreover have "conserved s'"
    using inv q s' quiet bank_action_money [OF disp act m nc, of "withdrawal_amount (sys_atm s)"]
    by (auto simp: nc_inv_def conserved_def in_step_def)
  ultimately show ?thesis by simp
qed

lemmas nc_defs = nc_inv_def in_step_def authenticated_def conserved_def pipeline_def

text \<open>No message that the cash machine throws away is a reply it waits for.\<close>

lemma nc_drop:
  assumes "nc_inv s" and "aq s = m # aq s'" "bq s' = bq s" "sys_atm s' = sys_atm s"
    and "\<And>act. state_dispatch (state (sys_atm s)) m \<noteq> Handled act"
  shows "reply_kind m = []" "m \<noteq> withdraw_ok" "m \<noteq> pin_verified"
proof -
  have "reply_kind m @ replies (aq s') @ requests (bq s) = awaits (state (sys_atm s))"
    using assms(1-4) by (simp add: nc_defs)
  then show "reply_kind m = []"
    using unhandled_reply_kind [OF assms(5)] length_reply_kind [of m]
      awaits_single [of "[]" _ _ "state (sys_atm s)"]
    by (cases "reply_kind m"; cases "state (sys_atm s) = St_doneProcessing") fastforce+
  then show "m \<noteq> withdraw_ok" "m \<noteq> pin_verified" by auto
qed

lemma nc_inv_step:
  assumes inv: "nc_inv s" and step: "sys_step_nc l s = Some s'"
  shows "nc_inv s'"
proof -
  from step have step': "sys_step l s = Some s'" and l: "l \<noteq> User cancel_pressed"
    by (auto simp: sys_step_nc_def split: if_splits)
  have wf: "sys_wf s'" using inv step' by (auto simp: nc_inv_def intro: sys_wf_step)
  from step' have "in_step s' \<and> authenticated s' \<and> conserved s'"
  proof (cases rule: sys_stepE)
    case (recv m ms act out)
    then show ?thesis using nc_recv [OF inv] by blast
  next
    case (bank m ms act out)
    then show ?thesis using nc_bank [OF inv] by blast
  next
    case (drop m)
    with inv show ?thesis using nc_drop [OF inv drop(2,5,7,4)] by (auto simp: nc_defs)
  next
    case (bank_drop m)
    then show ?thesis using inv unhandled_request_kind [OF bank_drop(3)]
      by (auto simp: nc_defs)
  next
    case (user m)
    then have "m \<noteq> withdraw_ok" "m \<noteq> pin_verified" "m \<noteq> cancel_pressed" using l by auto
    with user inv show ?thesis
      by (auto simp: nc_defs)
  next
    case (enter out)
    then have "aq s' = aq s" "bq s' = bq s" "awaits (state (sys_atm s')) = awaits (state (sys_atm s))"
      using inv by (auto simp: nc_inv_def sys_wf_def wired_def)
    moreover have "pin (sys_atm s') = pin (sys_atm s)"
      "withdrawal_amount (sys_atm s') = withdrawal_amount (sys_atm s)"
      "state (sys_atm s') = state (sys_atm s) \<or> state (sys_atm s') = St_waitForCard"
      using enter(7) by auto
    ultimately show ?thesis
      using inv enter(8,9) by (auto simp: nc_defs)
  next
    case (close i)
    with inv show ?thesis
      by (auto simp: nc_defs)
  next
    case (interface m)
    with inv show ?thesis
      by (auto simp: nc_defs)
  qed
  with wf show ?thesis by (simp add: nc_inv_def)
qed

interpretation atm_nc: invariant_system sys_step_nc "sys_start w" nc_inv
proof
  show "nc_inv (sys_start w)"
    using sys_wf_start [of w]
    by (simp add: nc_inv_def in_step_def authenticated_def conserved_def sys_start_def ATM_new_def
        Queue_new_def pipeline_def BankMachine_new_def)
qed (rule nc_inv_step)

subsection \<open>Properties of schedules without cancellation\<close>

text \<open>
  (C2) Conservation of money: as long as the customer never presses cancel, in every reachable
  state the balance of the bank, the money issued so far and the money granted to a withdrawal
  that is still under way add up to the initial 199. In particular no more than 199 is ever issued.
\<close>

theorem money_is_conserved_without_cancel:
  assumes "reach sys_step_nc (sys_start w) s"
  shows "unat (bank_balance (sys_bank s)) + sys_issued s +
      (if withdraw_ok \<in> set (aq s) then unat (withdrawal_amount (sys_atm s)) else 0) = 199 \<and>
    sys_issued s \<le> 199"
proof -
  have inv: "nc_inv s" using assms by (rule atm_nc.inv_reach)
  have "length (pipeline s) \<le> 1"
    using inv by (cases "state (sys_atm s)") (auto simp: nc_inv_def in_step_def)
  then have "length (replies (aq s)) \<le> 1" by (simp add: pipeline_def)
  moreover have "count_list ms withdraw_ok \<le> length (replies ms)" for ms
    by (induction ms) auto
  ultimately have "count_list (aq s) withdraw_ok \<le> 1" by (metis le_trans)
  then have "count_list (aq s) withdraw_ok = (if withdraw_ok \<in> set (aq s) then 1 else 0)"
    using count_list_0_iff [of "aq s" withdraw_ok] by auto
  with inv show ?thesis by (auto simp: nc_inv_def conserved_def)
qed

lemma session_to_withdrawal:
  "\<exists>s. run_labels sys_step_nc (insert_card @ type_pin ''0000'' @ [Bank_recv, Atm_enter, Atm_recv,
       User (withdraw_pressed 50), Atm_enter, Atm_recv, Bank_recv]) (sys_start 0) = Some s \<and>
     state (sys_atm s) = St_processingWithdrawal \<and> aq s = [withdraw_ok] \<and>
     withdrawal_amount (sys_atm s) = 50 \<and> bank_balance (sys_bank s) = 149 \<and> sys_issued s = 0"
  by (simp add: sys_step_nc_def sys_eval insert_card_def type_pin_def)

theorem money_is_conserved_without_cancel_witness:
  "\<exists>s. run_labels sys_step_nc (insert_card @ type_pin ''0000'' @ [Bank_recv, Atm_enter, Atm_recv,
       User (withdraw_pressed 50), Atm_enter, Atm_recv, Bank_recv]) (sys_start 0) = Some s \<and>
     bank_balance (sys_bank s) = 149 \<and> withdraw_ok \<in> set (aq s) \<and>
     unat (bank_balance (sys_bank s)) + sys_issued s + unat (withdrawal_amount (sys_atm s)) = 199"
proof -
  obtain s where run: "run_labels sys_step_nc (insert_card @ type_pin ''0000'' @ [Bank_recv, Atm_enter,
      Atm_recv, User (withdraw_pressed 50), Atm_enter, Atm_recv, Bank_recv]) (sys_start 0) = Some s"
    and s: "aq s = [withdraw_ok]" "bank_balance (sys_bank s) = 149"
    using session_to_withdrawal by blast
  show ?thesis
    using run s money_is_conserved_without_cancel [OF run_labels_reach [OF run]]
    by (intro exI [of _ s]) (simp only: s list.set_intros if_True)
qed

text \<open>
  (C16) Authentication: as long as the customer never presses cancel, the cash machine offers and
  processes withdrawals and balance queries only after the PIN \<open>0000\<close> was typed.
\<close>

theorem actions_need_the_pin_without_cancel:
  assumes "reach sys_step_nc (sys_start w) s"
    and "state (sys_atm s) \<in> {St_waitForAction, St_processingWithdrawal, St_processBalance}"
  shows "pin (sys_atm s) = ''0000''"
  using atm_nc.inv_reach [OF assms(1)] assms(2) by (auto simp: nc_inv_def authenticated_def)

theorem actions_need_the_pin_without_cancel_witness:
  "\<exists>s. run_labels sys_step_nc (insert_card @ type_pin ''0000'' @ [Bank_recv, Atm_enter, Atm_recv,
       User (withdraw_pressed 50), Atm_enter, Atm_recv, Bank_recv]) (sys_start 0) = Some s \<and>
     state (sys_atm s) = St_processingWithdrawal \<and> pin (sys_atm s) = ''0000''"
proof -
  obtain s where run: "run_labels sys_step_nc (insert_card @ type_pin ''0000'' @ [Bank_recv, Atm_enter,
      Atm_recv, User (withdraw_pressed 50), Atm_enter, Atm_recv, Bank_recv]) (sys_start 0) = Some s"
    and s: "state (sys_atm s) = St_processingWithdrawal"
    using session_to_withdrawal by blast
  then have "pin (sys_atm s) = ''0000''"
    using actions_need_the_pin_without_cancel [OF run_labels_reach [OF run]] by simp
  with run s show ?thesis by blast
qed

subsection \<open>The end of the bank\<close>

text \<open>
  \<open>BankMachine::done\<close> aborts the program: \<open>BankMachine::run\<close> has no handler for the
  \<open>CloseQueue\<close> exception, so that the bank's turn on a \<open>CloseQueue\<close> ends the process and no
  thread makes a further step.
\<close>

theorem bank_done_aborts:
  assumes "\<not> sys_aborted s" "bq s = CloseQueue # ms"
  shows "\<exists>s'. sys_step Bank_recv s = Some s' \<and> sys_aborted s' \<and> (\<forall>l. sys_step l s' = None)"
  using assms by (simp add: sys_step.simps bank_turn_def Queue_waitAndPop_def CloseQueue_dispatch)

theorem bank_done_aborts_witness:
  "\<exists>s s'. run_labels sys_step [Done Bank_queue] (sys_start 0) = Some s \<and>
     sys_step Bank_recv s = Some s' \<and> sys_aborted s' \<and> (\<forall>l. sys_step l s' = None)"
proof -
  obtain s where run: "run_labels sys_step [Done Bank_queue] (sys_start 0) = Some s"
    and s: "\<not> sys_aborted s" "bq s = CloseQueue # []"
    by (simp add: sys_eval)
  from run bank_done_aborts [OF s] show ?thesis by blast
qed

end
