(* ===== verification/Atm_Session.thy ===== *)
theory Atm_Session
  imports Atm_System
begin

text \<open>
  The program \<open>testATM\<close> of \<open>test/test.cpp\<close> around the three machines: which message a key sends and what quitting does, and the
  progress of the machines between two keys. Whatever the schedule, they come to rest after a
  bounded number of steps, and then the cash machine waits for the customer.
\<close>

subsection \<open>The keys\<close>

definition key_message :: "char \<Rightarrow> message option" where
  "key_message c =
     (if c \<in> set ''0123456789'' then Some (digit_pressed c)
      else if c = CHR ''b'' then Some balance_pressed
      else if c = CHR ''w'' then Some (withdraw_pressed 50)
      else if c = CHR ''c'' then Some cancel_pressed
      else if c = CHR ''i'' then Some (card_inserted ''acc1234'')
      else None)"

text \<open>What the thread that reads the keys does with them; after \<open>q\<close> it closes the three queues.\<close>

fun testATM_keys :: "string \<Rightarrow> label list" where
  "testATM_keys [] = []"
| "testATM_keys (c # cs) =
     (if c = CHR ''q'' then [Done Bank_queue, Done Interface_queue, Done Atm_queue]
      else case key_message c of None \<Rightarrow> testATM_keys cs | Some m \<Rightarrow> User m # testATM_keys cs)"

lemma key_message_user: "key_message c = Some m \<Longrightarrow> user_message m"
  by (auto simp: key_message_def split: if_splits)

text \<open>The reading thread is never blocked: as long as the program has not aborted it can send everything.\<close>

lemma testATM_keys_run:
  assumes "\<not> sys_aborted s"
  shows "\<exists>s'. run_labels sys_step (testATM_keys cs) s = Some s' \<and> \<not> sys_aborted s'"
proof -
  have run: "\<exists>s'. run_labels sys_step ls s = Some s' \<and> \<not> sys_aborted s'"
    if "\<forall>l\<in>set ls. (\<exists>m. l = User m \<and> user_message m) \<or> (\<exists>i. l = Done i)" "\<not> sys_aborted s" for ls s
    using that by (induction ls arbitrary: s) (auto simp: sys_step.simps)
  have "\<forall>l\<in>set (testATM_keys cs). (\<exists>m. l = User m \<and> user_message m) \<or> (\<exists>i. l = Done i)"
    by (induction cs) (auto split: option.splits dest: key_message_user)
  from run [OF this assms] show ?thesis .
qed

subsection \<open>A bound on the steps between two keys\<close>

fun internal :: "label \<Rightarrow> bool" where
  "internal (User m) = False"
| "internal (Done i) = False"
| "internal _ = True"

text \<open>
  Each message stands for the work it can still cause, in steps of the machines: a line on the screen one step, a
  request to the bank its reply and what the reply causes.
\<close>

definition atm_work :: "message \<Rightarrow> nat" where
  "atm_work m = (if bank_reply m then 8 else 17)"

definition turn_work :: "system \<Rightarrow> nat" where
  "turn_work s =
     (if sys_waiting s \<or> sys_ended s then 0 else if state (sys_atm s) = St_doneProcessing then 6 else 3)"

definition work :: "system \<Rightarrow> nat" where
  "work s = sum_list (map atm_work (aq s)) + 9 * length (bq s) + length (iq s) + turn_work s"

lemma atm_action_work:
  assumes "state_dispatch (state a) m = Handled act" "act a = (a', out)"
    and "atm_bank a = Some Bank_queue" "atm_interface a = Some Interface_queue"
  shows "9 * length (sent_to Bank_queue out) + length (sent_to Interface_queue out) +
           (if state a' = St_doneProcessing then 6 else 3) < atm_work m"
  using assms(1)
  by (cases rule: state_dispatch_HandledE)
    (use assms(2-) in \<open>auto simp: ATM_getSender_def atm_work_def Let_def split: if_splits\<close>)

lemma bank_action_work:
  assumes "proper_request m" "dispatcher is_close BankMachine_run m = Handled act" "act b = (b', out)"
  shows "sum_list (map atm_work (sent_to Atm_queue out)) < 9"
  using assms by (cases m) (auto simp: BankMachine_handles atm_work_def split: if_splits)

lemma recv_waiting:
  assumes "sys_step Atm_recv s = Some s'" "aq s = m # ms"
  shows "sys_waiting s \<and> \<not> sys_ended s \<and>
    (case state_dispatch (state (sys_atm s)) m of Handled act \<Rightarrow> \<not> sys_waiting s' \<and> \<not> sys_ended s' | _ \<Rightarrow> sys_waiting s')"
  using assms
  by (auto simp: sys_step.simps ATM_run_recv_def Queue_waitAndPop_def Let_def split: if_splits dispatch.splits prod.splits)

lemma enter_waiting:
  assumes "sys_step Atm_enter s = Some s'"
  shows "\<not> sys_waiting s \<and> \<not> sys_ended s \<and> \<not> sys_ended s' \<and>
    (sys_waiting s' \<longleftrightarrow> state (sys_atm s) \<noteq> St_doneProcessing) \<and>
    (state (sys_atm s) = St_doneProcessing \<longrightarrow> state (sys_atm s') = St_waitForCard)"
  using assms
  by (auto simp: sys_step.simps ATM_run_enter_def state_body_No_wait split: if_splits body.splits dest: state_body_prompt)

lemma turn_same:
  "sys_step l s = Some s' \<Longrightarrow> l \<in> {Bank_recv, Interface_recv} \<Longrightarrow> sys_waiting s' = sys_waiting s \<and> sys_ended s' = sys_ended s"
  by (auto simp: sys_step.simps bank_turn_def interface_turn_def Let_def
      split: if_splits option.splits dispatch.splits prod.splits)

lemma internal_step_decreases:
  assumes wf: "sys_wf s" and step: "sys_step l s = Some s'" and "internal l"
  shows "work s' < work s"
  using step
proof (cases rule: sys_stepE)
  case (enter out)
  have w: "atm_interface (sys_atm s) = Some Interface_queue" using wf by (simp add: sys_wf_def wired_def)
  then show ?thesis
    using enter enter_waiting [of s s'] step by (auto simp: work_def turn_work_def)
next
  case (recv m ms act out)
  have "sent_to Atm_queue out = []" "atm_bank (sys_atm s) = Some Bank_queue" "atm_interface (sys_atm s) = Some Interface_queue"
    using wf atm_action_wf [OF recv(4,5)] by (auto simp: sys_wf_def wired_def)
  then show ?thesis
    using recv atm_action_work [OF recv(4,5)] recv_waiting [of s s' m ms] step by (auto simp: work_def turn_work_def)
next
  case (drop m)
  then show ?thesis
    using recv_waiting [of s s' m "aq s'"] step by (auto simp: work_def turn_work_def atm_work_def split: dispatch.splits)
next
  case (bank m ms act out)
  then have "proper_request m" using wf by (auto simp: sys_wf_def CloseQueue_dispatch)
  from bank_action_wf [OF this bank(3,4)] bank_action_work [OF this bank(3,4)] show ?thesis
    using bank turn_same [OF step] by (auto simp: work_def turn_work_def)
next
  case (bank_drop m)
  then show ?thesis using turn_same [OF step] by (auto simp: work_def turn_work_def)
next
  case (interface m)
  then show ?thesis using turn_same [OF step] by (auto simp: work_def turn_work_def)
qed (use assms(3) in auto)

lemma internal_run_bound:
  "run_labels sys_step ls s = Some s' \<Longrightarrow> sys_wf s \<Longrightarrow> \<forall>l\<in>set ls. internal l \<Longrightarrow> length ls + work s' \<le> work s"
proof (induction ls arbitrary: s)
  case (Cons l ls)
  then obtain s1 where s1: "sys_step l s = Some s1" "run_labels sys_step ls s1 = Some s'"
    by (auto split: option.splits)
  then have "length ls + work s' \<le> work s1" "work s1 < work s"
    using Cons sys_wf_step internal_step_decreases by auto
  then show ?case by simp
qed simp

subsection \<open>At rest\<close>

definition at_rest :: "system \<Rightarrow> bool" where
  "at_rest s \<longleftrightarrow> (\<forall>l. internal l \<longrightarrow> sys_step l s = None)"

lemma waiting_step:
  assumes "sys_waiting s \<longrightarrow> state (sys_atm s) \<noteq> St_doneProcessing" "sys_step l s = Some s'"
  shows "sys_waiting s' \<longrightarrow> state (sys_atm s') \<noteq> St_doneProcessing"
  using assms(2)
proof (cases rule: sys_stepE)
  case (enter out)
  then have "sys_step Atm_enter s = Some s'" using assms(2) by simp
  from enter_waiting [OF this] show ?thesis using enter(7) by auto
next
  case (recv m ms act out)
  then have "sys_step Atm_recv s = Some s'" using assms(2) by simp
  from recv_waiting [OF this recv(2)] show ?thesis using recv(4) by simp
next
  case (drop m)
  then show ?thesis using assms(1) by simp
next
  case (bank m ms act out)
  then show ?thesis using assms turn_same by fastforce
next
  case (bank_drop m)
  then show ?thesis using assms turn_same by fastforce
next
  case (interface m)
  then show ?thesis using assms turn_same by fastforce
next
  case (user m)
  then show ?thesis using assms by (auto simp: sys_step.simps split: if_splits)
next
  case (close i)
  then show ?thesis using assms by (auto simp: sys_step.simps split: if_splits)
qed

interpretation atm_wait: invariant_system sys_step "sys_start w" "\<lambda>s. sys_waiting s \<longrightarrow> state (sys_atm s) \<noteq> St_doneProcessing"
proof
  show "sys_waiting (sys_start w) \<longrightarrow> state (sys_atm (sys_start w)) \<noteq> St_doneProcessing" by (simp add: sys_start_def)
qed (rule waiting_step)

text \<open>A machine that cannot take a step has an empty queue.\<close>

lemma at_rest_queues:
  assumes "at_rest s" "\<not> sys_aborted s"
  shows "bq s = []" "iq s = []" "\<not> sys_ended s \<Longrightarrow> sys_waiting s \<and> aq s = []"
proof -
  have none: "bank_turn s = None" "interface_turn s = None" "ATM_run_recv s = None" "ATM_run_enter s = None"
    using assms(2) assms(1) [unfolded at_rest_def, rule_format, of Bank_recv]
      assms(1) [unfolded at_rest_def, rule_format, of Interface_recv]
      assms(1) [unfolded at_rest_def, rule_format, of Atm_recv] assms(1) [unfolded at_rest_def, rule_format, of Atm_enter]
    by (simp_all add: sys_step.simps)
  show "bq s = []" using none(1)
    by (cases "sys_queues s Bank_queue" rule: pop_cases) (auto simp: bank_turn_def Let_def split: dispatch.splits prod.splits)
  show "iq s = []" using none(2)
    by (cases "sys_queues s Interface_queue" rule: pop_cases) (auto simp: interface_turn_def Let_def split: dispatch.splits prod.splits)
  show "sys_waiting s \<and> aq s = []" if "\<not> sys_ended s"
  proof
    show w: "sys_waiting s"
      using none(4) that by (auto simp: ATM_run_enter_def Let_def split: if_splits body.splits prod.splits)
    show "aq s = []" using none(3) that w
      by (cases "sys_queues s Atm_queue" rule: pop_cases) (auto simp: ATM_run_recv_def Let_def split: dispatch.splits prod.splits)
  qed
qed

lemma comes_to_rest:
  assumes "sys_wf s"
  shows "\<exists>ls s'. (\<forall>l\<in>set ls. internal l) \<and> run_labels sys_step ls s = Some s' \<and> at_rest s'"
  using assms
proof (induction "work s" arbitrary: s rule: less_induct)
  case less
  show ?case
  proof (cases "at_rest s")
    case True
    then show ?thesis by (intro exI [of _ "[]"] exI [of _ s]) simp
  next
    case False
    then obtain l s1 where l: "internal l" "sys_step l s = Some s1" by (auto simp: at_rest_def)
    then obtain ls s' where "\<forall>l\<in>set ls. internal l" "run_labels sys_step ls s1 = Some s'" "at_rest s'"
      using less internal_step_decreases [OF less.prems] sys_wf_step [OF less.prems] by blast
    then show ?thesis using l by (intro exI [of _ "l # ls"] exI [of _ s']) simp
  qed
qed

text \<open>
  (C17) Between two keys the machines always come to rest, in every schedule: from any reachable state they
  take at most \<open>work s\<close> further steps, can always go on until they rest, and rest only where no message is left and the cash machine waits
  for a card, a digit or a choice (unless it was told to end, or a closed queue has aborted the program).
\<close>

theorem atm_comes_to_rest:
  assumes "reach sys_step (sys_start w) s" and "\<forall>l\<in>set ls. internal l" and "run_labels sys_step ls s = Some s'"
  shows "length ls \<le> work s \<and>
    (\<exists>ls' s''. (\<forall>l\<in>set ls'. internal l) \<and> run_labels sys_step ls' s' = Some s'' \<and> at_rest s'') \<and>
    (at_rest s' \<longrightarrow> sys_aborted s' \<or>
       bq s' = [] \<and> iq s' = [] \<and>
       (sys_ended s' \<or> sys_waiting s' \<and> aq s' = [] \<and> state (sys_atm s') \<in> {St_waitForCard, St_gettingPin, St_waitForAction}))"
proof (intro conjI impI)
  have wf: "sys_wf s" using atm_sys.inv_reach [OF assms(1)] by blast
  show "length ls \<le> work s" using internal_run_bound [OF assms(3) wf assms(2)] by simp
  have r: "reach sys_step (sys_start w) s'" by (rule run_labels_reach_from [OF assms(1,3)])
  then have "sys_wf s'" using atm_sys.inv_reach by blast
  then show "\<exists>ls' s''. (\<forall>l\<in>set ls'. internal l) \<and> run_labels sys_step ls' s' = Some s'' \<and> at_rest s''"
    by (rule comes_to_rest)
  assume rest: "at_rest s'"
  show "sys_aborted s' \<or> bq s' = [] \<and> iq s' = [] \<and>
       (sys_ended s' \<or> sys_waiting s' \<and> aq s' = [] \<and> state (sys_atm s') \<in> {St_waitForCard, St_gettingPin, St_waitForAction})"
  proof (cases "sys_aborted s' \<or> sys_ended s'")
    case True
    then show ?thesis using at_rest_queues [OF rest] by blast
  next
    case False
    then have q: "bq s' = []" "iq s' = []" "sys_waiting s'" "aq s' = []" using at_rest_queues [OF rest] by auto
    have "state (sys_atm s') \<noteq> St_doneProcessing" using atm_wait.inv_reach [OF r] q(3) by blast
    moreover have "awaits (state (sys_atm s')) = []"
      using atm_sys.inv_reach [OF r] q by (cases "state (sys_atm s')") (auto simp: reply_coming_def pipeline_def replies_def requests_def)
    ultimately have "state (sys_atm s') \<in> {St_waitForCard, St_gettingPin, St_waitForAction}"
      by (cases "state (sys_atm s')") auto
    then show ?thesis using q by blast
  qed
qed

theorem atm_comes_to_rest_witness:
  "\<exists>s s'. reach sys_step (sys_start 0) s \<and> run_labels sys_step [Bank_recv] s = Some s' \<and> length [Bank_recv] \<le> work s \<and>
     state (sys_atm s) = St_verifyingPin \<and>
     (\<exists>ls' s''. (\<forall>l\<in>set ls'. internal l) \<and> run_labels sys_step ls' s' = Some s'' \<and> at_rest s'')"
proof -
  obtain s where s: "run_labels sys_step (insert_card @ type_pin ''0000'') (sys_start 0) = Some s"
      "state (sys_atm s) = St_verifyingPin" "bq s = [verify_pin ''acc1234'' ''0000'' ATM_getSender]" "\<not> sys_aborted s"
    by (simp add: sys_eval insert_card_def type_pin_def)
  have r: "reach sys_step (sys_start 0) s" by (rule run_labels_reach [OF s(1)])
  obtain s' where s': "run_labels sys_step [Bank_recv] s = Some s'"
    using s(3,4) by (simp add: sys_step.simps bank_turn_def Queue_waitAndPop_def BankMachine_handles Let_def)
  have "\<forall>l\<in>set [Bank_recv]. internal l" by simp
  note rest = atm_comes_to_rest [OF r this s']
  show ?thesis using r s' s(2) conjunct1 [OF rest] conjunct1 [OF conjunct2 [OF rest]]
    by (intro exI [of _ s] exI [of _ s'] conjI)
qed

end
