(* ===== verification/Atm_Commute.thy ===== *)
theory Atm_Commute
  imports Atm_Session
begin

text \<open>
  The steps of the three machines commute: each pops its own queue at the front and appends to the others at the end. So, as long as no queue is
  closed, all schedules from a state to rest end in the same state (\<open>commuting_system\<close>). The first lemmas say of each step which part of the state it
  depends on and what it changes.
\<close>

subsection \<open>What a step depends on\<close>

lemma pop_Cons: "mq_queue q = m # ms \<Longrightarrow> Queue_waitAndPop q = Some (m, q\<lparr>mq_queue := ms\<rparr>)"
  by (simp add: Queue_waitAndPop_def)

lemma queues_eqI: "(\<And>i. mq_queue (Q i) = mq_queue (Q' i)) \<Longrightarrow> Q = (Q' :: queue_id \<Rightarrow> message message_queue)"
  by (rule ext, rule message_queue.equality) simp_all

text \<open>A bank or an interface that has been told to end, or the program aborted.\<close>

definition shut :: "system \<Rightarrow> bool" where
  "shut s \<longleftrightarrow> sys_aborted s \<or> CloseQueue \<in> set (bq s) \<or> CloseQueue \<in> set (iq s)"

definition open_wf :: "system \<Rightarrow> bool" where
  "open_wf s \<longleftrightarrow> sys_wf s \<and> \<not> shut s"

lemma bank_turn_open:
  assumes "open_wf s" "sys_step Bank_recv s = Some s'"
  obtains m ms b out where "bq s = m # ms" "sent_to Bank_queue out = []" "sent_to Interface_queue out = []"
    "\<And>u. \<not> sys_aborted u \<Longrightarrow> hd (bq u) = m \<Longrightarrow> bq u \<noteq> [] \<Longrightarrow> sys_bank u = sys_bank s \<Longrightarrow> 
       sys_step Bank_recv u = Some (u\<lparr>sys_bank := b, 
         sys_queues := deliver out ((sys_queues u)(Bank_queue := (sys_queues u Bank_queue)\<lparr>mq_queue := tl (bq u)\<rparr>))\<rparr>)"
proof -
  have na: "\<not> sys_aborted s" using assms(1) by (simp add: open_wf_def shut_def)
  obtain m ms where q: "bq s = m # ms"
    using assms(2) na
    by (cases "sys_queues s Bank_queue" rule: pop_cases) (auto simp: sys_step.simps bank_turn_def)
  have m: "proper_request m" using assms(1) q by (auto simp: open_wf_def shut_def sys_wf_def)
  then obtain act where act: "dispatcher is_close BankMachine_run m = Handled act"
    by (cases m) (auto simp: BankMachine_handles)
  obtain b out where r: "act (sys_bank s) = (b, out)" by fastforce
  note o = bank_action_wf [OF m act r]
  show thesis
  proof (rule that [OF q, where out = out and b = b])
    fix u :: system assume u: "\<not> sys_aborted u" "hd (bq u) = m" "bq u \<noteq> []" "sys_bank u = sys_bank s"
    then have "bq u = m # tl (bq u)" by (cases "bq u") auto
    then show "sys_step Bank_recv u = Some (u\<lparr>sys_bank := b, 
         sys_queues := deliver out ((sys_queues u)(Bank_queue := (sys_queues u Bank_queue)\<lparr>mq_queue := tl (bq u)\<rparr>))\<rparr>)"
      using u act r pop_Cons [of "sys_queues u Bank_queue" m "tl (bq u)"]
      by (simp add: sys_step.simps bank_turn_def Let_def)
  qed (use o in simp_all)
qed


lemma interface_turn_open:
  assumes "open_wf s" "sys_step Interface_recv s = Some s'"
  obtains m ms ls where "iq s = m # ms"
    "\<And>u. \<not> sys_aborted u \<Longrightarrow> hd (iq u) = m \<Longrightarrow> iq u \<noteq> [] \<Longrightarrow>
       sys_step Interface_recv u = Some (u\<lparr>sys_screen := sys_screen u @ ls, 
         sys_queues := (sys_queues u)(Interface_queue := (sys_queues u Interface_queue)\<lparr>mq_queue := tl (iq u)\<rparr>)\<rparr>)"
proof -
  have na: "\<not> sys_aborted s" using assms(1) by (simp add: open_wf_def shut_def)
  obtain m ms where q: "iq s = m # ms"
    using assms(2) na
    by (cases "sys_queues s Interface_queue" rule: pop_cases) (auto simp: sys_step.simps interface_turn_def)
  have "display_request m" using assms(1) q by (auto simp: open_wf_def shut_def sys_wf_def)
  then obtain ls where act: "dispatcher is_close InterfaceMachine_run m = Handled (print_lines ls)"
    using InterfaceMachine_handles by blast
  show thesis
  proof (rule that [OF q, of ls])
    fix u :: system assume u: "\<not> sys_aborted u" "hd (iq u) = m" "iq u \<noteq> []"
    then have "iq u = m # tl (iq u)" by (cases "iq u") auto
    then show "sys_step Interface_recv u = Some (u\<lparr>sys_screen := sys_screen u @ ls, 
         sys_queues := (sys_queues u)(Interface_queue := (sys_queues u Interface_queue)\<lparr>mq_queue := tl (iq u)\<rparr>)\<rparr>)"
      using u act pop_Cons [of "sys_queues u Interface_queue" m "tl (iq u)"]
      by (simp add: sys_step.simps interface_turn_def Let_def print_lines_def)
  qed
qed

text \<open>What a turn of the cash machine depends on besides its queue.\<close>

definition atm_part :: "system \<Rightarrow> atm \<times> bool \<times> bool \<times> nat" where
  "atm_part s = (sys_atm s, sys_waiting s, sys_ended s, sys_issued s)"

lemma atm_turn_open:
  assumes "open_wf s" "sys_step l s = Some s'" "l = Atm_enter \<or> l = Atm_recv"
  obtains d a w e n out where "d \<le> length (aq s)" "d \<le> 1" "sent_to Atm_queue out = []"
    "\<And>u. \<not> sys_aborted u \<Longrightarrow> atm_part u = atm_part s \<Longrightarrow> d \<le> length (aq u) \<Longrightarrow> take d (aq u) = take d (aq s) \<Longrightarrow>
       sys_step l u = Some (u\<lparr>sys_atm := a, sys_waiting := w, sys_ended := e, sys_issued := n,
         sys_queues := deliver out ((sys_queues u)(Atm_queue := (sys_queues u Atm_queue)\<lparr>mq_queue := drop d (aq u)\<rparr>))\<rparr>)"
proof -
  note res = that
  have na: "\<not> sys_aborted s" and wf: "sys_wf s" using assms(1) by (simp_all add: open_wf_def shut_def)
  show thesis
  proof (cases "l = Atm_enter")
    case True
    then have run: "\<not> sys_ended s" "\<not> sys_waiting s" using assms(2) na by (auto simp: sys_step.simps ATM_run_enter_def split: if_splits)
    show thesis
    proof (cases "state_body (state (sys_atm s))")
      case (Prompt_wait prompt d)
      have "sent_to Atm_queue (prompt (sys_atm s)) = []"
        using state_body_prompt [OF Prompt_wait, of "sys_atm s"] wf by (auto simp: sys_wf_def wired_def)
      then show thesis
        using that [where d = 0 and out = "prompt (sys_atm s)" and a = "sys_atm s" and w = True and e = False and n = "sys_issued s"] True run Prompt_wait
        by (simp add: sys_step.simps ATM_run_enter_def atm_part_def)
    next
      case (No_wait act)
      then show thesis
        using that [where d = 0 and out = "snd (act (sys_atm s))" and a = "fst (act (sys_atm s))" and w = False and e = False
            and n = "sys_issued s + outbox_money (snd (act (sys_atm s)))"]
          True run wf
        by (simp add: sys_step.simps ATM_run_enter_def atm_part_def state_body_No_wait doneProcessing_def sys_wf_def wired_def)
    qed
  next
    case False
    then have l: "l = Atm_recv" using assms(3) by simp
    then have run: "\<not> sys_ended s" "sys_waiting s" using assms(2) na by (auto simp: sys_step.simps ATM_run_recv_def split: if_splits)
    obtain m ms where q: "aq s = m # ms"
      using assms(2) na l run
      by (cases "sys_queues s Atm_queue" rule: pop_cases) (auto simp: sys_step.simps ATM_run_recv_def)
    have pop: "Queue_waitAndPop (sys_queues u Atm_queue) = Some (m, (sys_queues u Atm_queue)\<lparr>mq_queue := drop 1 (aq u)\<rparr>)"
      if "1 \<le> length (aq u)" "take 1 (aq u) = take 1 (aq s)" for u
      using that q by (cases "aq u") (auto simp: Queue_waitAndPop_def)
    have *: thesis if r: "\<And>u. \<not> sys_aborted u \<Longrightarrow> atm_part u = atm_part s \<Longrightarrow> 1 \<le> length (aq u) \<Longrightarrow> take 1 (aq u) = take 1 (aq s) \<Longrightarrow>
       sys_step l u = Some (u\<lparr>sys_atm := a, sys_waiting := w, sys_ended := e, sys_issued := n,
         sys_queues := deliver out ((sys_queues u)(Atm_queue := (sys_queues u Atm_queue)\<lparr>mq_queue := drop 1 (aq u)\<rparr>))\<rparr>)"
      and "sent_to Atm_queue out = []" for a w e n out
      by (rule res [where d = 1 and out = out and a = a and w = w and e = e and n = n]) (use q that r in simp_all)
    show thesis
    proof (cases "state_dispatch (state (sys_atm s)) m")
      case (Handled act)
      obtain a out where r: "act (sys_atm s) = (a, out)" by fastforce
      have "sent_to Atm_queue out = []"
        using atm_action_wf [OF Handled r] wf by (simp add: sys_wf_def wired_def)
      then show thesis
        using * [where a = a and w = False and e = False and n = "sys_issued s + outbox_money out" and out = out] pop l run Handled r
        by (simp add: sys_step.simps ATM_run_recv_def atm_part_def Let_def)
    next
      case Unhandled
      then show thesis
        using * [where a = "sys_atm s" and w = True and e = False and n = "sys_issued s" and out = "[]"] pop l run
        by (simp add: sys_step.simps ATM_run_recv_def atm_part_def Let_def)
    next
      case Closed
      then show thesis
        using * [where a = "sys_atm s" and w = True and e = True and n = "sys_issued s" and out = "[]"] pop l run
        by (simp add: sys_step.simps ATM_run_recv_def atm_part_def Let_def)
    qed
  qed
qed


lemma internal_not_aborted:
  assumes "open_wf s" "internal l" "sys_step l s = Some s'"
  shows "\<not> sys_aborted s'"
proof -
  have na: "\<not> sys_aborted s" using assms(1) by (simp add: open_wf_def shut_def)
  consider "l = Atm_enter \<or> l = Atm_recv" | "l = Bank_recv" | "l = Interface_recv"
    using assms(2) by (cases l) auto
  then show ?thesis
  proof cases
    case 1
    show ?thesis
      by (rule atm_turn_open [OF assms(1,3) 1]) (use assms(3) na in fastforce)
  next
    case 2
    show ?thesis
      by (rule bank_turn_open [OF assms(1) assms(3) [unfolded 2]]) (use assms(3) na 2 in fastforce)
  next
    case 3
    show ?thesis
      by (rule interface_turn_open [OF assms(1) assms(3) [unfolded 3]]) (use assms(3) na 3 in fastforce)
  qed
qed

lemma internal_keeps_open:
  assumes "open_wf s" "internal l" "sys_step l s = Some s'"
  shows "open_wf s'"
proof -
  have wf: "sys_wf s" and no: "CloseQueue \<notin> set (bq s)" "CloseQueue \<notin> set (iq s)"
    using assms(1) by (simp_all add: open_wf_def shut_def)
  have "CloseQueue \<notin> set (bq s') \<and> CloseQueue \<notin> set (iq s')"
    using assms(3)
  proof (cases rule: sys_stepE)
    case (enter out)
    then show ?thesis using no wf by (auto simp: sys_wf_def wired_def)
  next
    case (recv m ms act out)
    have "\<forall>m \<in> set (sent_to Bank_queue out). proper_request m" "\<forall>m \<in> set (sent_to Interface_queue out). display_request m"
      using atm_action_wf [OF recv(4,5)] wf by (simp_all add: sys_wf_def wired_def)
    then show ?thesis using recv no by fastforce
  next
    case (bank m ms act out)
    then have "proper_request m" using wf no by (auto simp: sys_wf_def)
    from bank_action_wf [OF this bank(3,4)] show ?thesis using bank no by auto
  qed (use no assms(2) in auto)
  then show ?thesis
    using sys_wf_step [OF wf assms(3)] internal_not_aborted [OF assms] by (simp add: open_wf_def shut_def)
qed

subsection \<open>The steps of different machines commute\<close>

lemma atm_bank_commute:
  assumes "open_wf s" "l = Atm_enter \<or> l = Atm_recv" "sys_step l s = Some s1" "sys_step Bank_recv s = Some s2"
  shows "\<exists>t. sys_step Bank_recv s1 = Some t \<and> sys_step l s2 = Some t"
proof -
  have na: "\<not> sys_aborted s" using assms(1) by (simp add: open_wf_def shut_def)
  obtain d a w e n out where A: "d \<le> length (aq s)" "sent_to Atm_queue out = []"
    "\<And>u. \<not> sys_aborted u \<Longrightarrow> atm_part u = atm_part s \<Longrightarrow> d \<le> length (aq u) \<Longrightarrow> take d (aq u) = take d (aq s) \<Longrightarrow>
       sys_step l u = Some (u\<lparr>sys_atm := a, sys_waiting := w, sys_ended := e, sys_issued := n,
         sys_queues := deliver out ((sys_queues u)(Atm_queue := (sys_queues u Atm_queue)\<lparr>mq_queue := drop d (aq u)\<rparr>))\<rparr>)"
    using atm_turn_open [OF assms(1,3,2)] by metis
  obtain m ms b reply where B: "bq s = m # ms" "sent_to Bank_queue reply = []" "sent_to Interface_queue reply = []"
    "\<And>u. \<not> sys_aborted u \<Longrightarrow> hd (bq u) = m \<Longrightarrow> bq u \<noteq> [] \<Longrightarrow> sys_bank u = sys_bank s \<Longrightarrow>
       sys_step Bank_recv u = Some (u\<lparr>sys_bank := b,
         sys_queues := deliver reply ((sys_queues u)(Bank_queue := (sys_queues u Bank_queue)\<lparr>mq_queue := tl (bq u)\<rparr>))\<rparr>)"
    using bank_turn_open [OF assms(1,4)] by metis
  have s1: "s1 = s\<lparr>sys_atm := a, sys_waiting := w, sys_ended := e, sys_issued := n,
         sys_queues := deliver out ((sys_queues s)(Atm_queue := (sys_queues s Atm_queue)\<lparr>mq_queue := drop d (aq s)\<rparr>))\<rparr>"
    using A(3) [of s] A(1) na assms(3) by simp
  have s2: "s2 = s\<lparr>sys_bank := b, sys_queues := deliver reply ((sys_queues s)(Bank_queue := (sys_queues s Bank_queue)\<lparr>mq_queue := ms\<rparr>))\<rparr>"
    using B(4) [of s] B(1) na assms(4) by simp
  let ?t1 = "s1\<lparr>sys_bank := b, sys_queues := deliver reply ((sys_queues s1)(Bank_queue := (sys_queues s1 Bank_queue)\<lparr>mq_queue := tl (bq s1)\<rparr>))\<rparr>"
  have "sys_step Bank_recv s1 = Some ?t1"
    using B(1) na by (intro B(4)) (simp_all add: s1 deliver_queue)
  moreover have "sys_step l s2 = Some (s2\<lparr>sys_atm := a, sys_waiting := w, sys_ended := e, sys_issued := n,
      sys_queues := deliver out ((sys_queues s2)(Atm_queue := (sys_queues s2 Atm_queue)\<lparr>mq_queue := drop d (aq s2)\<rparr>))\<rparr>)" (is "_ = Some ?t2")
    using A(1) na by (intro A(3)) (simp_all add: s2 deliver_queue atm_part_def)
  moreover have "?t1 = ?t2"
  proof (rule system.equality)
    show "sys_queues ?t1 = sys_queues ?t2"
    proof (rule queues_eqI)
      fix i show "mq_queue (sys_queues ?t1 i) = mq_queue (sys_queues ?t2 i)"
        using A(1,2) B(1-3) by (cases i) (simp_all add: s1 s2 deliver_queue)
    qed
  qed (simp_all add: s1 s2)
  ultimately show ?thesis by metis
qed

lemma atm_interface_commute:
  assumes "open_wf s" "l = Atm_enter \<or> l = Atm_recv" "sys_step l s = Some s1" "sys_step Interface_recv s = Some s2"
  shows "\<exists>t. sys_step Interface_recv s1 = Some t \<and> sys_step l s2 = Some t"
proof -
  have na: "\<not> sys_aborted s" using assms(1) by (simp add: open_wf_def shut_def)
  obtain d a w e n out where A: "d \<le> length (aq s)" "sent_to Atm_queue out = []"
    "\<And>u. \<not> sys_aborted u \<Longrightarrow> atm_part u = atm_part s \<Longrightarrow> d \<le> length (aq u) \<Longrightarrow> take d (aq u) = take d (aq s) \<Longrightarrow>
       sys_step l u = Some (u\<lparr>sys_atm := a, sys_waiting := w, sys_ended := e, sys_issued := n,
         sys_queues := deliver out ((sys_queues u)(Atm_queue := (sys_queues u Atm_queue)\<lparr>mq_queue := drop d (aq u)\<rparr>))\<rparr>)"
    using atm_turn_open [OF assms(1,3,2)] by metis
  obtain m ms ls where I: "iq s = m # ms"
    "\<And>u. \<not> sys_aborted u \<Longrightarrow> hd (iq u) = m \<Longrightarrow> iq u \<noteq> [] \<Longrightarrow>
       sys_step Interface_recv u = Some (u\<lparr>sys_screen := sys_screen u @ ls,
         sys_queues := (sys_queues u)(Interface_queue := (sys_queues u Interface_queue)\<lparr>mq_queue := tl (iq u)\<rparr>)\<rparr>)"
    using interface_turn_open [OF assms(1,4)] by metis
  have s1: "s1 = s\<lparr>sys_atm := a, sys_waiting := w, sys_ended := e, sys_issued := n,
         sys_queues := deliver out ((sys_queues s)(Atm_queue := (sys_queues s Atm_queue)\<lparr>mq_queue := drop d (aq s)\<rparr>))\<rparr>"
    using A(3) [of s] A(1) na assms(3) by simp
  have s2: "s2 = s\<lparr>sys_screen := sys_screen s @ ls,
      sys_queues := (sys_queues s)(Interface_queue := (sys_queues s Interface_queue)\<lparr>mq_queue := ms\<rparr>)\<rparr>"
    using I(2) [of s] I(1) na assms(4) by simp
  let ?t1 = "s1\<lparr>sys_screen := sys_screen s1 @ ls,
      sys_queues := (sys_queues s1)(Interface_queue := (sys_queues s1 Interface_queue)\<lparr>mq_queue := tl (iq s1)\<rparr>)\<rparr>"
  have "sys_step Interface_recv s1 = Some ?t1"
    using I(1) na by (intro I(2)) (simp_all add: s1 deliver_queue)
  moreover have "sys_step l s2 = Some (s2\<lparr>sys_atm := a, sys_waiting := w, sys_ended := e, sys_issued := n,
      sys_queues := deliver out ((sys_queues s2)(Atm_queue := (sys_queues s2 Atm_queue)\<lparr>mq_queue := drop d (aq s2)\<rparr>))\<rparr>)" (is "_ = Some ?t2")
    using A(1) na by (intro A(3)) (simp_all add: s2 atm_part_def)
  moreover have "?t1 = ?t2"
  proof (rule system.equality)
    show "sys_queues ?t1 = sys_queues ?t2"
    proof (rule queues_eqI)
      fix i show "mq_queue (sys_queues ?t1 i) = mq_queue (sys_queues ?t2 i)"
        using A(1,2) I(1) by (cases i) (simp_all add: s1 s2 deliver_queue)
    qed
  qed (simp_all add: s1 s2)
  ultimately show ?thesis by metis
qed

lemma bank_interface_commute:
  assumes "open_wf s" "sys_step Bank_recv s = Some s1" "sys_step Interface_recv s = Some s2"
  shows "\<exists>t. sys_step Interface_recv s1 = Some t \<and> sys_step Bank_recv s2 = Some t"
proof -
  have na: "\<not> sys_aborted s" using assms(1) by (simp add: open_wf_def shut_def)
  obtain m ms b reply where B: "bq s = m # ms" "sent_to Bank_queue reply = []" "sent_to Interface_queue reply = []"
    "\<And>u. \<not> sys_aborted u \<Longrightarrow> hd (bq u) = m \<Longrightarrow> bq u \<noteq> [] \<Longrightarrow> sys_bank u = sys_bank s \<Longrightarrow>
       sys_step Bank_recv u = Some (u\<lparr>sys_bank := b,
         sys_queues := deliver reply ((sys_queues u)(Bank_queue := (sys_queues u Bank_queue)\<lparr>mq_queue := tl (bq u)\<rparr>))\<rparr>)"
    using bank_turn_open [OF assms(1,2)] by metis
  obtain k ks ls where I: "iq s = k # ks"
    "\<And>u. \<not> sys_aborted u \<Longrightarrow> hd (iq u) = k \<Longrightarrow> iq u \<noteq> [] \<Longrightarrow>
       sys_step Interface_recv u = Some (u\<lparr>sys_screen := sys_screen u @ ls,
         sys_queues := (sys_queues u)(Interface_queue := (sys_queues u Interface_queue)\<lparr>mq_queue := tl (iq u)\<rparr>)\<rparr>)"
    using interface_turn_open [OF assms(1,3)] by metis
  have s1: "s1 = s\<lparr>sys_bank := b, sys_queues := deliver reply ((sys_queues s)(Bank_queue := (sys_queues s Bank_queue)\<lparr>mq_queue := ms\<rparr>))\<rparr>"
    using B(4) [of s] B(1) na assms(2) by simp
  have s2: "s2 = s\<lparr>sys_screen := sys_screen s @ ls,
      sys_queues := (sys_queues s)(Interface_queue := (sys_queues s Interface_queue)\<lparr>mq_queue := ks\<rparr>)\<rparr>"
    using I(2) [of s] I(1) na assms(3) by simp
  let ?t1 = "s1\<lparr>sys_screen := sys_screen s1 @ ls,
      sys_queues := (sys_queues s1)(Interface_queue := (sys_queues s1 Interface_queue)\<lparr>mq_queue := tl (iq s1)\<rparr>)\<rparr>"
  let ?t2 = "s2\<lparr>sys_bank := b,
      sys_queues := deliver reply ((sys_queues s2)(Bank_queue := (sys_queues s2 Bank_queue)\<lparr>mq_queue := tl (bq s2)\<rparr>))\<rparr>"
  have "sys_step Interface_recv s1 = Some ?t1" "sys_step Bank_recv s2 = Some ?t2"
    using I(1) B(1,3) na by (intro I(2), simp_all add: s1 deliver_queue) (intro B(4), simp_all add: s2)
  moreover have "?t1 = ?t2"
  proof (rule system.equality)
    show "sys_queues ?t1 = sys_queues ?t2"
    proof (rule queues_eqI)
      fix i show "mq_queue (sys_queues ?t1 i) = mq_queue (sys_queues ?t2 i)"
        using B(1-3) I(1) by (cases i) (simp_all add: s1 s2 deliver_queue)
    qed
  qed (simp_all add: s1 s2)
  ultimately show ?thesis by metis
qed

lemma enter_excludes_recv: "sys_step Atm_enter s = Some s1 \<Longrightarrow> sys_step Atm_recv s = None"
  by (simp add: sys_step.simps ATM_run_enter_def ATM_run_recv_def split: if_splits)

lemma internal_cases:
  assumes "internal l"
  obtains "l = Atm_enter" | "l = Atm_recv" | "l = Bank_recv" | "l = Interface_recv"
  using assms by (cases l) auto

lemma internal_commute:
  assumes "open_wf s" "internal k" "internal l" "k \<noteq> l" "sys_step k s = Some s1" "sys_step l s = Some s2"
  shows "\<exists>t. sys_step l s1 = Some t \<and> sys_step k s2 = Some t"
proof -
  have atm_bank: ?thesis if "k = Atm_enter \<or> k = Atm_recv" "l = Bank_recv"
    using atm_bank_commute [OF assms(1) that(1) assms(5)] assms(6) that(2) by simp
  have bank_atm: ?thesis if "l = Atm_enter \<or> l = Atm_recv" "k = Bank_recv"
    using atm_bank_commute [OF assms(1) that(1) assms(6)] assms(5) that(2) by blast
  have atm_interface: ?thesis if "k = Atm_enter \<or> k = Atm_recv" "l = Interface_recv"
    using atm_interface_commute [OF assms(1) that(1) assms(5)] assms(6) that(2) by simp
  have interface_atm: ?thesis if "l = Atm_enter \<or> l = Atm_recv" "k = Interface_recv"
    using atm_interface_commute [OF assms(1) that(1) assms(6)] assms(5) that(2) by blast
  have bank_interface: ?thesis if "k = Bank_recv" "l = Interface_recv"
    using bank_interface_commute [OF assms(1)] assms(5,6) that by simp
  have interface_bank: ?thesis if "l = Bank_recv" "k = Interface_recv"
    using bank_interface_commute [OF assms(1)] assms(5,6) that by blast
  have "\<not> (k = Atm_enter \<and> l = Atm_recv)" "\<not> (l = Atm_enter \<and> k = Atm_recv)"
    using enter_excludes_recv [of s] assms(5,6) by auto
  with assms(4) show ?thesis
    using assms(2) assms(3)
    by (elim internal_cases) (use atm_bank bank_atm atm_interface interface_atm bank_interface interface_bank in simp_all)
qed

interpretation atm_quiet: commuting_system sys_step internal open_wf
  by unfold_locales (blast intro: internal_keeps_open internal_commute)+

end
