(* ===== verification/Atm_Outcomes.thy ===== *)
theory Atm_Outcomes
  imports Atm_Commute
begin

text \<open>
  What a customer gets. A session is a list of groups of keys: the keys of a group are pressed in any interleaving with the steps
  of the cash machine and the interface, before the bank's thread has taken its next turn, and then the machines run, in any schedule, until they rest. By the
  commutation of their steps a session has one outcome, so that the theorems below, which compute it, hold for all schedules.
  They start from any reachable state in which the machine rests and waits for a card, after any earlier sessions.
\<close>

subsection \<open>Sessions\<close>

text \<open>The machines run until none of them can take a step.\<close>

definition settles :: "system \<Rightarrow> system \<Rightarrow> bool" where
  "settles s s' \<longleftrightarrow> (\<exists>ls. (\<forall>l\<in>set ls. internal l) \<and> run_labels sys_step ls s = Some s' \<and> at_rest s')"

text \<open>The keys pressed in a schedule; \<open>before_reply\<close> leaves out the bank's turns and the shutdown.\<close>

fun keys :: "label list \<Rightarrow> message list" where
  "keys [] = []"
| "keys (User m # ls) = m # keys ls"
| "keys (l # ls) = keys ls"

fun before_reply :: "label \<Rightarrow> bool" where
  "before_reply (Done i) = False"
| "before_reply Bank_recv = False"
| "before_reply l = True"

inductive atm_session :: "message list list \<Rightarrow> system \<Rightarrow> system \<Rightarrow> bool" where
  session_end: "atm_session [] s s"
| session_keys: "run_labels sys_step ls s = Some s1 \<Longrightarrow> \<forall>l\<in>set ls. before_reply l \<Longrightarrow> settles s1 s2 \<Longrightarrow>
    atm_session bs s2 s' \<Longrightarrow> atm_session (keys ls # bs) s s'"

inductive_cases session_NilE: "atm_session [] s s'"
inductive_cases session_ConsE: "atm_session (ms # bs) s s'"

text \<open>All of \<open>ms\<close> pressed at once.\<close>

definition press :: "message list \<Rightarrow> system \<Rightarrow> system" where
  "press ms s = s\<lparr>sys_queues := (sys_queues s)(Atm_queue := (sys_queues s Atm_queue)\<lparr>mq_queue := aq s @ ms\<rparr>)\<rparr>"

lemma press_Nil: "press [] s = s"
  by (simp add: press_def)

lemma press_press: "press ns (press ms s) = press (ms @ ns) s"
  by (simp add: press_def)

lemma user_step: "\<not> sys_aborted s \<Longrightarrow> user_message m \<Longrightarrow> sys_step (User m) s = Some (press [m] s)"
  by (simp add: sys_step.simps press_def Sender_send_def Queue_push_def)

lemma run_press: "\<not> sys_aborted s \<Longrightarrow> \<forall>m\<in>set ms. user_message m \<Longrightarrow> run_labels sys_step (map User ms) s = Some (press ms s)"
proof (induction ms arbitrary: s)
  case (Cons m ms)
  have "\<not> sys_aborted (press [m] s)" using Cons.prems(1) by (simp add: press_def)
  then show ?case using Cons by (simp add: user_step press_press)
qed (simp add: press_Nil)

lemma press_open: "open_wf s \<Longrightarrow> \<forall>m\<in>set ms. user_message m \<Longrightarrow> open_wf (press ms s)"
  by (auto simp: open_wf_def shut_def sys_wf_def wired_def press_def)

text \<open>A step of the cash machine or the interface can be taken after keys that were pressed after it.\<close>

lemma keys_first_step:
  assumes "open_wf s" "sys_step l s = Some s1" "internal l" "before_reply l"
  shows "sys_step l (press ms s) = Some (press ms s1)"
proof -
  have na: "\<not> sys_aborted s" using assms(1) by (simp add: open_wf_def shut_def)
  consider "l = Atm_enter \<or> l = Atm_recv" | "l = Interface_recv" using assms(3,4) by (cases l) auto
  then show ?thesis
  proof cases
    case 1
    obtain d a w e n out where A: "d \<le> length (aq s)" "sent_to Atm_queue out = []"
      "\<And>u. \<not> sys_aborted u \<Longrightarrow> atm_part u = atm_part s \<Longrightarrow> d \<le> length (aq u) \<Longrightarrow> take d (aq u) = take d (aq s) \<Longrightarrow>
         sys_step l u = Some (u\<lparr>sys_atm := a, sys_waiting := w, sys_ended := e, sys_issued := n,
           sys_queues := deliver out ((sys_queues u)(Atm_queue := (sys_queues u Atm_queue)\<lparr>mq_queue := drop d (aq u)\<rparr>))\<rparr>)"
      using atm_turn_open [OF assms(1,2) 1] by metis
    have s1: "s1 = s\<lparr>sys_atm := a, sys_waiting := w, sys_ended := e, sys_issued := n,
           sys_queues := deliver out ((sys_queues s)(Atm_queue := (sys_queues s Atm_queue)\<lparr>mq_queue := drop d (aq s)\<rparr>))\<rparr>"
      using A(3) [of s] A(1) na assms(2) by simp
    have "sys_step l (press ms s) = Some ((press ms s)\<lparr>sys_atm := a, sys_waiting := w, sys_ended := e, sys_issued := n,
        sys_queues := deliver out ((sys_queues (press ms s))(Atm_queue := (sys_queues (press ms s) Atm_queue)\<lparr>mq_queue := drop d (aq (press ms s))\<rparr>))\<rparr>)"
      (is "_ = Some ?t")
      using A(1) na by (intro A(3)) (simp_all add: press_def atm_part_def)
    moreover have "?t = press ms s1"
    proof (rule system.equality)
      show "sys_queues ?t = sys_queues (press ms s1)"
      proof (rule queues_eqI)
        fix i show "mq_queue (sys_queues ?t i) = mq_queue (sys_queues (press ms s1) i)"
          using A(1,2) by (cases i) (simp_all add: s1 press_def deliver_queue)
      qed
    qed (simp_all add: s1 press_def)
    ultimately show ?thesis by simp
  next
    case 2
    obtain m qs ls where I: "iq s = m # qs"
      "\<And>u. \<not> sys_aborted u \<Longrightarrow> hd (iq u) = m \<Longrightarrow> iq u \<noteq> [] \<Longrightarrow>
         sys_step Interface_recv u = Some (u\<lparr>sys_screen := sys_screen u @ ls,
           sys_queues := (sys_queues u)(Interface_queue := (sys_queues u Interface_queue)\<lparr>mq_queue := tl (iq u)\<rparr>)\<rparr>)"
      using interface_turn_open [OF assms(1) assms(2) [unfolded 2]] by metis
    have "sys_step Interface_recv s = Some s1" using assms(2) 2 by simp
    then show ?thesis
      using I(1) I(2) [of s] I(2) [of "press ms s"] na 2 by (auto simp: press_def fun_upd_twist)
  qed
qed

lemma keys_first:
  assumes "open_wf s" "run_labels sys_step ls s = Some s'" "\<forall>l\<in>set ls. before_reply l"
  shows "\<exists>ks. (\<forall>l\<in>set ks. internal l) \<and> (\<forall>m\<in>set (keys ls). user_message m) \<and>
    run_labels sys_step ks (press (keys ls) s) = Some s'"
  using assms
proof (induction ls arbitrary: s)
  case Nil
  then show ?case by (intro exI [of _ "[]"]) (simp add: press_Nil)
next
  case (Cons l ls)
  then obtain s1 where s1: "sys_step l s = Some s1" "run_labels sys_step ls s1 = Some s'"
    by (auto split: option.splits)
  show ?case
  proof (cases "internal l")
    case True
    have "open_wf s1" by (rule internal_keeps_open [OF Cons.prems(1) True s1(1)])
    from Cons.IH [OF this s1(2)] Cons.prems(3) obtain ks where ks: "\<forall>l\<in>set ks. internal l" "\<forall>m\<in>set (keys ls). user_message m"
      "run_labels sys_step ks (press (keys ls) s1) = Some s'" by auto
    have "keys (l # ls) = keys ls" using True by (cases l) auto
    moreover have "sys_step l (press (keys ls) s) = Some (press (keys ls) s1)"
      using keys_first_step [OF Cons.prems(1) s1(1) True] Cons.prems(3) by simp
    ultimately show ?thesis using ks True by (intro exI [of _ "l # ks"]) simp
  next
    case False
    then obtain m where l: "l = User m" using Cons.prems(3) by (cases l) auto
    have na: "\<not> sys_aborted s" using Cons.prems(1) by (simp add: open_wf_def shut_def)
    have m: "user_message m" using s1(1) l by (simp add: sys_step.simps split: if_splits)
    then have "s1 = press [m] s" using s1(1) l user_step [OF na m] by simp
    moreover from this have "open_wf s1" using press_open [OF Cons.prems(1), of "[m]"] m by simp
    ultimately show ?thesis using Cons.IH [OF _ s1(2)] Cons.prems(3) l m by (simp add: press_press)
  qed
qed

lemma settles_unique: "open_wf s \<Longrightarrow> settles s s1 \<Longrightarrow> settles s s2 \<Longrightarrow> s1 = s2"
  unfolding settles_def at_rest_def using atm_quiet.unique_end by blast

lemma internal_run_open: "open_wf s \<Longrightarrow> \<forall>l\<in>set ls. internal l \<Longrightarrow> run_labels sys_step ls s = Some s' \<Longrightarrow> open_wf s'"
  by (induction ls arbitrary: s) (auto split: option.splits dest: internal_keeps_open)

lemma settles_after: "settles s1 s2 \<Longrightarrow> \<forall>l\<in>set ks. internal l \<Longrightarrow> run_labels sys_step ks s = Some s1 \<Longrightarrow> settles s s2"
proof -
  assume "settles s1 s2" "\<forall>l\<in>set ks. internal l" "run_labels sys_step ks s = Some s1"
  moreover have "run_labels sys_step (ks @ ls) s = run_labels sys_step ls s1" for ls
    using calculation(3) by (simp add: run_labels_append)
  ultimately show "settles s s2" unfolding settles_def by (metis Un_iff set_append)
qed

text \<open>A session is settled by what one run does with the keys at once.\<close>

lemma session_Cons:
  assumes "open_wf s" "\<forall>m\<in>set ms. user_message m" "settles (press ms s) s2"
  shows "atm_session (ms # bs) s s' \<longleftrightarrow> atm_session bs s2 s'"
proof
  assume "atm_session bs s2 s'"
  moreover have "run_labels sys_step (map User ms) s = Some (press ms s)"
    using assms(1,2) by (intro run_press) (simp_all add: open_wf_def shut_def)
  moreover have "keys (map User ms) = ms" by (induction ms) auto
  ultimately show "atm_session (ms # bs) s s'" using session_keys [of "map User ms" s "press ms s" s2 bs s'] assms(3) by simp
next
  assume "atm_session (ms # bs) s s'"
  then obtain ls s1 t where t: "ms = keys ls" "run_labels sys_step ls s = Some s1" "\<forall>l\<in>set ls. before_reply l" "settles s1 t"
    "atm_session bs t s'" by (rule session_ConsE) auto
  obtain ks where "\<forall>l\<in>set ks. internal l" "run_labels sys_step ks (press ms s) = Some s1"
    using keys_first [OF assms(1) t(2,3)] t(1) by blast
  from settles_after [OF t(4) this] have "s2 = t" using settles_unique [OF press_open [OF assms(1,2)]] assms(3) by blast
  then show "atm_session bs s2 s'" using t(5) by simp
qed

lemma settles_open: "open_wf s \<Longrightarrow> settles s s' \<Longrightarrow> open_wf s'"
  unfolding settles_def using internal_run_open by blast

lemma settles_exists: "open_wf s \<Longrightarrow> \<exists>s'. settles s s'"
  using comes_to_rest [of s] by (auto simp: settles_def open_wf_def)

lemma session_unique:
  assumes "open_wf s" "atm_session bs s s1" "atm_session bs s s2"
  shows "s1 = s2"
  using assms
proof (induction bs arbitrary: s)
  case Nil
  then show ?case by (auto elim: session_NilE)
next
  case (Cons ms bs)
  from Cons.prems(2) have "\<forall>m\<in>set ms. user_message m"
    by (rule session_ConsE) (use keys_first [OF Cons.prems(1)] in blast)
  moreover from this obtain s' where s': "settles (press ms s) s'" using settles_exists [OF press_open [OF Cons.prems(1)]] by blast
  ultimately show ?case
    using Cons session_Cons [OF Cons.prems(1)] settles_open [OF press_open [OF Cons.prems(1)] s'] by blast
qed


lemma session_exists: "open_wf s \<Longrightarrow> \<forall>ms\<in>set bs. \<forall>m\<in>set ms. user_message m \<Longrightarrow> \<exists>s'. atm_session bs s s'"
proof (induction bs arbitrary: s)
  case Nil
  then show ?case by (auto intro: session_end)
next
  case (Cons ms bs)
  then have ms: "\<forall>m\<in>set ms. user_message m" by simp
  obtain s' where s': "settles (press ms s) s'" using settles_exists [OF press_open [OF Cons.prems(1) ms]] by blast
  have "open_wf s'" by (rule settles_open [OF press_open [OF Cons.prems(1) ms] s'])
  then show ?case using Cons.IH [of s'] Cons.prems(2) session_Cons [OF Cons.prems(1) ms s'] by auto
qed

subsection \<open>States at rest\<close>

definition resting :: "atm \<Rightarrow> bank \<Rightarrow> screen \<Rightarrow> nat \<Rightarrow> system" where
  "resting a b scr n =
     \<lparr>sys_atm = a, sys_waiting = True, sys_ended = False, sys_bank = b, sys_screen = scr, sys_aborted = False,
      sys_queues = (\<lambda>_. Queue_new), sys_issued = n\<rparr>"

definition atm_idle :: "system \<Rightarrow> bool" where
  "atm_idle s \<longleftrightarrow> at_rest s \<and> \<not> sys_aborted s \<and> \<not> sys_ended s \<and> state (sys_atm s) = St_waitForCard"

lemma mq_queue_Nil: "mq_queue q = [] \<longleftrightarrow> q = (Queue_new :: message message_queue)"
  by (cases q) (simp add: Queue_new_def)

lemma rest_resting:
  assumes "at_rest s" "\<not> sys_aborted s" "\<not> sys_ended s"
  shows "s = resting (sys_atm s) (sys_bank s) (sys_screen s) (sys_issued s)"
proof -
  have "mq_queue (sys_queues s i) = []" for i
    using at_rest_queues [OF assms(1,2)] assms(3) by (cases i) simp_all
  then have "sys_queues s = (\<lambda>_. Queue_new)" by (simp add: fun_eq_iff mq_queue_Nil)
  then show ?thesis using at_rest_queues(3) [OF assms(1,2,3)] assms(2,3) by (cases s) (simp add: resting_def)
qed

lemma at_rest_resting: "state a \<noteq> St_doneProcessing \<Longrightarrow> at_rest (resting a b scr n)"
  unfolding at_rest_def
proof (intro allI impI)
  fix l assume "internal l"
  then show "sys_step l (resting a b scr n) = None"
    by (rule internal_cases)
      (simp_all add: resting_def sys_step.simps ATM_run_enter_def ATM_run_recv_def bank_turn_def interface_turn_def Queue_waitAndPop_def Queue_new_def)
qed

lemma settles_resting:
  assumes "run_labels sys_step ls s = Some t" "\<forall>l\<in>set ls. internal l" "t = resting a b scr n" "state a \<noteq> St_doneProcessing"
  shows "settles s (resting a b scr n)"
  using assms at_rest_resting unfolding settles_def by blast

lemma open_resting:
  assumes "atm_bank a = Some Bank_queue" "atm_interface a = Some Interface_queue" "pin_ok (state a) (pin a)"
  shows "open_wf (resting a b scr n)"
  using assms by (simp add: open_wf_def shut_def sys_wf_def wired_def resting_def Queue_new_def)

text \<open>The machine at rest in a state, with a customer's account and PIN.\<close>

definition rest_at :: "atm_state \<Rightarrow> string \<Rightarrow> string \<Rightarrow> uint32 \<Rightarrow> bank \<Rightarrow> screen \<Rightarrow> nat \<Rightarrow> system" where
  "rest_at st acc p w b scr n =
     resting \<lparr>atm_bank = Some Bank_queue, atm_interface = Some Interface_queue, withdrawal_amount = w, account = acc, pin = p, state = st\<rparr> b scr n"

lemma idle_rest_at:
  assumes "reach sys_step (sys_start w) s" "atm_idle s"
  shows "s = rest_at St_waitForCard (account (sys_atm s)) (pin (sys_atm s)) (withdrawal_amount (sys_atm s))
    (sys_bank s) (sys_screen s) (sys_issued s)"
proof -
  have "wired s" using atm_sys.inv_reach [OF assms(1)] by (simp add: sys_wf_def)
  then have "sys_atm s = \<lparr>atm_bank = Some Bank_queue, atm_interface = Some Interface_queue,
      withdrawal_amount = withdrawal_amount (sys_atm s), account = account (sys_atm s), pin = pin (sys_atm s), state = St_waitForCard\<rparr>"
    using assms(2) by (simp add: wired_def atm_idle_def)
  then show ?thesis using rest_resting [of s] assms(2) unfolding rest_at_def atm_idle_def by metis
qed

lemma idle_rest_at_iff: "atm_idle (rest_at St_waitForCard acc p w b scr n)"
  by (simp add: atm_idle_def rest_at_def at_rest_resting) (simp add: resting_def)

lemma open_rest_at: "pin_ok st p \<Longrightarrow> open_wf (rest_at st acc p w b scr n)"
  by (simp add: rest_at_def open_resting)

lemma InterfaceMachine_lines:
  "dispatcher is_close InterfaceMachine_run display_enter_card = Handled (print_lines [''Please enter your card (I)''])"
  "dispatcher is_close InterfaceMachine_run display_enter_pin = Handled (print_lines [''Please enter your PIN (0-9)''])"
  "dispatcher is_close InterfaceMachine_run display_pin_correct_message = Handled (print_lines [''PIN verified''])"
  "dispatcher is_close InterfaceMachine_run display_pin_incorrect_message = Handled (print_lines [''PIN incorrect''])"
  "dispatcher is_close InterfaceMachine_run display_withdrawal_options =
     Handled (print_lines [''Withdraw 50? (w)'', ''Display Balance? (b)'', ''Cancel? (c)''])"
  "dispatcher is_close InterfaceMachine_run (issue_money amount) = Handled (print_lines [''Issuing '' @ decimal (unat amount)])"
  "dispatcher is_close InterfaceMachine_run display_insufficient_funds = Handled (print_lines [''Insufficient funds''])"
  "dispatcher is_close InterfaceMachine_run display_withdrawal_cancelled = Handled (print_lines [''Withdrawal cancelled''])"
  "dispatcher is_close InterfaceMachine_run eject_card = Handled (print_lines [''Ejecting card''])"
  by (simp_all add: InterfaceMachine_run_def dispatcher_handler_chain)

lemmas rest_eval = rest_at_def resting_def press_def sys_step.simps ATM_run_enter_def ATM_run_recv_def bank_turn_def interface_turn_def
  Queue_new_def Queue_waitAndPop_def Queue_push_def Sender_send_def ATM_getSender_def
  body_defs state_dispatch_cases BankMachine_handles InterfaceMachine_lines print_lines_def Let_def

text \<open>The machine at rest but for what is in its queue and in that of the bank.\<close>

definition queued :: "message list \<Rightarrow> message list \<Rightarrow> system \<Rightarrow> system" where
  "queued am bm s = s\<lparr>sys_queues := (\<lambda>i. \<lparr>mq_queue = (case i of Atm_queue \<Rightarrow> am | Bank_queue \<Rightarrow> bm | Interface_queue \<Rightarrow> [])\<rparr>)\<rparr>"

lemma queued_resting: "queued [] [] (resting a b scr n) = resting a b scr n"
  by (simp add: queued_def resting_def Queue_new_def fun_eq_iff split: queue_id.split)

lemma press_resting: "press ms (resting a b scr n) = queued ms [] (resting a b scr n)"
  by (simp add: press_def queued_def resting_def Queue_new_def fun_eq_iff split: queue_id.split)

lemma settles_rest_at:
  assumes "run_labels sys_step ls s = Some (queued [] [] (rest_at st acc p w b scr n))" "\<forall>l\<in>set ls. internal l" "st \<noteq> St_doneProcessing"
  shows "settles s (rest_at st acc p w b scr n)"
  using settles_resting [OF assms(1,2)] assms(3) by (simp add: rest_at_def queued_resting)

text \<open>The card and the PIN, with the keys \<open>ms\<close> after them.\<close>

lemma type_card_and_pin:
  "run_labels sys_step [Atm_recv, Atm_enter, Interface_recv, Atm_recv, Atm_enter, Atm_recv, Atm_enter, Atm_recv, Atm_enter, Atm_recv, Atm_enter]
     (queued ([card_inserted acc, digit_pressed d1, digit_pressed d2, digit_pressed d3, digit_pressed d4] @ ms) bm
       (rest_at St_waitForCard acc0 p0 w b scr n)) =
   Some (queued ms (bm @ [verify_pin acc [d1, d2, d3, d4] (Some Atm_queue)])
     (rest_at St_verifyingPin acc [d1, d2, d3, d4] w b (scr @ [''Please enter your PIN (0-9)'']) n))"
  by (simp add: rest_eval queued_def fun_eq_iff split: queue_id.split)

lemma pin_accepted:
  "run_labels sys_step [Bank_recv, Atm_recv, Interface_recv, Atm_enter, Interface_recv]
     (queued [] [verify_pin acc ''0000'' (Some Atm_queue)] (rest_at St_verifyingPin acc p w b scr n)) =
   Some (queued [] [] (rest_at St_waitForAction acc p w b
     (scr @ [''PIN verified'', ''Withdraw 50? (w)'', ''Display Balance? (b)'', ''Cancel? (c)'']) n))"
  by (simp add: rest_eval queued_def fun_eq_iff split: queue_id.split)

lemma pin_refused:
  "q \<noteq> ''0000'' \<Longrightarrow> run_labels sys_step [Bank_recv, Atm_recv, Interface_recv, Atm_enter]
     (queued [] [verify_pin acc q (Some Atm_queue)] (rest_at St_verifyingPin acc p w b scr n)) =
   Some (queued [] [] (rest_at St_gettingPin acc '''' w b (scr @ [''PIN incorrect'']) n))"
  by (simp add: rest_eval queued_def fun_eq_iff split: queue_id.split)

lemma withdrawal_granted:
  "amount \<le> bank_balance b \<Longrightarrow>
   run_labels sys_step [Atm_recv, Atm_enter, Bank_recv, Atm_recv, Interface_recv, Atm_enter, Interface_recv, Atm_enter, Interface_recv]
     (queued [withdraw_pressed amount] [] (rest_at St_waitForAction acc p w b scr n)) =
   Some (queued [] [] (rest_at St_waitForCard acc p amount (b\<lparr>bank_balance := bank_balance b - amount\<rparr>)
     (scr @ [''Issuing '' @ decimal (unat amount), ''Ejecting card'', ''Please enter your card (I)'']) (n + unat amount)))"
  by (simp add: rest_eval queued_def fun_eq_iff split: queue_id.split)

lemma withdrawal_denied:
  "\<not> amount \<le> bank_balance b \<Longrightarrow>
   run_labels sys_step [Atm_recv, Atm_enter, Bank_recv, Atm_recv, Interface_recv, Atm_enter, Interface_recv, Atm_enter, Interface_recv]
     (queued [withdraw_pressed amount] [] (rest_at St_waitForAction acc p w b scr n)) =
   Some (queued [] [] (rest_at St_waitForCard acc p amount b
     (scr @ [''Insufficient funds'', ''Ejecting card'', ''Please enter your card (I)'']) n))"
  by (simp add: rest_eval queued_def fun_eq_iff split: queue_id.split)

lemma withdrawal_cancelled:
  "run_labels sys_step [Atm_recv, Atm_enter, Atm_recv, Interface_recv, Atm_enter, Interface_recv, Atm_enter, Interface_recv,
       Bank_recv, Bank_recv, Atm_recv]
     (queued [withdraw_pressed amount, cancel_pressed] [] (rest_at St_waitForAction acc p w b scr n)) =
   Some (queued [] [] (rest_at St_waitForCard acc p amount
     (if amount \<le> bank_balance b then b else b\<lparr>bank_balance := bank_balance b + amount\<rparr>)
     (scr @ [''Withdrawal cancelled'', ''Ejecting card'', ''Please enter your card (I)'']) n))"
  by (simp add: rest_eval queued_def fun_eq_iff split: queue_id.split)

lemma withdrawal_ignored:
  "run_labels sys_step [Atm_recv] (queued [withdraw_pressed amount] [] (rest_at St_gettingPin acc p w b scr n)) =
   Some (queued [] [] (rest_at St_gettingPin acc p w b scr n))"
  by (simp add: rest_eval queued_def fun_eq_iff split: queue_id.split)

lemma cancel_verification:
  "run_labels sys_step [Atm_recv, Atm_enter, Interface_recv, Atm_enter, Interface_recv]
     (queued (cancel_pressed # ms) bm (rest_at St_verifyingPin acc p w b scr n)) =
   Some (queued ms bm (rest_at St_waitForCard acc p w b (scr @ [''Ejecting card'', ''Please enter your card (I)'']) n))"
  by (simp add: rest_eval queued_def fun_eq_iff split: queue_id.split)

lemma late_reply:
  "run_labels sys_step [Bank_recv, Bank_recv, Atm_recv, Interface_recv, Atm_enter, Interface_recv, Atm_recv]
     (queued [] [verify_pin acc ''0000'' (Some Atm_queue), verify_pin acc' q (Some Atm_queue)] (rest_at St_verifyingPin acc' p w b scr n)) =
   Some (queued [] [] (rest_at St_waitForAction acc' p w b
     (scr @ [''PIN verified'', ''Withdraw 50? (w)'', ''Display Balance? (b)'', ''Cancel? (c)'']) n))"
  by (simp add: rest_eval queued_def fun_eq_iff split: queue_id.split)

subsection \<open>Sessions from an idle machine\<close>

definition card_and_pin :: "string \<Rightarrow> string \<Rightarrow> message list" where
  "card_and_pin acc p = card_inserted acc # map digit_pressed p"

lemma card_and_pin_user: "m \<in> set (card_and_pin acc p) \<Longrightarrow> user_message m"
  by (auto simp: card_and_pin_def)

lemma press_rest_at: "press ms (rest_at st acc p w b scr n) = queued ms [] (rest_at st acc p w b scr n)"
  by (simp add: rest_at_def press_resting)

lemma settles_run:
  assumes "run_labels sys_step ks s = Some t" "\<forall>l\<in>set ks. internal l" "settles t s'"
  shows "settles s s'"
  using settles_after [OF assms(3,2,1)] .

lemma right_pin_settles:
  "settles (press (card_and_pin acc ''0000'') (rest_at St_waitForCard acc0 p0 w b scr n))
     (rest_at St_waitForAction acc ''0000'' w b (scr @ [''Please enter your PIN (0-9)''] @
        [''PIN verified'', ''Withdraw 50? (w)'', ''Display Balance? (b)'', ''Cancel? (c)'']) n)"
proof -
  have "settles (queued [] [verify_pin acc ''0000'' (Some Atm_queue)]
      (rest_at St_verifyingPin acc ''0000'' w b (scr @ [''Please enter your PIN (0-9)'']) n))
    (rest_at St_waitForAction acc ''0000'' w b ((scr @ [''Please enter your PIN (0-9)'']) @
        [''PIN verified'', ''Withdraw 50? (w)'', ''Display Balance? (b)'', ''Cancel? (c)'']) n)"
    by (rule settles_rest_at [OF pin_accepted]) simp_all
  from settles_run [OF type_card_and_pin [where ms = "[]" and bm = "[]", unfolded append_Nil append_Nil2] _ this]
  show ?thesis by (simp add: press_rest_at card_and_pin_def)
qed

lemma wrong_pin_settles:
  assumes "length q = 4" "q \<noteq> ''0000''"
  shows "settles (press (card_and_pin acc q) (rest_at St_waitForCard acc0 p0 w b scr n))
     (rest_at St_gettingPin acc '''' w b (scr @ [''Please enter your PIN (0-9)'', ''PIN incorrect'']) n)"
proof -
  obtain d1 d2 d3 d4 where q: "q = [d1, d2, d3, d4]"
    using assms(1) by (auto simp: length_Suc_conv eval_nat_numeral)
  have "settles (queued [] [verify_pin acc q (Some Atm_queue)]
      (rest_at St_verifyingPin acc q w b (scr @ [''Please enter your PIN (0-9)'']) n))
    (rest_at St_gettingPin acc '''' w b ((scr @ [''Please enter your PIN (0-9)'']) @ [''PIN incorrect'']) n)"
    by (rule settles_rest_at [OF pin_refused [OF assms(2)]]) simp_all
  from settles_run [OF type_card_and_pin [where ms = "[]" and bm = "[]", unfolded append_Nil append_Nil2] _ this [unfolded q]]
  show ?thesis by (simp add: press_rest_at card_and_pin_def q)
qed

lemma withdrawal_settles:
  "settles (press [withdraw_pressed amount] (rest_at St_waitForAction acc p w b scr n))
     (if amount \<le> bank_balance b
      then rest_at St_waitForCard acc p amount (b\<lparr>bank_balance := bank_balance b - amount\<rparr>)
        (scr @ [''Issuing '' @ decimal (unat amount), ''Ejecting card'', ''Please enter your card (I)'']) (n + unat amount)
      else rest_at St_waitForCard acc p amount b
        (scr @ [''Insufficient funds'', ''Ejecting card'', ''Please enter your card (I)'']) n)"
  unfolding press_rest_at
  using settles_rest_at [OF withdrawal_granted] settles_rest_at [OF withdrawal_denied] by simp

lemma cancel_settles:
  "settles (press [withdraw_pressed amount, cancel_pressed] (rest_at St_waitForAction acc p w b scr n))
     (rest_at St_waitForCard acc p amount (if amount \<le> bank_balance b then b else b\<lparr>bank_balance := bank_balance b + amount\<rparr>)
        (scr @ [''Withdrawal cancelled'', ''Ejecting card'', ''Please enter your card (I)'']) n)"
  unfolding press_rest_at by (rule settles_rest_at [OF withdrawal_cancelled]) simp_all

lemma stale_reply_settles:
  assumes "length q = 4"
  shows "\<exists>scr'. settles (press (card_and_pin acc ''0000'' @ cancel_pressed # card_and_pin acc' q) (rest_at St_waitForCard acc0 p0 w b scr n))
     (rest_at St_waitForAction acc' q w b scr' n)"
proof -
  obtain d1 d2 d3 d4 where q: "q = [d1, d2, d3, d4]"
    using assms by (auto simp: length_Suc_conv eval_nat_numeral)
  let ?v = "verify_pin acc ''0000'' (Some Atm_queue)" and ?v' = "verify_pin acc' q (Some Atm_queue)"
  let ?s1 = "scr @ [''Please enter your PIN (0-9)'']"
  let ?s2 = "?s1 @ [''Ejecting card'', ''Please enter your card (I)'']"
  let ?s3 = "?s2 @ [''Please enter your PIN (0-9)'']"
  let ?s4 = "?s3 @ [''PIN verified'', ''Withdraw 50? (w)'', ''Display Balance? (b)'', ''Cancel? (c)'']"
  have "settles (queued [] [?v, ?v'] (rest_at St_verifyingPin acc' q w b ?s3 n)) (rest_at St_waitForAction acc' q w b ?s4 n)"
    by (rule settles_rest_at [OF late_reply]) simp_all
  then have "settles (queued (card_and_pin acc' q) [?v] (rest_at St_waitForCard acc ''0000'' w b ?s2 n)) (rest_at St_waitForAction acc' q w b ?s4 n)"
    using settles_run [OF type_card_and_pin [where ms = "[]" and bm = "[?v]" and scr = ?s2, unfolded append_Nil2]]
    by (simp add: card_and_pin_def q)
  then have "settles (queued (cancel_pressed # card_and_pin acc' q) [?v] (rest_at St_verifyingPin acc ''0000'' w b ?s1 n))
      (rest_at St_waitForAction acc' q w b ?s4 n)"
    using settles_run [OF cancel_verification] by simp
  then have "settles (queued (card_and_pin acc ''0000'' @ cancel_pressed # card_and_pin acc' q) [] (rest_at St_waitForCard acc0 p0 w b scr n))
      (rest_at St_waitForAction acc' q w b ?s4 n)"
    using settles_run [OF type_card_and_pin [where bm = "[]", unfolded append_Nil]] by (simp add: card_and_pin_def)
  then show ?thesis unfolding press_rest_at by blast
qed

lemma session_two:
  assumes "open_wf s" "\<forall>m\<in>set (ms @ ns). user_message m" "settles (press ms s) s1" "settles (press ns s1) s2"
  shows "atm_session [ms, ns] s t \<longleftrightarrow> t = s2"
proof -
  have "open_wf s1" using settles_open [OF press_open [OF assms(1)] assms(3)] assms(2) by simp
  then have "atm_session [ms, ns] s t \<longleftrightarrow> atm_session [] s2 t"
    using session_Cons [OF assms(1) _ assms(3)] session_Cons [OF _ _ assms(4)] assms(2) by simp
  then show ?thesis by (auto intro: session_end elim: session_NilE)
qed

lemma user_keys: "user_message cancel_pressed" "user_message (withdraw_pressed n)"
  by simp_all

text \<open>
  (C18) A withdrawal, in every schedule and from any idle state: with the PIN \<open>0000\<close> the session pays out exactly the amount asked
  for when the balance covers it, lowers the balance by it and prints it, and otherwise pays nothing, leaves the balance and says so; either way the machine then
  waits for the next card. With any other PIN nothing is paid, the balance stays and the machine asks for the PIN again.
\<close>

theorem withdrawal_session_pays:
  assumes "reach sys_step (sys_start w) s" and "atm_idle s" and "length p = 4"
  shows "\<exists>s'. (\<forall>t. atm_session [card_and_pin acc p, [withdraw_pressed amount]] s t \<longleftrightarrow> t = s') \<and>
    (if p \<noteq> ''0000''
     then state (sys_atm s') = St_gettingPin \<and> sys_bank s' = sys_bank s \<and> sys_issued s' = sys_issued s \<and>
       sys_screen s' = sys_screen s @ [''Please enter your PIN (0-9)'', ''PIN incorrect'']
     else atm_idle s' \<and>
       (if unat amount \<le> unat (bank_balance (sys_bank s))
        then unat (bank_balance (sys_bank s')) = unat (bank_balance (sys_bank s)) - unat amount \<and>
          sys_issued s' = sys_issued s + unat amount \<and> ''Issuing '' @ decimal (unat amount) \<in> set (drop (length (sys_screen s)) (sys_screen s'))
        else sys_bank s' = sys_bank s \<and> sys_issued s' = sys_issued s \<and>
          ''Insufficient funds'' \<in> set (drop (length (sys_screen s)) (sys_screen s'))))"
proof -
  obtain acc0 p0 w0 b scr n where s: "s = rest_at St_waitForCard acc0 p0 w0 b scr n"
      "b = sys_bank s" "scr = sys_screen s" "n = sys_issued s"
    using idle_rest_at [OF assms(1,2)] by blast
  have o: "open_wf s" unfolding s(1) by (rule open_rest_at) simp
  note two = session_two [OF o]
  show ?thesis
  proof (cases "p = ''0000''")
    case True
    let ?scr = "scr @ [''Please enter your PIN (0-9)''] @ [''PIN verified'', ''Withdraw 50? (w)'', ''Display Balance? (b)'', ''Cancel? (c)'']"
    let ?s' = "if amount \<le> bank_balance b
        then rest_at St_waitForCard acc ''0000'' amount (b\<lparr>bank_balance := bank_balance b - amount\<rparr>)
          (?scr @ [''Issuing '' @ decimal (unat amount), ''Ejecting card'', ''Please enter your card (I)'']) (n + unat amount)
        else rest_at St_waitForCard acc ''0000'' amount b
          (?scr @ [''Insufficient funds'', ''Ejecting card'', ''Please enter your card (I)'']) n"
    have "\<forall>t. atm_session [card_and_pin acc p, [withdraw_pressed amount]] s t \<longleftrightarrow> t = ?s'"
      unfolding True
      by (rule allI, rule two [OF _ right_pin_settles [of acc acc0 p0 w0 b scr n, folded s(1)] withdrawal_settles]) (auto dest: card_and_pin_user)
    then show ?thesis
      unfolding s(2-4) [symmetric]
      by (rule exI [of _ ?s', OF conjI]) (auto simp: True idle_rest_at_iff word_le_nat_alt unat_sub, simp_all add: rest_at_def resting_def unat_sub word_le_nat_alt)
  next
    case False
    have "settles (press [withdraw_pressed amount] (rest_at St_gettingPin acc '''' w0 b (scr @ [''Please enter your PIN (0-9)'', ''PIN incorrect'']) n))
        (rest_at St_gettingPin acc '''' w0 b (scr @ [''Please enter your PIN (0-9)'', ''PIN incorrect'']) n)"
      unfolding press_rest_at by (rule settles_rest_at [OF withdrawal_ignored]) simp_all
    note * = two [OF _ wrong_pin_settles [OF assms(3) False, of acc acc0 p0 w0 b scr n, folded s(1)] this]
    let ?s' = "rest_at St_gettingPin acc '''' w0 b (scr @ [''Please enter your PIN (0-9)'', ''PIN incorrect'']) n"
    have "\<forall>t. atm_session [card_and_pin acc p, [withdraw_pressed amount]] s t \<longleftrightarrow> t = ?s'"
      using * by (auto dest: card_and_pin_user)
    then show ?thesis
      unfolding s(2-4) [symmetric]
      by (rule exI [of _ ?s', OF conjI]) (simp add: False rest_at_def resting_def)
  qed
qed

lemma start_rests:
  "run_labels sys_step [Atm_enter, Interface_recv] (sys_start w) =
     Some (rest_at St_waitForCard '''' '''' w BankMachine_new [''Please enter your card (I)''] 0)"
  by (simp add: sys_start_def ATM_new_def rest_eval fun_eq_iff)

lemma start_idle:
  obtains s where "reach sys_step (sys_start w) s" "atm_idle s" "bank_balance (sys_bank s) = 199" "sys_issued s = 0"
proof (rule that)
  let ?s = "rest_at St_waitForCard '''' '''' w BankMachine_new [''Please enter your card (I)''] 0"
  show "reach sys_step (sys_start w) ?s" by (rule run_labels_reach [OF start_rests])
  show "atm_idle ?s" by (rule idle_rest_at_iff)
qed (simp_all add: rest_at_def resting_def BankMachine_new_def)

theorem withdrawal_session_pays_witness:
  "\<exists>s s'. reach sys_step (sys_start 0) s \<and> atm_session [card_and_pin ''acc1234'' ''0000'', [withdraw_pressed 50]] s s' \<and>
     atm_idle s' \<and> sys_issued s' = 50 \<and> unat (bank_balance (sys_bank s')) = 149"
proof -
  obtain s where s: "reach sys_step (sys_start 0) s" "atm_idle s" "bank_balance (sys_bank s) = 199" "sys_issued s = 0"
    by (rule start_idle)
  have "length ''0000'' = 4" by simp
  from withdrawal_session_pays [OF s(1,2) this, of "''acc1234''" 50] s show ?thesis by auto
qed

text \<open>
  (C23) A cancelled verification lets a wrong PIN pass, in every schedule and from any idle state: when the customer types
  \<open>0000\<close>, cancels, and a second card and any four digits follow before the bank has answered, the machine takes the late answer to the first verification for
  the answer to the second, and then pays out of the account any amount that the balance covers.
\<close>

theorem stale_verification_accepts_wrong_pin:
  assumes "reach sys_step (sys_start w) s" and "atm_idle s" and "length q = 4"
  shows "\<exists>s'. (\<forall>t. atm_session [card_and_pin acc ''0000'' @ cancel_pressed # card_and_pin acc' q, [withdraw_pressed amount]] s t \<longleftrightarrow> t = s') \<and>
    atm_idle s' \<and> pin (sys_atm s') = q \<and> account (sys_atm s') = acc' \<and>
    sys_issued s' = sys_issued s + (if unat amount \<le> unat (bank_balance (sys_bank s)) then unat amount else 0)"
proof -
  obtain acc0 p0 w0 b scr n where s: "s = rest_at St_waitForCard acc0 p0 w0 b scr n"
      "b = sys_bank s" "scr = sys_screen s" "n = sys_issued s"
    using idle_rest_at [OF assms(1,2)] by blast
  have o: "open_wf s" unfolding s(1) by (rule open_rest_at) simp
  obtain scr' where first: "settles (press (card_and_pin acc ''0000'' @ cancel_pressed # card_and_pin acc' q) s)
      (rest_at St_waitForAction acc' q w0 b scr' n)"
    using stale_reply_settles [OF assms(3)] s(1) by blast
  let ?s' = "if amount \<le> bank_balance b
      then rest_at St_waitForCard acc' q amount (b\<lparr>bank_balance := bank_balance b - amount\<rparr>)
        (scr' @ [''Issuing '' @ decimal (unat amount), ''Ejecting card'', ''Please enter your card (I)'']) (n + unat amount)
      else rest_at St_waitForCard acc' q amount b
        (scr' @ [''Insufficient funds'', ''Ejecting card'', ''Please enter your card (I)'']) n"
  have "\<forall>t. atm_session [card_and_pin acc ''0000'' @ cancel_pressed # card_and_pin acc' q, [withdraw_pressed amount]] s t \<longleftrightarrow> t = ?s'"
    by (rule allI, rule session_two [OF o _ first withdrawal_settles]) (auto dest: card_and_pin_user)
  then show ?thesis
    unfolding s(2-4) [symmetric]
    by (rule exI [of _ ?s', OF conjI]) (simp add: idle_rest_at_iff word_le_nat_alt, simp add: rest_at_def resting_def)
qed

theorem stale_verification_accepts_wrong_pin_witness:
  "\<exists>s s'. reach sys_step (sys_start 0) s \<and>
     atm_session [card_and_pin ''acc1234'' ''0000'' @ cancel_pressed # card_and_pin ''acc5678'' ''9999'', [withdraw_pressed 199]] s s' \<and>
     pin (sys_atm s') = ''9999'' \<and> sys_issued s' = 199"
proof -
  obtain s where s: "reach sys_step (sys_start 0) s" "atm_idle s" "bank_balance (sys_bank s) = 199" "sys_issued s = 0"
    by (rule start_idle)
  have "length ''9999'' = 4" by simp
  from stale_verification_accepts_wrong_pin [OF s(1,2) this, of "''acc1234''" "''acc5678''" 199] s show ?thesis by auto
qed

text \<open>
  (C24) Cancelling a withdrawal before the bank has answered: nothing is paid, and the balance stays when it covers the amount; but when
  the bank denies the withdrawal, the cancellation raises the balance by the amount that was never taken (modulo 2 to the 32). So it is in every schedule and
  from any idle state.
\<close>

theorem cancelled_denied_withdrawal_creates_money:
  assumes "reach sys_step (sys_start w) s" and "atm_idle s"
  shows "\<exists>s'. (\<forall>t. atm_session [card_and_pin acc ''0000'', [withdraw_pressed amount, cancel_pressed]] s t \<longleftrightarrow> t = s') \<and>
    atm_idle s' \<and> sys_issued s' = sys_issued s \<and>
    bank_balance (sys_bank s') =
      (if unat amount \<le> unat (bank_balance (sys_bank s)) then bank_balance (sys_bank s) else bank_balance (sys_bank s) + amount)"
proof -
  obtain acc0 p0 w0 b scr n where s: "s = rest_at St_waitForCard acc0 p0 w0 b scr n"
      "b = sys_bank s" "scr = sys_screen s" "n = sys_issued s"
    using idle_rest_at [OF assms(1,2)] by blast
  have o: "open_wf s" unfolding s(1) by (rule open_rest_at) simp
  let ?s' = "rest_at St_waitForCard acc ''0000'' amount (if amount \<le> bank_balance b then b else b\<lparr>bank_balance := bank_balance b + amount\<rparr>)
      ((scr @ [''Please enter your PIN (0-9)''] @ [''PIN verified'', ''Withdraw 50? (w)'', ''Display Balance? (b)'', ''Cancel? (c)'']) @
        [''Withdrawal cancelled'', ''Ejecting card'', ''Please enter your card (I)'']) n"
  have "\<forall>t. atm_session [card_and_pin acc ''0000'', [withdraw_pressed amount, cancel_pressed]] s t \<longleftrightarrow> t = ?s'"
    by (rule allI, rule session_two [OF o _ right_pin_settles [of acc acc0 p0 w0 b scr n, folded s(1)] cancel_settles]) (auto dest: card_and_pin_user)
  then show ?thesis
    unfolding s(2-4) [symmetric]
    by (rule exI [of _ ?s', OF conjI]) (simp add: idle_rest_at_iff word_le_nat_alt, simp add: rest_at_def resting_def)
qed

theorem cancelled_denied_withdrawal_creates_money_witness:
  "\<exists>s s'. reach sys_step (sys_start 0) s \<and> bank_balance (sys_bank s) = 199 \<and>
     atm_session [card_and_pin ''acc1234'' ''0000'', [withdraw_pressed 500, cancel_pressed]] s s' \<and>
     sys_issued s' = 0 \<and> bank_balance (sys_bank s') = 699"
proof -
  obtain s where s: "reach sys_step (sys_start 0) s" "atm_idle s" "bank_balance (sys_bank s) = 199" "sys_issued s = 0"
    by (rule start_idle)
  from cancelled_denied_withdrawal_creates_money [OF s(1,2), of "''acc1234''" 500] s show ?thesis by auto
qed

text \<open>
  (C36) Every session has exactly one outcome: whatever groups of keys are pressed, from any idle state, the machines come to rest after each group,
  and all schedules of the three threads end in the same state of the machines, the balance, the screen and the money issued.
\<close>

theorem sessions_are_deterministic:
  assumes "reach sys_step (sys_start w) s" and "atm_idle s" and "\<forall>ms\<in>set bs. \<forall>m\<in>set ms. user_message m"
  shows "\<exists>!s'. atm_session bs s s'"
proof -
  have "s = rest_at St_waitForCard (account (sys_atm s)) (pin (sys_atm s)) (withdrawal_amount (sys_atm s))
      (sys_bank s) (sys_screen s) (sys_issued s)" by (rule idle_rest_at [OF assms(1,2)])
  moreover have "open_wf (rest_at St_waitForCard acc p w b scr n)" for acc p w b scr n
    by (rule open_rest_at) simp
  ultimately have o: "open_wf s" by metis
  then show ?thesis using session_exists [OF o assms(3)] session_unique [OF o] by blast
qed

theorem sessions_are_deterministic_witness:
  "\<exists>s. reach sys_step (sys_start 0) s \<and>
     (\<exists>!s'. atm_session [[card_inserted ''acc1234'', digit_pressed CHR ''7'', clear_last_pressed], [balance_pressed, cancel_pressed]] s s')"
proof -
  obtain s where s: "reach sys_step (sys_start 0) s" "atm_idle s" by (rule start_idle)
  from sessions_are_deterministic [OF this,
      of "[[card_inserted ''acc1234'', digit_pressed CHR ''7'', clear_last_pressed], [balance_pressed, cancel_pressed]]"]
  have "\<exists>!s'. atm_session [[card_inserted ''acc1234'', digit_pressed CHR ''7'', clear_last_pressed], [balance_pressed, cancel_pressed]] s s'" by simp
  with s(1) show ?thesis by blast
qed

end
