(* ===== verification/Msg_Node.thy ===== *)
theory Msg_Node
  imports Cxx_Prelude
begin

text \<open>
  \<open>include/asio/const.h\<close> and class \<open>MsgNode\<close> of \<open>include/asio/CSession.h\<close>: the byte buffers
  of a session. A \<open>short\<close> and an \<open>int\<close> are mathematical integers with the conversions of the
  code written out: \<open>to_short\<close> narrows to 16 bits and \<open>to_size\<close> converts to \<open>size_t\<close>, which
  turns a negative number into a huge one. A \<open>memcpy\<close> or \<open>memset\<close> outside a buffer is a fault.

  The byte-order functions of Boost are the parameters \<open>hton\<close> and \<open>ntoh\<close>. The host stores
  integers with the low byte first.
\<close>

definition MAX_LENGTH :: int where "MAX_LENGTH = 1024 * 2"

definition HEAD_LENGTH :: int where "HEAD_LENGTH = 2"

definition MAX_SENDQUE :: int where "MAX_SENDQUE = 1000"

lemmas const_defs = MAX_LENGTH_def HEAD_LENGTH_def MAX_SENDQUE_def

definition to_short :: "int \<Rightarrow> int" where
  "to_short i = (i + 32768) mod 65536 - 32768"

definition to_size :: "int \<Rightarrow> nat" where
  "to_size i = nat (i mod 2 ^ 64)"

lemma to_short_id: "- 32768 \<le> i \<Longrightarrow> i < 32768 \<Longrightarrow> to_short i = i"
  by (simp add: to_short_def)

lemma to_size_nonneg: "0 \<le> i \<Longrightarrow> i < 2 ^ 64 \<Longrightarrow> to_size i = nat i"
  by (simp add: to_size_def)

lemma to_size_negative: "- (2 ^ 63) \<le> i \<Longrightarrow> i < 0 \<Longrightarrow> 2 ^ 63 \<le> to_size i"
proof -
  assume i: "- (2 ^ 63) \<le> i" "i < 0"
  have "i mod 2 ^ 64 = i + 2 ^ 64"
    using i by (intro int_mod_pos_eq [where q = "- 1"]) simp_all
  then show ?thesis using i by (simp add: to_size_def)
qed

definition memcpy :: "byte list \<Rightarrow> int \<Rightarrow> byte list \<Rightarrow> int \<Rightarrow> nat \<Rightarrow> byte list result" where
  "memcpy dst off src soff n =
     (if 0 \<le> off \<and> nat off + n \<le> length dst \<and> 0 \<le> soff \<and> nat soff + n \<le> length src
      then Inr (take (nat off) dst @ take n (drop (nat soff) src) @ drop (nat off + n) dst)
      else Inl Out_Of_Bounds)"

definition store :: "byte list \<Rightarrow> int \<Rightarrow> byte \<Rightarrow> byte list result" where
  "store dst i b = (if 0 \<le> i \<and> nat i < length dst then Inr (dst[nat i := b]) else Inl Out_Of_Bounds)"

text \<open>The bytes of a 16-bit integer in the memory of the host, and the integer of two bytes.\<close>

definition bytes_of_u16 :: "16 word \<Rightarrow> byte list" where
  "bytes_of_u16 w = [ucast w, ucast (drop_bit 8 w)]"

definition u16_of_bytes :: "byte \<Rightarrow> byte \<Rightarrow> 16 word" where
  "u16_of_bytes b0 b1 = of_nat (unat b0 + 256 * unat b1)"

lemma unat_bytes_of_u16:
  "unat (bytes_of_u16 w ! 0) = unat w mod 256" "unat (bytes_of_u16 w ! 1) = unat w div 256 mod 256"
  by (simp_all add: bytes_of_u16_def unsigned_ucast_eq drop_bit_eq_div take_bit_eq_mod unat_div_distrib)

lemma u16_of_bytes_of_u16: "u16_of_bytes (bytes_of_u16 w ! 0) (bytes_of_u16 w ! 1) = w"
proof -
  have "unat w < 65536" using unsigned_less [of w, where ?'a = nat] by simp
  then have "unat (bytes_of_u16 w ! 0) + 256 * unat (bytes_of_u16 w ! 1) = unat w"
    unfolding unat_bytes_of_u16 by simp
  then show ?thesis by (simp add: u16_of_bytes_def del: of_nat_add of_nat_mult)
qed

lemma bytes_of_u16_of_bytes:
  "bytes_of_u16 (u16_of_bytes b0 b1) ! 0 = b0" "bytes_of_u16 (u16_of_bytes b0 b1) ! 1 = b1"
proof -
  have b: "unat b0 < 256" "unat b1 < 256"
    using unsigned_less [of b0, where ?'a = nat] unsigned_less [of b1, where ?'a = nat] by simp_all
  then have "unat (u16_of_bytes b0 b1) = unat b0 + 256 * unat b1"
    by (simp only: u16_of_bytes_def unsigned_of_nat) (simp add: take_bit_nat_eq_self)
  then show "bytes_of_u16 (u16_of_bytes b0 b1) ! 0 = b0" "bytes_of_u16 (u16_of_bytes b0 b1) ! 1 = b1"
    using b unfolding word_unat_eq_iff unat_bytes_of_u16 by simp_all
qed

record msg_node =
  mn_cur_len :: int
  mn_total_len :: int
  mn_data :: "byte list"

text \<open>\<open>MsgNode(short max_len)\<close>: an empty buffer with one spare byte.\<close>

definition MsgNode_recv :: "int \<Rightarrow> msg_node result" where
  "MsgNode_recv max_len =
     (if max_len + 1 < 0 then Inl Bad_Array_Length
      else Inr \<lparr>mn_cur_len = 0, mn_total_len = max_len, mn_data = replicate (nat (max_len + 1)) 0\<rparr>)"

text \<open>
  \<open>MsgNode(char* msg, short max_len)\<close>: a frame, the length in network byte order followed by the
  message.
\<close>

definition MsgNode_send :: "(16 word \<Rightarrow> 16 word) \<Rightarrow> byte list \<Rightarrow> int \<Rightarrow> msg_node result" where
  "MsgNode_send hton msg max_len =
     (let total_len = to_short (max_len + HEAD_LENGTH) in
      if total_len + 1 < 0 then Inl Bad_Array_Length
      else
        and_then (memcpy (replicate (nat (total_len + 1)) 0) 0 (bytes_of_u16 (hton (word_of_int max_len))) 0
            (to_size HEAD_LENGTH)) (\<lambda>d1.
        and_then (memcpy d1 HEAD_LENGTH msg 0 (to_size max_len)) (\<lambda>d2.
        and_then (store d2 total_len 0) (\<lambda>d3.
        Inr \<lparr>mn_cur_len = 0, mn_total_len = total_len, mn_data = d3\<rparr>))))"

definition MsgNode_Clear :: "msg_node \<Rightarrow> msg_node result" where
  "MsgNode_Clear n =
     (let k = to_size (mn_total_len n) in
      if k \<le> length (mn_data n)
      then Inr (n\<lparr>mn_data := replicate k 0 @ drop k (mn_data n), mn_cur_len := 0\<rparr>)
      else Inl Out_Of_Bounds)"

text \<open>The frame of a message, as it goes over the wire.\<close>

definition frame :: "(16 word \<Rightarrow> 16 word) \<Rightarrow> byte list \<Rightarrow> byte list" where
  "frame hton msg = bytes_of_u16 (hton (of_nat (length msg))) @ msg"

lemma length_frame [simp]: "length (frame hton msg) = length msg + 2"
  by (simp add: frame_def bytes_of_u16_def)

lemma MsgNode_send_frame:
  assumes "n \<le> length msg" "n \<le> 2048"
  shows "MsgNode_send hton msg (int n) =
    Inr \<lparr>mn_cur_len = 0, mn_total_len = int n + 2, mn_data = frame hton (take n msg) @ [0]\<rparr>"
proof -
  have total: "to_short (int n + HEAD_LENGTH) = int n + 2"
    using assms by (simp add: const_defs to_short_id)
  have len: "to_size HEAD_LENGTH = 2" "to_size (int n) = n"
    using assms by (simp_all add: const_defs to_size_nonneg)
  let ?h = "bytes_of_u16 (hton (of_nat n))"
  have h: "length ?h = 2" by (simp add: bytes_of_u16_def)
  have d1: "memcpy (replicate (nat (int n + 2 + 1)) 0) 0 ?h 0 2 = Inr (?h @ replicate (n + 1) 0)"
    using h by (simp add: memcpy_def nat_add_distrib)
  have d2: "memcpy (?h @ replicate (n + 1) 0) HEAD_LENGTH msg 0 n = Inr (?h @ take n msg @ [0])"
    using h assms by (simp add: memcpy_def const_defs replicate_append_same [symmetric])
  have d3: "store (?h @ take n msg @ [0]) (int n + 2) 0 = Inr (?h @ take n msg @ [0])"
    using h assms by (simp add: store_def nat_add_distrib list_update_append)
  show ?thesis
    using assms d1 d2 d3 by (simp add: MsgNode_send_def total len frame_def min_absorb2)
qed

lemma MsgNode_recv_nonneg:
  "0 \<le> n \<Longrightarrow> MsgNode_recv n = Inr \<lparr>mn_cur_len = 0, mn_total_len = n, mn_data = replicate (nat n + 1) 0\<rparr>"
  by (simp add: MsgNode_recv_def nat_add_distrib)

end
