(* ===== verification/C_Session.thy ===== *)
theory C_Session
  imports Msg_Node "HOL-Library.Sublist"
begin

text \<open>
  Class \<open>CSession\<close> of \<open>include/asio/CSession.h\<close> and \<open>include/asio/CSession.cpp\<close>: one connection
  of the echo server. The session cuts the byte stream of its socket into frames (a two byte
  length followed by that many bytes) and sends every message back.

  The socket, the server and \<open>std::cout\<close> are outside the session: what the session asks of
  them is the list \<open>se_io\<close>, in order. The completion handlers \<open>HandleRead\<close> and \<open>HandleWrite\<close> are
  functions of the error code (\<open>None\<close> for success, otherwise the text of \<open>what()\<close>), the number
  of bytes and the session. A \<open>size_t\<close> is a natural number, with \<open>to_size\<close> where the code mixes
  it with signed integers. The loop of \<open>HandleRead\<close> is a partial function: \<open>None\<close> would mean that
  it does not return.
\<close>

datatype io =
    Async_read_some
  | Async_write "byte list"
  | Socket_close
  | Clear_session string
  | Cout string

record session =
  se_uuid :: string
  se_data :: "byte list"
  se_b_close :: bool
  se_send_que :: "msg_node list"
  se_recv_msg_node :: "msg_node option"
  se_b_head_parse :: bool
  se_recv_head_node :: msg_node
  se_io :: "io list"

definition emit :: "io \<Rightarrow> session \<Rightarrow> session" where
  "emit e s = s\<lparr>se_io := se_io s @ [e]\<rparr>"

text \<open>What \<open>operator<<\<close> prints for a \<open>char*\<close> and for a \<open>short\<close>.\<close>

definition c_str :: "byte list \<Rightarrow> string result" where
  "c_str bs = (if 0 \<in> set bs then Inr (map (\<lambda>b. char_of (unat b)) (takeWhile (\<lambda>b. b \<noteq> 0) bs))
               else Inl Out_Of_Bounds)"

definition print_short :: "int \<Rightarrow> string" where
  "print_short i = (if i < 0 then ''-'' else '''') @ decimal (nat \<bar>i\<bar>)"

subsection \<open>Construction, reading and closing\<close>

text \<open>The constructor leaves the bytes of \<open>_data\<close> indeterminate: they are an argument.\<close>

definition CSession_new :: "string \<Rightarrow> byte list \<Rightarrow> session result" where
  "CSession_new uuid data =
     and_then (MsgNode_recv HEAD_LENGTH) (\<lambda>h.
     Inr \<lparr>se_uuid = uuid, se_data = data, se_b_close = False, se_send_que = [],
          se_recv_msg_node = None, se_b_head_parse = False, se_recv_head_node = h, se_io = []\<rparr>)"

definition GetUuid :: "session \<Rightarrow> string" where
  "GetUuid s = se_uuid s"

definition Start :: "session \<Rightarrow> session" where
  "Start s = emit Async_read_some (s\<lparr>se_data := replicate (nat MAX_LENGTH) 0\<rparr>)"

definition Close :: "session \<Rightarrow> session" where
  "Close s = (emit Socket_close s)\<lparr>se_b_close := True\<rparr>"

subsection \<open>Sending\<close>

text \<open>\<open>boost::asio::buffer(msgnode->_data, msgnode->_total_len)\<close> of the front of the queue.\<close>

definition node_bytes :: "msg_node \<Rightarrow> byte list result" where
  "node_bytes n = (if to_size (mn_total_len n) \<le> length (mn_data n)
                   then Inr (take (to_size (mn_total_len n)) (mn_data n)) else Inl Out_Of_Bounds)"

definition write_front :: "session \<Rightarrow> session result" where
  "write_front s =
     (case se_send_que s of [] \<Rightarrow> Inl Out_Of_Bounds
      | n # q \<Rightarrow> and_then (node_bytes n) (\<lambda>bs. Inr (emit (Async_write bs) s)))"

definition Send :: "(16 word \<Rightarrow> 16 word) \<Rightarrow> byte list \<Rightarrow> int \<Rightarrow> session \<Rightarrow> session result" where
  "Send hton msg max_length s =
     (let send_que_size = int (length (se_send_que s)) in
      if send_que_size > MAX_SENDQUE
      then Inr (emit (Cout (''session: '' @ se_uuid s @ '' send que fulled, size is '' @
                            print_short MAX_SENDQUE)) s)
      else and_then (MsgNode_send hton msg (to_short max_length)) (\<lambda>n.
        let s' = s\<lparr>se_send_que := se_send_que s @ [n]\<rparr> in
        if send_que_size > 0 then Inr s' else write_front s'))"

definition HandleWrite :: "string option \<Rightarrow> session \<Rightarrow> session result" where
  "HandleWrite error s =
     (case error of
        None \<Rightarrow>
          (case se_send_que s of [] \<Rightarrow> Inl Out_Of_Bounds
           | n # q \<Rightarrow>
               and_then (c_str (drop (to_size HEAD_LENGTH) (mn_data n))) (\<lambda>txt.
               let s' = (emit (Cout (''send data '' @ txt)) s)\<lparr>se_send_que := q\<rparr> in
               if q \<noteq> [] then write_front s' else Inr s'))
      | Some what \<Rightarrow>
          Inr (emit (Clear_session (se_uuid s))
                (Close (emit (Cout (''handle write failed, error is '' @ what)) s))))"

subsection \<open>Receiving\<close>

text \<open>
  One round of the loop of \<open>HandleRead\<close> either returns from the handler or goes on with the rest
  of the bytes, \<open>bytes_transferred\<close> of them at offset \<open>copy_len\<close> of \<open>_data\<close>.
\<close>

datatype round = Return session | Continue int nat session

definition copy_into :: "msg_node \<Rightarrow> session \<Rightarrow> int \<Rightarrow> nat \<Rightarrow> msg_node result" where
  "copy_into n s copy_len k =
     and_then (memcpy (mn_data n) (mn_cur_len n) (se_data s) copy_len k) (\<lambda>d. Inr (n\<lparr>mn_data := d\<rparr>))"

definition add_len :: "int \<Rightarrow> msg_node \<Rightarrow> msg_node" where
  "add_len k n = n\<lparr>mn_cur_len := to_short (mn_cur_len n + k)\<rparr>"

text \<open>The message is complete: print it, echo it and start over with a new header.\<close>

definition finish_message ::
  "(16 word \<Rightarrow> 16 word) \<Rightarrow> msg_node \<Rightarrow> int \<Rightarrow> nat \<Rightarrow> session \<Rightarrow> round result" where
  "finish_message hton n copy_len bytes_transferred s =
     and_then (store (mn_data n) (mn_total_len n) 0) (\<lambda>d.
     let n' = n\<lparr>mn_data := d\<rparr>; s1 = s\<lparr>se_recv_msg_node := Some n'\<rparr> in
     and_then (c_str d) (\<lambda>txt.
     and_then (Send hton d (mn_total_len n') (emit (Cout (''receive data is '' @ txt)) s1)) (\<lambda>s2.
     and_then (MsgNode_Clear (se_recv_head_node s2)) (\<lambda>h.
     let s3 = s2\<lparr>se_b_head_parse := False, se_recv_head_node := h\<rparr> in
     Inr (if bytes_transferred = 0 then Return (Start s3)
          else Continue copy_len bytes_transferred s3)))))"

definition read_body :: "(16 word \<Rightarrow> 16 word) \<Rightarrow> int \<Rightarrow> nat \<Rightarrow> session \<Rightarrow> round result" where
  "read_body hton copy_len bytes_transferred s =
     (case se_recv_msg_node s of None \<Rightarrow> Inl Null_Dereference
      | Some n \<Rightarrow>
        let remain_msg = mn_total_len n - mn_cur_len n in
        if bytes_transferred < to_size remain_msg
        then and_then (copy_into n s copy_len bytes_transferred) (\<lambda>n'.
             Inr (Return (Start (s\<lparr>se_recv_msg_node := Some (add_len (int bytes_transferred) n')\<rparr>))))
        else and_then (copy_into n s copy_len (to_size remain_msg)) (\<lambda>n'.
             finish_message hton (add_len remain_msg n') (copy_len + remain_msg)
               (to_size (int bytes_transferred - remain_msg)) s))"

text \<open>The header is complete: check the length and take what there is of the message.\<close>

definition read_first_body ::
  "(16 word \<Rightarrow> 16 word) \<Rightarrow> int \<Rightarrow> int \<Rightarrow> nat \<Rightarrow> session \<Rightarrow> round result" where
  "read_first_body hton data_len copy_len bytes_transferred s =
     (if data_len > MAX_LENGTH
      then Inr (Return (emit (Clear_session (se_uuid s))
             (emit (Cout (''invalid data length is '' @ print_short data_len)) s)))
      else and_then (MsgNode_recv data_len) (\<lambda>n.
        if bytes_transferred < to_size data_len
        then and_then (copy_into n s copy_len bytes_transferred) (\<lambda>n'.
             Inr (Return ((Start (s\<lparr>se_recv_msg_node := Some (add_len (int bytes_transferred) n')\<rparr>))
                   \<lparr>se_b_head_parse := True\<rparr>)))
        else and_then (copy_into n s copy_len (to_size data_len)) (\<lambda>n'.
             finish_message hton (add_len data_len n') (copy_len + data_len)
               (to_size (int bytes_transferred - data_len)) s)))"

definition read_head ::
  "(16 word \<Rightarrow> 16 word) \<Rightarrow> (16 word \<Rightarrow> 16 word) \<Rightarrow> int \<Rightarrow> nat \<Rightarrow> session \<Rightarrow> round result" where
  "read_head hton ntoh copy_len bytes_transferred s =
     (let h = se_recv_head_node s in
      if to_size (int bytes_transferred + mn_cur_len h) < to_size HEAD_LENGTH
      then and_then (copy_into h s copy_len bytes_transferred) (\<lambda>h'.
           Inr (Return (Start (s\<lparr>se_recv_head_node := add_len (int bytes_transferred) h'\<rparr>))))
      else
        let head_remain = HEAD_LENGTH - mn_cur_len h in
        and_then (copy_into h s copy_len (to_size head_remain)) (\<lambda>h'.
        and_then (memcpy [0, 0] 0 (mn_data h') 0 (to_size HEAD_LENGTH)) (\<lambda>b.
        let data_len = sint (ntoh (u16_of_bytes (b ! 0) (b ! 1)));
            s1 = emit (Cout (''data_len is '' @ print_short data_len)) (s\<lparr>se_recv_head_node := h'\<rparr>)
        in read_first_body hton data_len (copy_len + head_remain)
             (to_size (int bytes_transferred - head_remain)) s1)))"

definition read_round ::
  "(16 word \<Rightarrow> 16 word) \<Rightarrow> (16 word \<Rightarrow> 16 word) \<Rightarrow> int \<Rightarrow> nat \<Rightarrow> session \<Rightarrow> round result" where
  "read_round hton ntoh copy_len bytes_transferred s =
     (if \<not> se_b_head_parse s then read_head hton ntoh copy_len bytes_transferred s
      else read_body hton copy_len bytes_transferred s)"

partial_function (option) read_loop ::
  "(16 word \<Rightarrow> 16 word) \<Rightarrow> (16 word \<Rightarrow> 16 word) \<Rightarrow> int \<Rightarrow> nat \<Rightarrow> session \<Rightarrow> session result option" where
  "read_loop hton ntoh copy_len bytes_transferred s =
     (if bytes_transferred > 0
      then (case read_round hton ntoh copy_len bytes_transferred s of
              Inl e \<Rightarrow> Some (Inl e)
            | Inr r \<Rightarrow> (case r of Return s' \<Rightarrow> Some (Inr s')
                                | Continue c b s' \<Rightarrow> read_loop hton ntoh c b s'))
      else Some (Inr s))"

definition HandleRead ::
  "(16 word \<Rightarrow> 16 word) \<Rightarrow> (16 word \<Rightarrow> 16 word) \<Rightarrow> string option \<Rightarrow> nat \<Rightarrow> session \<Rightarrow>
   session result option" where
  "HandleRead hton ntoh error bytes_transferred s =
     (case error of
        None \<Rightarrow> read_loop hton ntoh 0 bytes_transferred s
      | Some what \<Rightarrow>
          Some (Inr (emit (Clear_session (se_uuid s))
                (Close (emit (Cout (''handle read failed, error is '' @ what)) s)))))"

text \<open>A completed \<open>async_read_some\<close> has put the received bytes at the start of \<open>_data\<close>.\<close>

definition received :: "byte list \<Rightarrow> session \<Rightarrow> session" where
  "received bs s = s\<lparr>se_data := bs @ drop (length bs) (se_data s)\<rparr>"

end
