(* ===== verification/Session_Protocol.thy ===== *)
theory Session_Protocol
  imports C_Session
begin

text \<open>
  The framing protocol of the echo server and the proof that \<open>HandleRead\<close> implements it. The
  specification \<open>deframe\<close> reads a whole byte stream at once; a session sees the stream in pieces of
  any size from 1 to 2048 bytes, keeps the unfinished frame in its two receive nodes and answers
  every complete message. The bytes it still holds are \<open>pending\<close>.
\<close>

subsection \<open>Specification of the wire format\<close>

datatype stream_end = More "byte list" | Oversized | Negative

definition header :: "(16 word \<Rightarrow> 16 word) \<Rightarrow> byte \<Rightarrow> byte \<Rightarrow> int" where
  "header ntoh b0 b1 = sint (ntoh (u16_of_bytes b0 b1))"

fun deframe :: "(16 word \<Rightarrow> 16 word) \<Rightarrow> byte list \<Rightarrow> byte list list \<times> stream_end" where
  "deframe ntoh [] = ([], More [])"
| "deframe ntoh [b] = ([], More [b])"
| "deframe ntoh (b0 # b1 # bs) =
     (let n = header ntoh b0 b1 in
      if n > MAX_LENGTH then ([], Oversized)
      else if n < 0 then ([], Negative)
      else if length bs < nat n then ([], More (b0 # b1 # bs))
      else let (ms, e) = deframe ntoh (drop (nat n) bs) in (take (nat n) bs # ms, e))"

declare deframe.simps(3) [simp del]

lemma deframe_msg:
  assumes "header ntoh b0 b1 = int n" "n \<le> 2048" "n \<le> length bs"
  shows "deframe ntoh (b0 # b1 # bs) =
    (let (ms, e) = deframe ntoh (drop n bs) in (take n bs # ms, e))"
  using assms by (simp add: deframe.simps(3) const_defs)

lemma deframe_more:
  assumes "header ntoh b0 b1 = int n" "n \<le> 2048" "length bs < n"
  shows "deframe ntoh (b0 # b1 # bs) = ([], More (b0 # b1 # bs))"
  using assms by (simp add: deframe.simps(3) const_defs)

text \<open>Reading a stream in two pieces: the second piece continues with the unfinished frame.\<close>

lemma deframe_append:
  "deframe ntoh (xs @ ys) =
     (case deframe ntoh xs of
        (ms, More p) \<Rightarrow> (let (ms', e) = deframe ntoh (p @ ys) in (ms @ ms', e))
      | r \<Rightarrow> r)"
proof (induction ntoh xs rule: deframe.induct)
  case (3 ntoh b0 b1 bs)
  show ?case
    using 3 [OF refl] by (auto simp: deframe.simps(3) Let_def split: prod.splits stream_end.splits)
qed (auto split: prod.splits)

lemma deframe_pending_short: "deframe ntoh bs = (ms, More p) \<Longrightarrow> deframe ntoh p = ([], More p)"
proof (induction ntoh bs arbitrary: ms rule: deframe.induct)
  case (3 ntoh b0 b1 bs)
  show ?case
    using 3(2) 3(1) [OF refl]
    by (auto simp: deframe.simps(3) [of ntoh b0 b1 bs] Let_def split: prod.splits if_splits)
qed auto

lemma header_frame:
  assumes "\<And>w. ntoh (hton w) = w" "length m \<le> 2048"
  shows "header ntoh (frame hton m ! 0) (frame hton m ! 1) = int (length m)"
proof -
  have "sint (of_nat (length m) :: 16 word) = int (length m)"
    using assms(2) by (simp add: signed_of_nat signed_take_bit_int_eq_self)
  then show ?thesis
    using u16_of_bytes_of_u16 [of "hton (of_nat (length m))"] assms(1)
    by (simp add: header_def frame_def bytes_of_u16_def)
qed

lemma deframe_frames:
  assumes "\<And>w. ntoh (hton w) = w" "\<forall>m\<in>set ms. length m \<le> 2048"
  shows "deframe ntoh (concat (map (frame hton) ms)) = (ms, More [])"
  using assms(2)
proof (induction ms)
  case (Cons m ms)
  let ?t = "concat (map (frame hton) ms)"
  have f: "frame hton m @ ?t = frame hton m ! 0 # frame hton m ! 1 # (m @ ?t)"
    by (simp add: frame_def bytes_of_u16_def)
  have "deframe ntoh (frame hton m ! 0 # frame hton m ! 1 # (m @ ?t)) = (m # ms, More [])"
    using Cons
      deframe_msg [OF header_frame [where ntoh = ntoh and hton = hton and m = m, OF assms(1)],
        where bs = "m @ ?t"]
    by simp
  then show ?case by (simp only: list.map concat.simps f)
qed simp

subsection \<open>The state of a session between two handlers\<close>

definition head_ok :: "msg_node \<Rightarrow> bool" where
  "head_ok h \<longleftrightarrow> mn_total_len h = 2 \<and> length (mn_data h) = 3 \<and> (mn_cur_len h = 0 \<or> mn_cur_len h = 1)"

definition body_ok :: "int \<Rightarrow> msg_node \<Rightarrow> bool" where
  "body_ok t n \<longleftrightarrow> mn_total_len n = t \<and> 0 \<le> mn_cur_len n \<and> mn_cur_len n < t \<and> t \<le> 2048 \<and>
     length (mn_data n) = nat t + 1"

definition body_matches :: "(16 word \<Rightarrow> 16 word) \<Rightarrow> msg_node \<Rightarrow> msg_node option \<Rightarrow> bool" where
  "body_matches ntoh h r =
     (case r of None \<Rightarrow> False
      | Some n \<Rightarrow> body_ok (header ntoh (mn_data h ! 0) (mn_data h ! 1)) n)"

definition send_ok :: "msg_node \<Rightarrow> bool" where
  "send_ok n \<longleftrightarrow> 2 \<le> mn_total_len n \<and> mn_total_len n \<le> 2050 \<and>
     length (mn_data n) = nat (mn_total_len n) + 1 \<and> mn_data n ! nat (mn_total_len n) = 0"

definition sess_inv :: "(16 word \<Rightarrow> 16 word) \<Rightarrow> session \<Rightarrow> bool" where
  "sess_inv ntoh s \<longleftrightarrow> length (se_data s) = 2048 \<and> head_ok (se_recv_head_node s) \<and>
     list_all send_ok (se_send_que s) \<and> length (se_send_que s) \<le> 1001 \<and>
     (se_b_head_parse s \<longrightarrow> body_matches ntoh (se_recv_head_node s) (se_recv_msg_node s))"

text \<open>The bytes of the unfinished frame.\<close>

definition pending :: "session \<Rightarrow> byte list" where
  "pending s =
     (if se_b_head_parse s
      then take 2 (mn_data (se_recv_head_node s)) @
        (case se_recv_msg_node s of None \<Rightarrow> [] | Some n \<Rightarrow> take (nat (mn_cur_len n)) (mn_data n))
      else take (nat (mn_cur_len (se_recv_head_node s))) (mn_data (se_recv_head_node s)))"

definition node_frame :: "msg_node \<Rightarrow> byte list" where
  "node_frame n = take (nat (mn_total_len n)) (mn_data n)"

text \<open>
  What the outside sees of a session: the frames of the send queue and the operations on socket
  and server.
\<close>

definition is_cout :: "io \<Rightarrow> bool" where
  "is_cout e = (case e of Cout t \<Rightarrow> True | _ \<Rightarrow> False)"

definition view :: "session \<Rightarrow> byte list list \<times> io list" where
  "view s = (map node_frame (se_send_que s), filter (\<lambda>e. \<not> is_cout e) (se_io s))"

definition echo :: "(16 word \<Rightarrow> 16 word) \<Rightarrow> byte list list \<times> io list \<Rightarrow> byte list \<Rightarrow> byte list list \<times> io list" where
  "echo hton v m =
     (if length (fst v) > 1000 then v
      else if fst v = [] then ([frame hton m], snd v @ [Async_write (frame hton m)])
      else (fst v @ [frame hton m], snd v))"

named_theorems session_simps

lemma is_cout_simps [simp]:
  "is_cout (Cout t)" "\<not> is_cout Async_read_some" "\<not> is_cout (Async_write bs)"
  "\<not> is_cout Socket_close" "\<not> is_cout (Clear_session u)"
  by (simp_all add: is_cout_def)

lemmas [session_simps] = emit_def Start_def Close_def Let_def

lemma view_Start: "view (Start s) = (fst (view s), snd (view s) @ [Async_read_some])"
  by (simp add: view_def session_simps)

lemma sess_inv_Start: "sess_inv ntoh s \<Longrightarrow> sess_inv ntoh (Start s)"
  by (simp add: sess_inv_def session_simps const_defs)

lemma pending_Start: "pending (Start s) = pending s"
  by (simp add: pending_def session_simps)

subsection \<open>Sending\<close>

lemma node_bytes_ok: "send_ok n \<Longrightarrow> node_bytes n = Inr (node_frame n)"
  by (auto simp: send_ok_def node_bytes_def node_frame_def to_size_nonneg)

lemma Send_spec:
  assumes "length m \<le> 2048" "take (length m) d = m"
    and "list_all send_ok (se_send_que s)" "length (se_send_que s) \<le> 1001"
  obtains q io where "Send hton d (int (length m)) s = Inr (s\<lparr>se_send_que := q, se_io := io\<rparr>)"
    and "list_all send_ok q" "length q \<le> 1001"
    and "view (s\<lparr>se_send_que := q, se_io := io\<rparr>) = echo hton (view s) m"
proof -
  have len: "length m \<le> length d"
    using assms(2) by (metis length_take min.cobounded1)
  let ?n = "\<lparr>mn_cur_len = 0, mn_total_len = int (length m) + 2, mn_data = frame hton m @ [0]\<rparr>"
  have node: "MsgNode_send hton d (to_short (int (length m))) = Inr ?n"
    using MsgNode_send_frame [OF len assms(1)] assms(1,2) by (simp add: to_short_id)
  have ok: "send_ok ?n"
    using assms(1) by (simp add: send_ok_def nat_add_distrib nth_append)
  have fr: "node_frame ?n = frame hton m"
    by (simp add: node_frame_def nat_add_distrib)
  show thesis
  proof (cases "length (se_send_que s) > 1000")
    case True
    show ?thesis
      by (rule that [where q = "se_send_que s" and io =
            "se_io s @ [Cout (''session: '' @ se_uuid s @ '' send que fulled, size is '' @ print_short MAX_SENDQUE)]"])
        (use True assms in \<open>simp_all add: Send_def const_defs session_simps view_def echo_def\<close>)
  next
    case False
    show ?thesis
    proof (cases "se_send_que s = []")
      case True
      show ?thesis
        by (rule that [where q = "[?n]" and io = "se_io s @ [Async_write (frame hton m)]"])
          (use True ok fr node_bytes_ok [OF ok] in
            \<open>simp_all add: Send_def const_defs session_simps view_def echo_def node write_front_def\<close>)
    next
      case ne: False
      show ?thesis
        by (rule that [where q = "se_send_que s @ [?n]" and io = "se_io s"])
          (use ne False ok fr assms in
            \<open>simp_all add: Send_def const_defs session_simps view_def echo_def node\<close>)
    qed
  qed
qed

subsection \<open>Receiving\<close>

lemma memcpy_ok:
  assumes "i + n \<le> length dst" "j + n \<le> length src"
  shows "memcpy dst (int i) src (int j) n = Inr (take i dst @ take n (drop j src) @ drop (i + n) dst)"
  using assms by (simp add: memcpy_def)

lemma MsgNode_Clear_head:
  assumes "head_ok h"
  shows "MsgNode_Clear h = Inr (h\<lparr>mn_data := [0, 0] @ drop 2 (mn_data h), mn_cur_len := 0\<rparr>)"
  using assms by (simp add: MsgNode_Clear_def head_ok_def to_size_nonneg numeral_2_eq_2)

lemma finish_message_spec:
  assumes "sess_inv ntoh s" "mn_total_len n = int (length m)" "length m \<le> 2048"
    and "length (mn_data n) = length m + 1" "take (length m) (mn_data n) = m"
  obtains s' where "finish_message hton n c b s = Inr (if b = 0 then Return (Start s') else Continue c b s')"
    and "sess_inv ntoh s'" "pending s' = []" "view s' = echo hton (view s) m"
    and "se_data s' = se_data s" "se_uuid s' = se_uuid s"
proof -
  let ?d = "(mn_data n)[length m := 0]"
  let ?txt = "map (\<lambda>b. char_of (unat b)) (takeWhile (\<lambda>b. b \<noteq> 0) ?d)"
  let ?s1 = "emit (Cout (''receive data is '' @ ?txt)) (s\<lparr>se_recv_msg_node := Some (n\<lparr>mn_data := ?d\<rparr>)\<rparr>)"
  let ?h = "se_recv_head_node s"
  have st: "store (mn_data n) (int (length m)) 0 = Inr ?d"
    using assms(4) by (simp add: store_def)
  have str: "c_str ?d = Inr ?txt"
    using assms(4) by (auto simp: c_str_def set_update_memI)
  obtain q io where snd: "Send hton ?d (int (length m)) ?s1 = Inr (?s1\<lparr>se_send_que := q, se_io := io\<rparr>)"
    and q: "list_all send_ok q" "length q \<le> 1001"
    and v: "view (?s1\<lparr>se_send_que := q, se_io := io\<rparr>) = echo hton (view ?s1) m"
  proof (rule Send_spec [of m ?d ?s1 hton])
    show "length m \<le> 2048" by fact
    show "take (length m) ?d = m" using assms(5) by simp
  qed (use assms(1) in \<open>auto simp: sess_inv_def session_simps\<close>)
  let ?s2 = "?s1\<lparr>se_send_que := q, se_io := io\<rparr>"
  let ?s3 = "?s2\<lparr>se_b_head_parse := False,
               se_recv_head_node := ?h\<lparr>mn_data := [0, 0] @ drop 2 (mn_data ?h), mn_cur_len := 0\<rparr>\<rparr>"
  have clr: "MsgNode_Clear (se_recv_head_node ?s2) =
      Inr (?h\<lparr>mn_data := [0, 0] @ drop 2 (mn_data ?h), mn_cur_len := 0\<rparr>)"
    using MsgNode_Clear_head assms(1) by (simp add: sess_inv_def session_simps)
  show thesis
  proof (rule that)
    show "finish_message hton n c b s = Inr (if b = 0 then Return (Start ?s3) else Continue c b ?s3)"
      using st str snd clr assms(2) by (simp add: finish_message_def Let_def)
    show "view ?s3 = echo hton (view s) m"
      using v by (simp add: view_def session_simps)
    show "sess_inv ntoh ?s3"
      using assms(1) q by (simp add: sess_inv_def session_simps head_ok_def)
  qed (simp_all add: pending_def session_simps)
qed

text \<open>
  Both branches of the handler fill the message node the same way: from offset \<open>c\<close> of \<open>_data\<close> the
  node gets what it lacks, or all there is.
\<close>

definition take_body :: "(16 word \<Rightarrow> 16 word) \<Rightarrow> msg_node \<Rightarrow> int \<Rightarrow> nat \<Rightarrow> session \<Rightarrow> round result" where
  "take_body hton n c b s =
     (let remain_msg = mn_total_len n - mn_cur_len n in
      if b < to_size remain_msg
      then and_then (copy_into n s c b) (\<lambda>n'.
           Inr (Return (Start (s\<lparr>se_recv_msg_node := Some (add_len (int b) n'), se_b_head_parse := True\<rparr>))))
      else and_then (copy_into n s c (to_size remain_msg)) (\<lambda>n'.
           finish_message hton (add_len remain_msg n') (c + remain_msg)
             (to_size (int b - remain_msg)) s))"

lemma Start_head_parse: "(Start s)\<lparr>se_b_head_parse := p\<rparr> = Start (s\<lparr>se_b_head_parse := p\<rparr>)"
  by (simp add: session_simps)

lemma read_body_take_body:
  assumes "se_recv_msg_node s = Some n" "se_b_head_parse s"
  shows "read_body hton c b s = take_body hton n c b s"
  using assms by (cases s) (simp add: read_body_def take_body_def Let_def)

lemma read_first_body_take_body:
  assumes "0 \<le> t" "t \<le> MAX_LENGTH"
  shows "read_first_body hton t c b s =
    take_body hton \<lparr>mn_cur_len = 0, mn_total_len = t, mn_data = replicate (nat t + 1) 0\<rparr> c b s"
  using assms
  by (simp add: read_first_body_def MsgNode_recv_nonneg take_body_def Start_head_parse not_less)

lemma copy_into_ok:
  assumes "mn_cur_len n = int j" "j + k \<le> length (mn_data n)" "c + k \<le> length (se_data s)"
  shows "copy_into n s (int c) k =
    Inr (n\<lparr>mn_data := take j (mn_data n) @ take k (drop c (se_data s)) @ drop (j + k) (mn_data n)\<rparr>)"
  using memcpy_ok [OF assms(2,3)] assms(1) by (simp add: copy_into_def)

lemma take_body_part:
  assumes "sess_inv ntoh s" "c + b \<le> 2048"
    and "header ntoh (mn_data (se_recv_head_node s) ! 0) (mn_data (se_recv_head_node s) ! 1) = int t"
    and "t \<le> 2048" "mn_total_len n = int t" "mn_cur_len n = int j" "length (mn_data n) = t + 1"
    and "b < t - j"
  shows "\<exists>s'. take_body hton n (int c) b s = Inr (Return (Start s')) \<and> sess_inv ntoh s' \<and>
    pending s' = take 2 (mn_data (se_recv_head_node s)) @ take j (mn_data n) @ take b (drop c (se_data s)) \<and>
    view s' = view s"
proof -
  have data: "length (se_data s) = 2048" using assms(1) by (simp add: sess_inv_def)
  let ?n = "n\<lparr>mn_data := take j (mn_data n) @ take b (drop c (se_data s)) @ drop (j + b) (mn_data n)\<rparr>"
  let ?s = "s\<lparr>se_recv_msg_node := Some (add_len (int b) ?n), se_b_head_parse := True\<rparr>"
  have "copy_into n s (int c) b = Inr ?n"
    using assms data by (intro copy_into_ok) auto
  moreover have "to_size (int t - int j) = t - j"
    using assms(4,8) by (simp add: to_size_nonneg)
  ultimately have "take_body hton n (int c) b s = Inr (Return (Start ?s))"
    using assms by (simp add: take_body_def)
  moreover have "sess_inv ntoh ?s"
    using assms data
    by (auto simp: sess_inv_def body_matches_def body_ok_def add_len_def to_short_id)
  moreover have "nat (to_short (int j + int b)) = j + b"
    using assms by (simp add: to_short_id nat_add_distrib)
  then have "pending ?s =
      take 2 (mn_data (se_recv_head_node s)) @ take j (mn_data n) @ take b (drop c (se_data s))"
    using assms data by (simp add: pending_def add_len_def)
  ultimately show ?thesis by (auto simp: view_def)
qed

lemma take_body_whole:
  assumes "sess_inv ntoh s" "c + b \<le> 2048"
    and "t \<le> 2048" "mn_total_len n = int t" "mn_cur_len n = int j" "length (mn_data n) = t + 1" "j \<le> t"
    and "t - j \<le> b"
  shows "\<exists>s'. take_body hton n (int c) b s =
      Inr (if b - (t - j) = 0 then Return (Start s')
           else Continue (int (c + (t - j))) (b - (t - j)) s') \<and>
    sess_inv ntoh s' \<and> pending s' = [] \<and>
    view s' = echo hton (view s) (take j (mn_data n) @ take (t - j) (drop c (se_data s))) \<and>
    se_data s' = se_data s \<and> se_uuid s' = se_uuid s"
proof -
  have data: "length (se_data s) = 2048" using assms(1) by (simp add: sess_inv_def)
  define m where "m = take j (mn_data n) @ take (t - j) (drop c (se_data s))"
  have m: "length m = t" using assms data by (simp add: m_def)
  let ?n = "n\<lparr>mn_data := take j (mn_data n) @ take (t - j) (drop c (se_data s)) @ drop (j + (t - j)) (mn_data n)\<rparr>"
  have "copy_into n s (int c) (t - j) = Inr ?n"
    using assms data by (intro copy_into_ok) auto
  moreover have "to_size (int t - int j) = t - j"
    using assms(3,7) by (simp add: to_size_nonneg)
  moreover have "to_size (int b - (int t - int j)) = b - (t - j)"
    using assms by (simp add: to_size_nonneg)
  ultimately have tb: "take_body hton n (int c) b s =
      finish_message hton (add_len (int t - int j) ?n) (int (c + (t - j))) (b - (t - j)) s"
    using assms by (simp add: take_body_def Let_def add_diff_eq)
  have tk: "take (length m) (mn_data ?n) = m"
  proof -
    have "mn_data ?n = m @ drop (j + (t - j)) (mn_data n)" by (simp add: m_def)
    then show ?thesis by (metis append_eq_conv_conj)
  qed
  have fin: "mn_total_len (add_len (int t - int j) ?n) = int (length m)" "length m \<le> 2048"
    "length (mn_data (add_len (int t - int j) ?n)) = length m + 1"
    "take (length m) (mn_data (add_len (int t - int j) ?n)) = m"
    using m tk assms data by (simp_all add: add_len_def)
  obtain s' where "finish_message hton (add_len (int t - int j) ?n) (int (c + (t - j))) (b - (t - j)) s =
      Inr (if b - (t - j) = 0 then Return (Start s') else Continue (int (c + (t - j))) (b - (t - j)) s')"
    and "sess_inv ntoh s'" "pending s' = []" "view s' = echo hton (view s) m"
    and "se_data s' = se_data s" "se_uuid s' = se_uuid s"
    by (rule finish_message_spec [OF assms(1) fin, of hton])
  then show ?thesis unfolding tb m_def by blast
qed

definition round_correct ::
  "(16 word \<Rightarrow> 16 word) \<Rightarrow> (16 word \<Rightarrow> 16 word) \<Rightarrow> nat \<Rightarrow> nat \<Rightarrow> session \<Rightarrow> round result \<Rightarrow> bool" where
  "round_correct hton ntoh c b s r \<longleftrightarrow>
     (case deframe ntoh (pending s @ take b (drop c (se_data s))) of
        ([], More p) \<Rightarrow> \<exists>s'. r = Inr (Return (Start s')) \<and> sess_inv ntoh s' \<and> pending s' = p \<and> view s' = view s
      | ([], Oversized) \<Rightarrow> \<exists>s'. r = Inr (Return s') \<and> sess_inv ntoh s' \<and>
          view s' = (fst (view s), snd (view s) @ [Clear_session (se_uuid s)])
      | ([], Negative) \<Rightarrow> True
      | (m # ms, e) \<Rightarrow> \<exists>s' c' b'. r = Inr (if b' = 0 then Return (Start s') else Continue (int c') b' s') \<and>
          b' < b \<and> c' + b' = c + b \<and> sess_inv ntoh s' \<and> pending s' = [] \<and> view s' = echo hton (view s) m \<and>
          se_data s' = se_data s \<and> se_uuid s' = se_uuid s \<and>
          deframe ntoh (take b' (drop c' (se_data s))) = (ms, e))"

lemma round_correct_msg:
  assumes "deframe ntoh (pending s @ take b (drop c (se_data s))) = (m # ms, e)"
    and "r = Inr (if b' = 0 then Return (Start s') else Continue (int c') b' s')"
    and "b' < b" "c' + b' = c + b" "sess_inv ntoh s'" "pending s' = []" "view s' = echo hton (view s) m"
    and "se_data s' = se_data s" "se_uuid s' = se_uuid s"
    and "deframe ntoh (take b' (drop c' (se_data s))) = (ms, e)"
  shows "round_correct hton ntoh c b s r"
  unfolding round_correct_def assms(1) prod.case list.case using assms(2-) by blast

text \<open>Filling the message node is a correct round, whatever the node already has.\<close>

lemma take_body_correct:
  assumes "sess_inv ntoh s" "c + b \<le> 2048"
    and "mn_data (se_recv_head_node s) = b0 # b1 # w" "header ntoh b0 b1 = int t"
    and "t \<le> 2048" "mn_total_len n = int t" "mn_cur_len n = int j" "length (mn_data n) = t + 1" "j \<le> t"
    and stream: "pending s0 @ take b0' (drop c0 (se_data s0)) =
      b0 # b1 # take j (mn_data n) @ take b (drop c (se_data s))"
    and s0: "view s = view s0" "se_data s = se_data s0" "se_uuid s = se_uuid s0" "c + b = c0 + b0'"
    and less: "b - (t - j) < b0'"
  shows "round_correct hton ntoh c0 b0' s0 (take_body hton n (int c) b s)"
proof (cases "b < t - j")
  case True
  have data: "length (se_data s) = 2048" using assms(1) by (simp add: sess_inv_def)
  have "deframe ntoh (pending s0 @ take b0' (drop c0 (se_data s0))) =
      ([], More (b0 # b1 # take j (mn_data n) @ take b (drop c (se_data s))))"
    unfolding stream using True assms(2,7,8,9) data by (intro deframe_more [OF assms(4,5)]) auto
  then show ?thesis
    using take_body_part [OF assms(1,2), of t n j hton] True assms(3-9) s0(1)
    by (auto simp: round_correct_def)
next
  case False
  have data: "length (se_data s) = 2048" using assms(1) by (simp add: sess_inv_def)
  let ?bs = "take j (mn_data n) @ take b (drop c (se_data s))"
  let ?m = "take j (mn_data n) @ take (t - j) (drop c (se_data s))"
  have tk: "take t ?bs = ?m"
    using False assms(8,9) by (simp add: min_absorb1)
  have dr: "drop t ?bs = take (b - (t - j)) (drop (c + (t - j)) (se_data s))"
    using False assms(8,9) by (simp add: drop_take add.commute)
  have "deframe ntoh (pending s0 @ take b0' (drop c0 (se_data s0))) =
      (let (ms, e) = deframe ntoh (drop t ?bs) in (take t ?bs # ms, e))"
    unfolding stream using False assms(2,7,8,9) data by (intro deframe_msg [OF assms(4,5)]) auto
  moreover obtain ms e where ms: "deframe ntoh (drop t ?bs) = (ms, e)" by force
  ultimately have d: "deframe ntoh (pending s0 @ take b0' (drop c0 (se_data s0))) = (?m # ms, e)"
    using tk by simp
  have "t - j \<le> b" using False by simp
  from take_body_whole [OF assms(1,2,5,6,7,8,9) this, of hton] obtain s' where
    "take_body hton n (int c) b s =
      Inr (if b - (t - j) = 0 then Return (Start s') else Continue (int (c + (t - j))) (b - (t - j)) s')"
    "sess_inv ntoh s'" "pending s' = []" "view s' = echo hton (view s) ?m"
    "se_data s' = se_data s" "se_uuid s' = se_uuid s" by blast
  note whole = this
  show ?thesis
    by (rule round_correct_msg [OF d whole(1)])
      (use whole ms dr s0 less \<open>t - j \<le> b\<close> in simp_all)
qed

lemma length_two: "length xs = 2 \<Longrightarrow> \<exists>a b. xs = [a, b]"
  by (auto simp: numeral_2_eq_2 length_Suc_conv)

text \<open>The piece ends within the header.\<close>

lemma read_head_short:
  assumes "sess_inv ntoh s" "\<not> se_b_head_parse s" "0 < b" "c + b \<le> 2048"
    and k: "mn_cur_len (se_recv_head_node s) = int k" "k \<le> 1"
    and True: "b + k < 2"
  shows "round_correct hton ntoh c b s (read_head hton ntoh (int c) b s)"
proof -
  let ?h = "se_recv_head_node s"
  have data: "length (se_data s) = 2048" and h: "length (mn_data ?h) = 3" "mn_total_len ?h = 2"
    using assms(1) by (auto simp: sess_inv_def head_ok_def)
  have size: "to_size (int b + int k) = b + k" "to_size HEAD_LENGTH = 2"
    using assms(4) k(2) by (simp_all add: to_size_nonneg const_defs flip: of_nat_add)
  have pend: "pending s = take k (mn_data ?h)"
    using assms(2) k by (simp add: pending_def)
  have bk: "b = 1" "k = 0" using True assms(3) by auto
  let ?d = "take 1 (drop c (se_data s)) @ drop 1 (mn_data ?h)"
  let ?s = "s\<lparr>se_recv_head_node := add_len 1 (?h\<lparr>mn_data := ?d\<rparr>)\<rparr>"
  have x: "take 1 (drop c (se_data s)) = [se_data s ! c]"
    using data assms(4) bk by (simp flip: Cons_nth_drop_Suc)
  have "copy_into ?h s (int c) 1 = Inr (?h\<lparr>mn_data := ?d\<rparr>)"
    using copy_into_ok [OF k(1), of 1 c s] data h assms(4) bk by simp
  then have "read_head hton ntoh (int c) b s = Inr (Return (Start ?s))"
    using True size k bk by (simp add: read_head_def Let_def)
  moreover have "sess_inv ntoh ?s"
    using assms(1,2) h k bk x by (simp add: sess_inv_def head_ok_def add_len_def to_short_id)
  moreover have "pending ?s = [se_data s ! c]"
    using assms(2) k bk x by (simp add: pending_def add_len_def to_short_id)
  moreover have "view ?s = view s" by (simp add: view_def)
  moreover have "deframe ntoh (pending s @ take b (drop c (se_data s))) = ([], More [se_data s ! c])"
    using x bk pend by simp
  ultimately show ?thesis unfolding round_correct_def by auto
qed

text \<open>
  The piece completes the header \<open>b0\<close>, \<open>b1\<close>: the handler goes on with the rest of the piece, in a state that
  differs from the old one in the received header and the printed line only.
\<close>

definition head_read :: "(16 word \<Rightarrow> 16 word) \<Rightarrow> byte \<Rightarrow> byte \<Rightarrow> session \<Rightarrow> session" where
  "head_read ntoh b0 b1 s =
     emit (Cout (''data_len is '' @ print_short (header ntoh b0 b1)))
       (s\<lparr>se_recv_head_node := (se_recv_head_node s)\<lparr>mn_data := b0 # b1 # drop 2 (mn_data (se_recv_head_node s))\<rparr>\<rparr>)"

lemma head_read_simps:
  "view (head_read ntoh b0 b1 s) = view s" "se_data (head_read ntoh b0 b1 s) = se_data s"
  "se_uuid (head_read ntoh b0 b1 s) = se_uuid s"
  "mn_data (se_recv_head_node (head_read ntoh b0 b1 s)) = b0 # b1 # drop 2 (mn_data (se_recv_head_node s))"
  by (simp_all add: head_read_def view_def emit_def)

lemma head_read_inv: "sess_inv ntoh s \<Longrightarrow> \<not> se_b_head_parse s \<Longrightarrow> sess_inv ntoh (head_read ntoh b0 b1 s)"
  by (auto simp: sess_inv_def head_ok_def head_read_def emit_def)

lemma read_head_full:
  assumes "sess_inv ntoh s" "\<not> se_b_head_parse s" "0 < b" "c + b \<le> 2048"
    and k: "mn_cur_len (se_recv_head_node s) = int k" "k \<le> 1"
    and False: "\<not> b + k < 2"
  shows "\<exists>b0 b1. read_head hton ntoh (int c) b s =
             read_first_body hton (header ntoh b0 b1) (int (c + (2 - k))) (b - (2 - k)) (head_read ntoh b0 b1 s) \<and>
           pending s @ take b (drop c (se_data s)) = b0 # b1 # take (b - (2 - k)) (drop (c + (2 - k)) (se_data s))"
proof -
  let ?h = "se_recv_head_node s"
  have data: "length (se_data s) = 2048" and h: "length (mn_data ?h) = 3" "mn_total_len ?h = 2"
    using assms(1) by (auto simp: sess_inv_def head_ok_def)
  have size: "to_size (int b + int k) = b + k" "to_size HEAD_LENGTH = 2"
    using assms(4) k(2) by (simp_all add: to_size_nonneg const_defs flip: of_nat_add)
  have pend: "pending s = take k (mn_data ?h)"
    using assms(2) k by (simp add: pending_def)
  let ?r = "2 - k"
  let ?d = "take k (mn_data ?h) @ take ?r (drop c (se_data s)) @ drop 2 (mn_data ?h)"
  have cp: "copy_into ?h s (int c) ?r = Inr (?h\<lparr>mn_data := ?d\<rparr>)"
    using copy_into_ok [OF k(1), of ?r c s] data h assms(4) False k(2) by simp
  have "length (take k (mn_data ?h) @ take ?r (drop c (se_data s))) = 2"
    using data h False assms(4) k(2) by simp
  then obtain b0 b1 where bb: "take k (mn_data ?h) @ take ?r (drop c (se_data s)) = [b0, b1]"
    using length_two by blast
  then have d: "?d = b0 # b1 # drop 2 (mn_data ?h)" by simp
  have rest: "to_size (int b - (2 - int k)) = b - ?r" "to_size (2 - int k) = ?r"
    using False assms(4) k(2) by (simp_all add: to_size_nonneg)
  let ?t = "header ntoh b0 b1"
  let ?s = "head_read ntoh b0 b1 s"
  have rd: "read_head hton ntoh (int c) b s = read_first_body hton ?t (int (c + ?r)) (b - ?r) ?s"
  proof -
    have "copy_into ?h s (int c) ?r = Inr (?h\<lparr>mn_data := b0 # b1 # drop 2 (mn_data ?h)\<rparr>)"
      using cp unfolding d .
    moreover have "memcpy [0, 0] 0 (b0 # b1 # w) 0 2 = Inr [b0, b1]" for w
      by (simp add: memcpy_def)
    moreover have "HEAD_LENGTH = 2" "to_size 2 = 2" by (simp_all add: const_defs to_size_def)
    moreover have "int c + (2 - int k) = int (c + ?r)" using k(2) by simp
    ultimately show ?thesis
      using False rest k(1) size(1) by (simp add: read_head_def header_def head_read_def Let_def del: of_nat_add)
  qed
  have "take b (drop c (se_data s)) = take ?r (drop c (se_data s)) @ take (b - ?r) (drop (c + ?r) (se_data s))"
    using False by (metis add.commute drop_drop le_add_diff_inverse not_less take_add add_le_imp_le_diff le_diff_conv)
  then have stream: "pending s @ take b (drop c (se_data s)) = b0 # b1 # take (b - ?r) (drop (c + ?r) (se_data s))"
    using bb by (simp add: pend)
  show ?thesis using rd stream by blast
qed

lemma read_head_correct:
  assumes "sess_inv ntoh s" "\<not> se_b_head_parse s" "0 < b" "c + b \<le> 2048"
  shows "round_correct hton ntoh c b s (read_head hton ntoh (int c) b s)"
proof -
  let ?h = "se_recv_head_node s"
  obtain k where k: "mn_cur_len ?h = int k" "k \<le> 1"
    using assms(1) by (force simp: sess_inv_def head_ok_def)
  show ?thesis
  proof (cases "b + k < 2")
    case True
    then show ?thesis by (rule read_head_short [OF assms k])
  next
    case False
    let ?r = "2 - k"
    obtain b0 b1 where rd: "read_head hton ntoh (int c) b s =
          read_first_body hton (header ntoh b0 b1) (int (c + ?r)) (b - ?r) (head_read ntoh b0 b1 s)"
        and stream: "pending s @ take b (drop c (se_data s)) = b0 # b1 # take (b - ?r) (drop (c + ?r) (se_data s))"
      using read_head_full [OF assms k False] by blast
    let ?t = "header ntoh b0 b1" and ?s = "head_read ntoh b0 b1 s"
    note inv = head_read_inv [OF assms(1,2), of b0 b1] and same = head_read_simps [of ntoh b0 b1 s]
    consider "?t > MAX_LENGTH" | "?t < 0" | "0 \<le> ?t" "?t \<le> MAX_LENGTH" by linarith
    then show ?thesis
    proof cases
      case 1
      let ?s' = "emit (Clear_session (se_uuid ?s)) (emit (Cout (''invalid data length is '' @ print_short ?t)) ?s)"
      have "read_head hton ntoh (int c) b s = Inr (Return ?s')"
        using rd 1 by (simp add: read_first_body_def)
      moreover have "sess_inv ntoh ?s'" using inv by (simp add: sess_inv_def emit_def)
      moreover have "view ?s' = (fst (view s), snd (view s) @ [Clear_session (se_uuid s)])"
        by (simp add: view_def emit_def head_read_def)
      ultimately show ?thesis
        using 1 unfolding round_correct_def stream by (simp add: deframe.simps(3))
    next
      case 2
      then show ?thesis
        unfolding round_correct_def stream by (simp add: deframe.simps(3) const_defs)
    next
      case 3
      let ?n = "\<lparr>mn_cur_len = 0, mn_total_len = ?t, mn_data = replicate (nat ?t + 1) 0\<rparr>"
      have "round_correct hton ntoh c b s (take_body hton ?n (int (c + ?r)) (b - ?r) ?s)"
      proof (rule take_body_correct [OF inv, where j = 0 and t = "nat ?t"])
        show "mn_data (se_recv_head_node ?s) = b0 # b1 # drop 2 (mn_data ?h)" by (rule same)
        show "pending s @ take b (drop c (se_data s)) =
            b0 # b1 # take 0 (mn_data ?n) @ take (b - ?r) (drop (c + ?r) (se_data ?s))"
          using stream same by simp
      qed (use 3 assms(3,4) False k(2) same in \<open>simp_all add: const_defs\<close>)
      then show ?thesis using rd 3 by (simp add: read_first_body_take_body)
    qed
  qed
qed

lemma read_body_correct:
  assumes "sess_inv ntoh s" "se_b_head_parse s" "0 < b" "c + b \<le> 2048"
  shows "round_correct hton ntoh c b s (read_body hton (int c) b s)"
proof -
  let ?h = "se_recv_head_node s"
  obtain n where n: "se_recv_msg_node s = Some n" "body_ok (header ntoh (mn_data ?h ! 0) (mn_data ?h ! 1)) n"
    using assms(1,2) by (auto simp: sess_inv_def body_matches_def split: option.splits)
  obtain b0 b1 b2 where h: "mn_data ?h = [b0, b1, b2]"
    using assms(1) by (auto simp: sess_inv_def head_ok_def length_Suc_conv numeral_3_eq_3)
  obtain t j where tj: "header ntoh b0 b1 = int t" "mn_total_len n = int t" "mn_cur_len n = int j"
      "j < t" "t \<le> 2048" "length (mn_data n) = t + 1"
    by (rule that [of "nat (mn_total_len n)" "nat (mn_cur_len n)"])
      (use n(2) h in \<open>simp_all add: body_ok_def nat_le_iff\<close>)
  have "round_correct hton ntoh c b s (take_body hton n (int c) b s)"
    by (rule take_body_correct [OF assms(1,4) h tj(1,5,2,3,6)])
      (use tj n assms h in \<open>simp_all add: pending_def\<close>)
  then show ?thesis using n(1) assms(2) by (simp add: read_body_take_body)
qed

lemma read_round_correct:
  assumes "sess_inv ntoh s" "0 < b" "c + b \<le> 2048"
  shows "round_correct hton ntoh c b s (read_round hton ntoh (int c) b s)"
  using assms read_head_correct read_body_correct by (simp add: read_round_def)

subsection \<open>The read handler\<close>

definition after_read :: "stream_end \<Rightarrow> string \<Rightarrow> byte list list \<times> io list \<Rightarrow> byte list list \<times> io list" where
  "after_read e uuid v =
     (case e of More p \<Rightarrow> (fst v, snd v @ [Async_read_some])
      | _ \<Rightarrow> (fst v, snd v @ [Clear_session uuid]))"

lemma read_loop_correct:
  assumes "sess_inv ntoh s" "0 < b" "c + b \<le> 2048"
    and "deframe ntoh (pending s @ take b (drop c (se_data s))) = (ms, e)" "e \<noteq> Negative"
  shows "\<exists>s'. read_loop hton ntoh (int c) b s = Some (Inr s') \<and> sess_inv ntoh s' \<and>
    (\<forall>p. e = More p \<longrightarrow> pending s' = p) \<and>
    view s' = after_read e (se_uuid s) (foldl (echo hton) (view s) ms)"
  using assms
proof (induction b arbitrary: c s ms rule: less_induct)
  case (less b)
  note rc = read_round_correct [OF less.prems(1-3), of hton, unfolded round_correct_def less.prems(4)]
  note loop = read_loop.simps [of hton ntoh "int c" b s]
  show ?case
  proof (cases ms)
    case Nil
    then show ?thesis
      using rc less.prems(2,5) loop
      by (cases e) (auto simp: after_read_def view_Start pending_Start intro: sess_inv_Start)
  next
    case (Cons m ms')
    then obtain s' c' b' where r: "read_round hton ntoh (int c) b s =
        Inr (if b' = 0 then Return (Start s') else Continue (int c') b' s')"
      and s': "b' < b" "c' + b' = c + b" "sess_inv ntoh s'" "pending s' = []"
        "view s' = echo hton (view s) m" "se_data s' = se_data s" "se_uuid s' = se_uuid s"
      and d: "deframe ntoh (take b' (drop c' (se_data s))) = (ms', e)"
      using rc by auto
    show ?thesis
    proof (cases "b' = 0")
      case True
      then have "ms' = []" "e = More []" using d by auto
      then show ?thesis
        using True loop less.prems(2) r s' Cons
        by (auto simp: after_read_def view_Start pending_Start intro: sess_inv_Start)
    next
      case False
      then show ?thesis
        using less.IH [of b' s' c' ms'] less.prems s' d loop r Cons by simp
    qed
  qed
qed

lemma HandleRead_ok:
  assumes "sess_inv ntoh s" "bs \<noteq> []" "length bs \<le> 2048"
    and "deframe ntoh (pending s @ bs) = (ms, e)" "e \<noteq> Negative"
  shows "\<exists>s'. HandleRead hton ntoh None (length bs) (received bs s) = Some (Inr s') \<and> sess_inv ntoh s' \<and>
    (\<forall>p. e = More p \<longrightarrow> pending s' = p) \<and>
    view s' = after_read e (se_uuid s) (foldl (echo hton) (view s) ms)"
proof -
  have "sess_inv ntoh (received bs s)" "pending (received bs s) = pending s"
    "view (received bs s) = view s" "se_uuid (received bs s) = se_uuid s"
    using assms(1,3) by (simp_all add: received_def sess_inv_def pending_def view_def)
  moreover have "take (length bs) (drop 0 (se_data (received bs s))) = bs"
    by (simp add: received_def)
  ultimately show ?thesis
    using read_loop_correct [of ntoh "received bs s" "length bs" 0 ms e hton] assms
    by (simp add: HandleRead_def)
qed

subsection \<open>Properties\<close>

text \<open>The byte order functions of a host that stores the low byte first, used by the examples.\<close>

definition byte_swap :: "16 word \<Rightarrow> 16 word" where
  "byte_swap w = u16_of_bytes (bytes_of_u16 w ! 1) (bytes_of_u16 w ! 0)"

definition example_session :: session where
  "example_session =
     \<lparr>se_uuid = ''u'', se_data = replicate 2048 0, se_b_close = False, se_send_que = [],
      se_recv_msg_node = None, se_b_head_parse = False,
      se_recv_head_node = \<lparr>mn_cur_len = 0, mn_total_len = 2, mn_data = [0, 0, 0]\<rparr>, se_io = [Async_read_some]\<rparr>"

lemma byte_swap_byte_swap: "byte_swap (byte_swap w) = w"
  by (simp only: byte_swap_def bytes_of_u16_of_bytes u16_of_bytes_of_u16)

lemma example_session_inv: "sess_inv ntoh example_session" "pending example_session = []"
  "view example_session = ([], [Async_read_some])"
  by (simp_all add: sess_inv_def head_ok_def pending_def view_def example_session_def)

lemma example_header: "header byte_swap 0 2 = 2" "header byte_swap 255 255 = - 1" "header byte_swap 128 0 = - 32768"
  by (simp_all add: header_def byte_swap_def bytes_of_u16_def u16_of_bytes_def)

text \<open>
  (C4) The read handler implements the framing protocol on streams without a negative length: given the unfinished frame
  it holds and any piece of 1 to 2048 bytes that completes no header with a negative length, it returns without a fault and holds the unfinished frame the
  specification leaves. It has echoed the complete messages in order, leaving out one only when more than 1000 frames were waiting
  to be sent, and has started one new read, or asked the server to drop the session when a length above 2048 came in.
\<close>

theorem HandleRead_refines_deframe:
  assumes "sess_inv ntoh s" "bs \<noteq> []" "length bs \<le> 2048"
    and "deframe ntoh (pending s @ bs) = (ms, e)" "e \<noteq> Negative"
  shows "\<exists>s'. HandleRead hton ntoh None (length bs) (received bs s) = Some (Inr s') \<and> sess_inv ntoh s' \<and>
    (\<forall>p. e = More p \<longrightarrow> pending s' = p) \<and>
    view s' = after_read e (se_uuid s) (foldl (echo hton) (view s) ms)"
  by (rule HandleRead_ok [OF assms])

theorem HandleRead_refines_deframe_witness:
  "\<exists>s'. HandleRead byte_swap byte_swap None 5 (received [0, 2, 65, 66, 0] example_session) = Some (Inr s') \<and>
    sess_inv byte_swap s' \<and> pending s' = [0] \<and>
    view s' = ([frame byte_swap [65, 66]],
               [Async_read_some, Async_write (frame byte_swap [65, 66]), Async_read_some])"
proof -
  have d: "deframe byte_swap (pending example_session @ [0, 2, 65, 66, 0]) = ([[65, 66]], More [0])"
    using example_header by (simp add: example_session_inv deframe.simps(3) const_defs)
  show ?thesis
    using HandleRead_refines_deframe [OF example_session_inv(1) _ _ d, of byte_swap]
    by (simp add: example_session_inv after_read_def echo_def eval_nat_numeral)
qed

text \<open>
  A negative length in the header escapes the check against \<open>MAX_LENGTH\<close>: below minus one the
  allocation of the message buffer throws, and with minus one the next received byte is written
  outside the empty buffer.
\<close>

theorem HandleRead_negative_length:
  assumes "sess_inv ntoh s" "pending s = []" "\<not> se_b_head_parse s" "length bs \<le> 2046"
    and "header ntoh b0 b1 < 0" "header ntoh b0 b1 = - 1 \<longrightarrow> bs \<noteq> []"
  shows "HandleRead hton ntoh None (length bs + 2) (received (b0 # b1 # bs) s) =
    Some (Inl (if header ntoh b0 b1 < - 1 then Bad_Array_Length else Out_Of_Bounds))"
proof -
  let ?s = "received (b0 # b1 # bs) s"
  obtain x y z where h: "mn_data (se_recv_head_node s) = [x, y, z]" "mn_cur_len (se_recv_head_node s) = 0"
    using assms(1-3) by (auto simp: sess_inv_def head_ok_def pending_def length_Suc_conv numeral_3_eq_3)
  have data: "length (se_data ?s) = 2048" using assms(1,4) by (simp add: received_def sess_inv_def)
  let ?h = "(se_recv_head_node s)\<lparr>mn_data := [b0, b1, z]\<rparr>"
  have cp: "copy_into (se_recv_head_node ?s) ?s 0 2 = Inr ?h"
    using h data copy_into_ok [of "se_recv_head_node ?s" 0 2 0 ?s] by (simp add: received_def)
  have size: "to_size 2 = 2" "to_size (2 + int (length bs)) = length bs + 2" "to_size (int (length bs)) = length bs"
    using assms(4) by (simp_all add: to_size_def)
  let ?s1 = "emit (Cout (''data_len is '' @ print_short (header ntoh b0 b1))) (?s\<lparr>se_recv_head_node := ?h\<rparr>)"
  have "read_round hton ntoh 0 (length bs + 2) ?s = read_first_body hton (header ntoh b0 b1) 2 (length bs) ?s1"
  proof -
    have "\<not> se_b_head_parse ?s" "mn_cur_len (se_recv_head_node ?s) = 0"
      using assms(3) h by (simp_all add: received_def)
    moreover have "memcpy [0, 0] 0 [b0, b1, z] 0 2 = Inr [b0, b1]" by (simp add: memcpy_def)
    ultimately show ?thesis
      using cp size by (simp add: read_round_def read_head_def const_defs Let_def header_def)
  qed
  moreover have "read_first_body hton (header ntoh b0 b1) 2 (length bs) ?s1 =
      Inl (if header ntoh b0 b1 < - 1 then Bad_Array_Length else Out_Of_Bounds)"
  proof (cases "header ntoh b0 b1 < - 1")
    case True
    then show ?thesis by (simp add: read_first_body_def const_defs MsgNode_recv_def)
  next
    case False
    then have m1: "header ntoh b0 b1 = - 1" "bs \<noteq> []" using assms(5,6) by auto
    then show ?thesis
      using assms(4)
      by (simp add: read_first_body_def const_defs MsgNode_recv_def copy_into_def memcpy_def to_size_def)
  qed
  ultimately show ?thesis
    by (simp add: HandleRead_def read_loop.simps [of hton ntoh 0])
qed

theorem HandleRead_negative_length_witness:
  "HandleRead byte_swap byte_swap None 3 (received [255, 255, 65] example_session) = Some (Inl Out_Of_Bounds)"
  using HandleRead_negative_length [OF example_session_inv(1,2), of "[65]" byte_swap 255 255 byte_swap]
  by (simp add: example_header eval_nat_numeral) (simp add: example_session_def)

text \<open>
  (C21) Frames round trip: the nodes that \<open>Send\<close> builds for any messages of at most 2048 bytes carry
  a byte stream from which the receiving side reads exactly these messages.
\<close>

theorem frames_round_trip:
  assumes "\<And>w. ntoh (hton w) = w" "\<forall>m\<in>set ms. length m \<le> 2048"
  shows "\<exists>ns. map (\<lambda>m. MsgNode_send hton m (int (length m))) ms = map Inr ns \<and>
    deframe ntoh (concat (map node_frame ns)) = (ms, More [])"
proof -
  let ?n = "\<lambda>m. \<lparr>mn_cur_len = 0, mn_total_len = int (length m) + 2, mn_data = frame hton m @ [0]\<rparr>"
  have "map (\<lambda>m. MsgNode_send hton m (int (length m))) ms = map Inr (map ?n ms)"
    using assms(2) by (simp add: MsgNode_send_frame)
  moreover have "map node_frame (map ?n ms) = map (frame hton) ms"
    by (simp add: node_frame_def nat_add_distrib)
  moreover have "deframe ntoh (concat (map (frame hton) ms)) = (ms, More [])"
    by (rule deframe_frames [where hton = hton, OF assms])
  ultimately show ?thesis by (intro exI [of _ "map ?n ms"] conjI) (simp_all only:)
qed

theorem frames_round_trip_witness:
  "\<exists>ns. map (\<lambda>m. MsgNode_send byte_swap m (int (length m))) [[1, 2], []] = map Inr ns \<and>
    deframe byte_swap (concat (map node_frame ns)) = ([[1, 2], []], More [])"
  by (rule frames_round_trip [where ntoh = byte_swap and hton = byte_swap, OF byte_swap_byte_swap]) simp

end
