(* ===== verification/Echo_Connection.thy ===== *)
theory Echo_Connection
  imports Session_Protocol
begin

text \<open>
  The life of one connection of the echo server: the completions of \<open>async_read_some\<close> and
  \<open>async_write\<close> arrive in any order the event loop may choose, and each runs its handler. A
  completion can only arrive for an operation that was started, so \<open>served\<close> counts the completed
  reads and writes. The theorems relate what goes out on the wire to what came in.
\<close>

definition writes :: "io list \<Rightarrow> byte list list" where
  "writes es = concat (map (\<lambda>e. case e of Async_write bs \<Rightarrow> [bs] | _ \<Rightarrow> []) es)"

definition reads :: "io list \<Rightarrow> nat" where
  "reads es = length (filter (\<lambda>e. e = Async_read_some) es)"

lemma writes_simps [simp]:
  "writes [] = []" "writes (es @ es') = writes es @ writes es'" "writes [Async_write bs] = [bs]"
  "writes [Async_read_some] = []" "writes [Clear_session u] = []" "writes [Cout t] = []" "writes [Socket_close] = []"
  by (simp_all add: writes_def)

lemma reads_simps [simp]:
  "reads [] = 0" "reads (es @ es') = reads es + reads es'" "reads [Async_write bs] = 0"
  "reads [Async_read_some] = 1" "reads [Clear_session u] = 0" "reads [Cout t] = 0" "reads [Socket_close] = 0"
  by (simp_all add: reads_def)

lemma writes_filter: "writes (filter (\<lambda>e. \<not> is_cout e) es) = writes es"
  by (induction es) (auto simp: writes_def is_cout_def split: io.splits)

lemma reads_filter: "reads (filter (\<lambda>e. \<not> is_cout e) es) = reads es"
  by (induction es) (auto simp: reads_def is_cout_def split: io.splits)

text \<open>
  \<open>served hton ntoh data uuid inp j k r\<close>: after \<open>j\<close> completed reads that brought the bytes \<open>inp\<close>
  and \<open>k\<close> completed writes, the session is in state \<open>r\<close> (or has hit a fault).
\<close>

inductive served ::
  "(16 word \<Rightarrow> 16 word) \<Rightarrow> (16 word \<Rightarrow> 16 word) \<Rightarrow> string \<Rightarrow> byte list \<Rightarrow>
   byte list \<Rightarrow> nat \<Rightarrow> nat \<Rightarrow> session result option \<Rightarrow> bool"
  for hton ntoh uuid data where
  served_start:
    "served hton ntoh uuid data [] 0 0 (Some (and_then (CSession_new uuid data) (\<lambda>s. Inr (Start s))))"
| served_read:
    "served hton ntoh uuid data inp j k (Some (Inr s)) \<Longrightarrow> j < reads (se_io s) \<Longrightarrow>
     bs \<noteq> [] \<Longrightarrow> length bs \<le> nat MAX_LENGTH \<Longrightarrow>
     served hton ntoh uuid data (inp @ bs) (Suc j) k
       (HandleRead hton ntoh None (length bs) (received bs s))"
| served_write:
    "served hton ntoh uuid data inp j k (Some (Inr s)) \<Longrightarrow> k < length (writes (se_io s)) \<Longrightarrow>
     served hton ntoh uuid data inp j (Suc k) (Some (HandleWrite None s))"

text \<open>
  What the wire carries: \<open>k\<close> frames are written, the front of the queue is being written, and the
  written frames and the queue together are the frames of the messages \<open>kept\<close>.
\<close>

definition wire_inv ::
  "(16 word \<Rightarrow> 16 word) \<Rightarrow> nat \<Rightarrow> byte list list \<Rightarrow> byte list list \<times> io list \<Rightarrow> bool" where
  "wire_inv hton k kept v \<longleftrightarrow>
     (\<exists>sent. length sent = k \<and> writes (snd v) = sent @ take 1 (fst v) \<and>
             sent @ fst v = map (frame hton) kept \<and> length (fst v) \<le> 1001)"

definition kept_of :: "byte list list \<Rightarrow> byte list list \<Rightarrow> bool" where
  "kept_of kept ms \<longleftrightarrow> subseq kept ms \<and> take 1001 kept = take 1001 ms"

lemma kept_of_length: "kept_of kept ms \<Longrightarrow> length kept \<le> length ms \<and> (length kept < 1001 \<longrightarrow> kept = ms)"
  by (auto simp: kept_of_def dest: list_emb_length)

lemma kept_of_drop: "kept_of kept ms \<Longrightarrow> 1001 \<le> length kept \<Longrightarrow> kept_of kept (ms @ [m])"
  using kept_of_length [of kept ms] by (simp add: kept_of_def subseq_rev_drop_many)

lemma kept_of_add: "kept_of kept ms \<Longrightarrow> kept_of (kept @ [m]) (ms @ [m])"
  using kept_of_length [of kept ms] by (cases "length kept < 1001") (auto simp: kept_of_def)

lemma wire_inv_echo:
  assumes "wire_inv hton k kept v" "kept_of kept ms"
  shows "\<exists>kept'. wire_inv hton k kept' (echo hton v m) \<and> kept_of kept' (ms @ [m])"
proof (cases "length (fst v) > 1000")
  case True
  obtain sent where "sent @ fst v = map (frame hton) kept"
    using assms(1) by (auto simp: wire_inv_def)
  then have "length sent + length (fst v) = length kept"
    by (metis length_append length_map)
  then have "kept_of kept (ms @ [m])"
    using True kept_of_drop [OF assms(2)] by simp
  then show ?thesis
    using True assms(1) by (auto simp: echo_def)
next
  case False
  have "wire_inv hton k (kept @ [m]) (echo hton v m)"
    using assms(1) False by (cases "fst v") (auto simp: wire_inv_def echo_def)
  with kept_of_add [OF assms(2), of m] show ?thesis by blast
qed

lemma wire_inv_echoes:
  assumes "wire_inv hton k kept v" "kept_of kept ms"
  shows "\<exists>kept'. wire_inv hton k kept' (foldl (echo hton) v ms') \<and> kept_of kept' (ms @ ms')"
  using assms
proof (induction ms' arbitrary: v kept ms)
  case (Cons m ms')
  from wire_inv_echo [OF Cons.prems] obtain kept' where
    "wire_inv hton k kept' (echo hton v m)" "kept_of kept' (ms @ [m])" by blast
  from Cons.IH [OF this] show ?case by simp
qed auto

lemma echoes_reads: "reads (snd (foldl (echo hton) v ms)) = reads (snd v)"
  by (induction ms arbitrary: v) (auto simp: echo_def)

text \<open>A completed write takes the front of the queue off and starts the next one.\<close>

lemma HandleWrite_next:
  assumes "sess_inv ntoh s" "se_send_que s = n # q"
  obtains s' where "HandleWrite None s = Inr s'" "sess_inv ntoh s'" "pending s' = pending s" "se_send_que s' = q"
    "writes (se_io s') = writes (se_io s) @ take 1 (map node_frame q)" "reads (se_io s') = reads (se_io s)"
    "se_b_close s' = se_b_close s" "se_uuid s' = se_uuid s"
proof -
  have ok: "send_ok n" "list_all send_ok q"
    using assms by (simp_all add: sess_inv_def)
  let ?L = "nat (mn_total_len n)"
  have "Suc (Suc (?L - 2)) = ?L" using ok(1) by (auto simp: send_ok_def)
  then have "drop 2 (mn_data n) ! (?L - 2) = 0" "?L - 2 < length (drop 2 (mn_data n))"
    using ok(1) by (auto simp: send_ok_def)
  then have "0 \<in> set (drop 2 (mn_data n))" by (metis nth_mem)
  then have str: "c_str (drop (to_size HEAD_LENGTH) (mn_data n)) =
      Inr (map (\<lambda>b. char_of (unat b)) (takeWhile (\<lambda>b. b \<noteq> 0) (drop 2 (mn_data n))))" (is "_ = Inr ?t")
    by (simp add: c_str_def const_defs to_size_def)
  let ?s = "(emit (Cout (''send data '' @ ?t)) s)\<lparr>se_send_que := q\<rparr>"
  have inv: "sess_inv ntoh ?s" "pending ?s = pending s"
    using assms by (simp_all add: sess_inv_def emit_def pending_def)
  show thesis
  proof (cases q)
    case Nil
    then show ?thesis
      using that [of ?s] inv assms(2) str by (simp add: HandleWrite_def Let_def emit_def)
  next
    case (Cons n' q')
    let ?s' = "emit (Async_write (node_frame n')) ?s"
    have "HandleWrite None s = Inr ?s'"
      using assms(2) str Cons node_bytes_ok [of n'] ok(2)
      by (simp add: HandleWrite_def Let_def write_front_def emit_def)
    moreover have "sess_inv ntoh ?s'" "pending ?s' = pending s"
      using inv by (simp_all add: sess_inv_def emit_def pending_def)
    ultimately show ?thesis using that [of ?s'] Cons by (simp add: emit_def writes_def reads_def)
  qed
qed

lemma HandleWrite_ok:
  assumes "sess_inv ntoh s" "wire_inv hton k kept (view s)" "k < length (writes (se_io s))"
  shows "\<exists>s'. HandleWrite None s = Inr s' \<and> sess_inv ntoh s' \<and> pending s' = pending s \<and>
    wire_inv hton (Suc k) kept (view s') \<and> reads (se_io s') = reads (se_io s)"
proof -
  obtain sent where sent: "length sent = k" "writes (se_io s) = sent @ take 1 (map node_frame (se_send_que s))"
      "sent @ map node_frame (se_send_que s) = map (frame hton) kept" "length (se_send_que s) \<le> 1001"
    using assms(2) by (auto simp: wire_inv_def view_def writes_filter)
  then obtain n q where q: "se_send_que s = n # q"
    using assms(3) by (cases "se_send_que s") auto
  obtain s' where s': "HandleWrite None s = Inr s'" "sess_inv ntoh s'" "pending s' = pending s" "se_send_que s' = q"
    "writes (se_io s') = writes (se_io s) @ take 1 (map node_frame q)" "reads (se_io s') = reads (se_io s)"
    by (rule HandleWrite_next [OF assms(1) q])
  have "wire_inv hton (Suc k) kept (view s')"
    using sent q s'(4,5) unfolding wire_inv_def view_def
    by (intro exI [of _ "sent @ [node_frame n]"]) (simp add: writes_filter)
  with s' show ?thesis by blast
qed

lemma session_start:
  assumes "length data = 2048"
  shows "\<exists>s. CSession_new uuid data = Inr s \<and> sess_inv ntoh (Start s) \<and> pending (Start s) = [] \<and>
    view (Start s) = ([], [Async_read_some]) \<and> se_io (Start s) = [Async_read_some] \<and> se_uuid (Start s) = uuid"
  by (simp add: CSession_new_def MsgNode_recv_nonneg const_defs sess_inv_def head_ok_def pending_def
      view_def session_simps)

text \<open>The invariant of a connection whose input so far is well formed.\<close>

definition conn_inv ::
  "(16 word \<Rightarrow> 16 word) \<Rightarrow> (16 word \<Rightarrow> 16 word) \<Rightarrow> byte list \<Rightarrow> nat \<Rightarrow> nat \<Rightarrow> session \<Rightarrow> bool" where
  "conn_inv hton ntoh inp j k s \<longleftrightarrow> sess_inv ntoh s \<and>
     (\<forall>p. snd (deframe ntoh inp) = More p \<longrightarrow> pending s = p) \<and>
     reads (se_io s) = (if snd (deframe ntoh inp) = Oversized then j else Suc j) \<and>
     (\<exists>kept. wire_inv hton k kept (view s) \<and> kept_of kept (fst (deframe ntoh inp)))"

lemma served_no_negative:
  assumes "snd (deframe ntoh (xs @ ys)) \<noteq> Negative"
  shows "snd (deframe ntoh xs) \<noteq> Negative"
  using assms by (auto simp: deframe_append split: prod.splits stream_end.splits)

lemma conn_inv_read:
  assumes "conn_inv hton ntoh inp j k s" "j < reads (se_io s)" "bs \<noteq> []" "length bs \<le> 2048"
    and "snd (deframe ntoh (inp @ bs)) \<noteq> Negative" "snd (deframe ntoh inp) \<noteq> Negative"
  shows "\<exists>s'. HandleRead hton ntoh None (length bs) (received bs s) = Some (Inr s') \<and>
    conn_inv hton ntoh (inp @ bs) (Suc j) k s'"
proof -
  obtain ms p where d: "deframe ntoh inp = (ms, More p)"
    using assms(1,2,6) by (cases "deframe ntoh inp"; cases "snd (deframe ntoh inp)") (auto simp: conn_inv_def)
  obtain ms' e where d': "deframe ntoh (p @ bs) = (ms', e)" by force
  have all: "deframe ntoh (inp @ bs) = (ms @ ms', e)"
    using d d' deframe_append [of ntoh inp bs] by simp
  have s: "sess_inv ntoh s" "pending s = p" "reads (snd (view s)) = Suc j"
    using assms(1) d by (auto simp: conn_inv_def view_def reads_filter)
  obtain kept where kept: "wire_inv hton k kept (view s)" "kept_of kept ms"
    using assms(1) d by (auto simp: conn_inv_def)
  obtain s' where s': "HandleRead hton ntoh None (length bs) (received bs s) = Some (Inr s')"
      "sess_inv ntoh s'" "\<forall>p. e = More p \<longrightarrow> pending s' = p"
      "view s' = after_read e (se_uuid s) (foldl (echo hton) (view s) ms')"
    using HandleRead_ok [OF s(1) assms(3,4), of ms' e hton] s(2) d' all assms(5) by auto
  obtain kept' where "wire_inv hton k kept' (foldl (echo hton) (view s) ms')" "kept_of kept' (ms @ ms')"
    using wire_inv_echoes [OF kept] by blast
  moreover have "wire_inv hton k kept' (view s')" if "wire_inv hton k kept' (foldl (echo hton) (view s) ms')"
    using that s'(4) by (cases e) (auto simp: wire_inv_def after_read_def)
  moreover have "reads (se_io s') = (if e = Oversized then Suc j else Suc (Suc j))"
  proof -
    have "reads (snd (view s')) = (if e = Oversized then Suc j else Suc (Suc j))"
      using s'(4) s(3) all assms(5) by (cases e) (simp_all add: after_read_def echoes_reads)
    then show ?thesis by (simp add: view_def reads_filter)
  qed
  ultimately show ?thesis
    using s' all unfolding conn_inv_def by auto
qed

lemma served_inv:
  assumes "served hton ntoh uuid data inp j k r" "length data = 2048"
    and "snd (deframe ntoh inp) \<noteq> Negative"
  shows "\<exists>s. r = Some (Inr s) \<and> conn_inv hton ntoh inp j k s"
  using assms(1,3)
proof (induction rule: served.induct)
  case served_start
  then show ?case
    using session_start [OF assms(2), of uuid ntoh]
    by (auto simp: conn_inv_def wire_inv_def kept_of_def)
next
  case (served_read inp j k s bs)
  then show ?case
    using conn_inv_read [of hton ntoh inp j k s bs] served_no_negative [of ntoh inp bs]
    by (auto simp: const_defs)
next
  case (served_write inp j k s)
  then have c: "conn_inv hton ntoh inp j k s" by auto
  then obtain kept where "wire_inv hton k kept (view s)" "kept_of kept (fst (deframe ntoh inp))"
    "sess_inv ntoh s" by (auto simp: conn_inv_def)
  with HandleWrite_ok [OF _ _ served_write.hyps(2), of ntoh hton kept] c show ?case
    by (fastforce simp: conn_inv_def)
qed



end
