(* ===== verification/C_Server.thy ===== *)
theory C_Server
  imports Echo_Connection
begin

text \<open>
  Class \<open>CServer\<close> of \<open>include/asio/CServer.h\<close> and \<open>include/asio/CServer.cpp\<close>, and the event loop
  around it. The server keeps the sessions by their uuid; a session object is a number and the
  objects are the map \<open>w_objs\<close>. The operations that were started and have not completed are the list
  \<open>w_pending\<close>: their completion handlers hold a reference to the session. A step is the
  completion of one of them; a handler that faults or does not return leaves \<open>w_crash\<close>.

  The n-th random uuid is the parameter \<open>gen\<close>.
\<close>

datatype op = Op_accept nat | Op_read nat | Op_write nat "byte list"

datatype crash = Fault cxx_fault | Hang

record server =
  sv_port :: int
  sv_sessions :: "string \<rightharpoonup> nat"

record world =
  w_server :: server
  w_objs :: "nat \<rightharpoonup> session"
  w_next :: nat
  w_pending :: "op list"
  w_out :: "string list"
  w_crash :: "crash option"

definition ClearSession :: "string \<Rightarrow> server \<Rightarrow> server" where
  "ClearSession uuid sv = sv\<lparr>sv_sessions := (sv_sessions sv)(uuid := None)\<rparr>"

definition StartAccept :: "(nat \<Rightarrow> string) \<Rightarrow> byte list \<Rightarrow> world \<Rightarrow> world" where
  "StartAccept gen data w =
     (case CSession_new (gen (w_next w)) data of
        Inl e \<Rightarrow> w\<lparr>w_crash := Some (Fault e)\<rparr>
      | Inr new_session \<Rightarrow>
          w\<lparr>w_objs := (w_objs w)(w_next w \<mapsto> new_session), w_next := Suc (w_next w),
            w_pending := w_pending w @ [Op_accept (w_next w)]\<rparr>)"

definition CServer_new :: "(nat \<Rightarrow> string) \<Rightarrow> byte list \<Rightarrow> int \<Rightarrow> world" where
  "CServer_new gen data port =
     StartAccept gen data
       \<lparr>w_server = \<lparr>sv_port = port, sv_sessions = Map.empty\<rparr>, w_objs = Map.empty, w_next = 0,
        w_pending = [], w_out = [''Server start success, listen on port : '' @ print_short port],
        w_crash = None\<rparr>"

text \<open>What a handler asked for: new operations, the erased sessions and the printed lines.\<close>

definition perform :: "nat \<Rightarrow> io \<Rightarrow> world \<Rightarrow> world" where
  "perform r e w =
     (case e of
        Async_read_some \<Rightarrow> w\<lparr>w_pending := w_pending w @ [Op_read r]\<rparr>
      | Async_write bs \<Rightarrow> w\<lparr>w_pending := w_pending w @ [Op_write r bs]\<rparr>
      | Socket_close \<Rightarrow> w
      | Clear_session uuid \<Rightarrow> w\<lparr>w_server := ClearSession uuid (w_server w)\<rparr>
      | Cout t \<Rightarrow> w\<lparr>w_out := w_out w @ [t]\<rparr>)"

definition handled :: "nat \<Rightarrow> session result option \<Rightarrow> world \<Rightarrow> world" where
  "handled r res w =
     (case res of
        None \<Rightarrow> w\<lparr>w_crash := Some Hang\<rparr>
      | Some (Inl e) \<Rightarrow> w\<lparr>w_crash := Some (Fault e)\<rparr>
      | Some (Inr s) \<Rightarrow> fold (perform r) (se_io s) (w\<lparr>w_objs := (w_objs w)(r \<mapsto> s\<lparr>se_io := []\<rparr>)\<rparr>))"

definition HandleAccept ::
  "(nat \<Rightarrow> string) \<Rightarrow> byte list \<Rightarrow> nat \<Rightarrow> session \<Rightarrow> string option \<Rightarrow> world \<Rightarrow> world" where
  "HandleAccept gen data r new_session error w =
     StartAccept gen data
       (case error of
          None \<Rightarrow>
            let w1 = handled r (Some (Inr (Start new_session))) w; uuid = GetUuid new_session in
            (if sv_sessions (w_server w1) uuid = None
             then w1\<lparr>w_server := (w_server w1)\<lparr>sv_sessions := (sv_sessions (w_server w1))(uuid \<mapsto> r)\<rparr>\<rparr>
             else w1)
        | Some what \<Rightarrow> w\<lparr>w_out := w_out w @ [''session accept failed, error is '' @ what]\<rparr>)"

text \<open>
  The completions. A closed socket completes its operations with an error only. A successful read
  brings at least one byte and at most the size of the buffer.
\<close>

datatype completion =
    Accepted nat "string option" "byte list"
  | Read_done nat "string option" "byte list"
  | Write_done nat "string option"

definition complete ::
  "(16 word \<Rightarrow> 16 word) \<Rightarrow> (16 word \<Rightarrow> 16 word) \<Rightarrow> (nat \<Rightarrow> string) \<Rightarrow> completion \<Rightarrow> world \<Rightarrow> world option" where
  "complete hton ntoh gen c w =
     (if w_crash w \<noteq> None then None
      else case c of
        Accepted r err data \<Rightarrow>
          (case w_objs w r of None \<Rightarrow> None
           | Some s \<Rightarrow>
              if Op_accept r \<in> set (w_pending w)
              then Some (HandleAccept gen data r s err (w\<lparr>w_pending := remove1 (Op_accept r) (w_pending w)\<rparr>))
              else None)
      | Read_done r err bs \<Rightarrow>
          (case w_objs w r of None \<Rightarrow> None
           | Some s \<Rightarrow>
              if Op_read r \<in> set (w_pending w) \<and>
                 (err = None \<longrightarrow> \<not> se_b_close s \<and> bs \<noteq> [] \<and> length bs \<le> nat MAX_LENGTH)
              then Some (handled r
                     (HandleRead hton ntoh err (length bs) (if err = None then received bs s else s))
                     (w\<lparr>w_pending := remove1 (Op_read r) (w_pending w)\<rparr>))
              else None)
      | Write_done r err \<Rightarrow>
          (case w_objs w r of None \<Rightarrow> None
           | Some s \<Rightarrow>
              (case find (\<lambda>p. \<exists>bs. p = Op_write r bs) (w_pending w) of None \<Rightarrow> None
               | Some p \<Rightarrow>
                  if err = None \<longrightarrow> \<not> se_b_close s
                  then Some (handled r (Some (HandleWrite err s)) (w\<lparr>w_pending := remove1 p (w_pending w)\<rparr>))
                  else None)))"

subsection \<open>What the read handler always does\<close>

text \<open>
  Whatever the received bytes, a read handler that returns has either started exactly one new read
  or asked for its own removal.
\<close>

definition is_end :: "io \<Rightarrow> bool" where
  "is_end e = (case e of Async_read_some \<Rightarrow> True | Clear_session u \<Rightarrow> True | _ \<Rightarrow> False)"

definition ends :: "session \<Rightarrow> io list" where
  "ends s = filter is_end (se_io s)"

lemma is_end_simps [simp]:
  "is_end Async_read_some" "is_end (Clear_session u)" "\<not> is_end (Cout t)" "\<not> is_end (Async_write bs)"
  "\<not> is_end Socket_close"
  by (simp_all add: is_end_def)

fun round_ends :: "session \<Rightarrow> round \<Rightarrow> bool" where
  "round_ends s (Return s') \<longleftrightarrow>
     se_uuid s' = se_uuid s \<and> se_b_close s' = se_b_close s \<and>
     (ends s' = ends s @ [Async_read_some] \<or> ends s' = ends s @ [Clear_session (se_uuid s)])"
| "round_ends s (Continue c b s') \<longleftrightarrow>
     se_uuid s' = se_uuid s \<and> se_b_close s' = se_b_close s \<and> ends s' = ends s \<and> b > 0"

lemma write_front_ends:
  "write_front s = Inr s' \<Longrightarrow> ends s' = ends s \<and> se_uuid s' = se_uuid s \<and> se_b_close s' = se_b_close s"
  by (auto simp: write_front_def ends_def emit_def and_then_eq_Inr split: list.splits)

lemma Send_ends:
  "Send hton m l s = Inr s' \<Longrightarrow> ends s' = ends s \<and> se_uuid s' = se_uuid s \<and> se_b_close s' = se_b_close s"
  by (auto simp: Send_def Let_def and_then_eq_Inr ends_def emit_def split: if_splits
      dest!: write_front_ends)

lemma finish_message_ends: "finish_message hton n c b s = Inr r \<Longrightarrow> round_ends s r"
  by (auto simp: finish_message_def Let_def and_then_eq_Inr ends_def emit_def Start_def dest!: Send_ends)

lemma read_body_ends: "read_body hton c b s = Inr r \<Longrightarrow> round_ends s r"
  by (auto simp: read_body_def Let_def and_then_eq_Inr ends_def emit_def Start_def
      split: option.splits if_splits dest!: finish_message_ends)

lemma read_first_body_ends: "read_first_body hton d c b s = Inr r \<Longrightarrow> round_ends s r"
  by (auto simp: read_first_body_def Let_def and_then_eq_Inr ends_def emit_def Start_def
      split: option.splits if_splits dest!: finish_message_ends)

lemma round_ends_cong:
  "ends s1 = ends s \<Longrightarrow> se_uuid s1 = se_uuid s \<Longrightarrow> se_b_close s1 = se_b_close s \<Longrightarrow> round_ends s1 r = round_ends s r"
  by (cases r) auto

lemma read_head_ends: "read_head hton ntoh c b s = Inr r \<Longrightarrow> round_ends s r"
proof -
  have e: "round_ends (emit (Cout t) (s\<lparr>se_recv_head_node := h\<rparr>)) r = round_ends s r" for t h
    by (rule round_ends_cong) (simp_all add: ends_def emit_def)
  assume "read_head hton ntoh c b s = Inr r"
  then show ?thesis
    by (auto simp: read_head_def Let_def and_then_eq_Inr e split: if_splits
        dest!: read_first_body_ends) (simp_all add: ends_def emit_def Start_def)
qed

lemma read_round_ends: "read_round hton ntoh c b s = Inr r \<Longrightarrow> round_ends s r"
  by (auto simp: read_round_def read_head_ends read_body_ends split: if_splits)

lemma read_loop_ends_imp:
  "read_loop hton ntoh c b s = Some res \<Longrightarrow> 0 < b \<longrightarrow> (\<forall>s'. res = Inr s' \<longrightarrow> round_ends s (Return s'))"
proof (rule read_loop.raw_induct [where P = "\<lambda>hton ntoh c b s res.
    0 < b \<longrightarrow> (\<forall>s'. res = Inr s' \<longrightarrow> round_ends s (Return s'))"])
  fix loop hton ntoh c b s res
  assume IH: "\<And>hton ntoh c b s res. loop hton ntoh c b s = Some res \<Longrightarrow>
      0 < b \<longrightarrow> (\<forall>s'. res = Inr s' \<longrightarrow> round_ends s (Return s'))"
    and eq: "(if 0 < b then case read_round hton ntoh c b s of Inl e \<Rightarrow> Some (Inl e)
        | Inr r \<Rightarrow> (case r of Return s' \<Rightarrow> Some (Inr s') | Continue c b s' \<Rightarrow> loop hton ntoh c b s')
      else Some (Inr s)) = Some res"
  show "0 < b \<longrightarrow> (\<forall>s'. res = Inr s' \<longrightarrow> round_ends s (Return s'))"
  proof (cases "read_round hton ntoh c b s")
    case (Inl e)
    then show ?thesis using eq by auto
  next
    case (Inr r)
    note ends = read_round_ends [OF Inr]
    show ?thesis
    proof (cases r)
      case (Return s1)
      then show ?thesis using eq ends Inr by auto
    next
      case (Continue c1 b1 s1)
      have b1: "0 < b1" using ends Continue by simp
      from Continue have "0 < b \<Longrightarrow> loop hton ntoh c1 b1 s1 = Some res" using eq Inr by simp
      then have "0 < b \<Longrightarrow> \<forall>s'. res = Inr s' \<longrightarrow> round_ends s1 (Return s')"
        using IH [of hton ntoh c1 b1 s1 res] b1 by blast
      moreover have "round_ends s1 x = round_ends s x" for x
        using ends Continue by (intro round_ends_cong) simp_all
      ultimately show ?thesis by blast
    qed
  qed
qed

lemma HandleRead_ends:
  assumes "HandleRead hton ntoh None b s = Some (Inr s')" "0 < b"
  shows "round_ends s (Return s')"
  using read_loop_ends_imp [of hton ntoh 0 b s "Inr s'"] assms by (simp add: HandleRead_def)

subsection \<open>The invariant of the server\<close>

definition clears :: "io list \<Rightarrow> string set" where
  "clears es = {u. Clear_session u \<in> set es}"

fun is_accept :: "op \<Rightarrow> bool" where
  "is_accept (Op_accept r) = True"
| "is_accept _ = False"

text \<open>
  One connection is being accepted, and its session is not in use yet; every session has at most
  one read in progress; a registered session is registered under its own uuid and has a read in
  progress.
\<close>

definition accepting :: "world \<Rightarrow> bool" where
  "accepting w \<longleftrightarrow> (\<exists>r. filter is_accept (w_pending w) = [Op_accept r] \<and> r < w_next w \<and>
     Op_read r \<notin> set (w_pending w) \<and> (\<forall>u. sv_sessions (w_server w) u \<noteq> Some r))"

definition one_read :: "world \<Rightarrow> bool" where
  "one_read w \<longleftrightarrow> (\<forall>r. count_list (w_pending w) (Op_read r) \<le> 1)"

definition registered :: "world \<Rightarrow> bool" where
  "registered w \<longleftrightarrow> (\<forall>u r. sv_sessions (w_server w) u = Some r \<longrightarrow>
     Op_read r \<in> set (w_pending w) \<and> (\<exists>s. w_objs w r = Some s \<and> se_uuid s = u))"

definition numbered :: "world \<Rightarrow> bool" where
  "numbered w \<longleftrightarrow> (\<forall>r. Op_read r \<in> set (w_pending w) \<longrightarrow> r < w_next w) \<and>
     (\<forall>r s. w_objs w r = Some s \<longrightarrow> se_io s = [] \<and> r < w_next w)"

definition server_inv :: "world \<Rightarrow> bool" where
  "server_inv w \<longleftrightarrow> w_crash w = None \<longrightarrow> accepting w \<and> one_read w \<and> registered w \<and> numbered w"

lemmas server_inv_defs = accepting_def one_read_def registered_def numbered_def

lemma perform_fields [simp]:
  "w_objs (perform r e w) = w_objs w" "w_next (perform r e w) = w_next w" "w_crash (perform r e w) = w_crash w"
  by (simp_all add: perform_def split: io.splits)

lemma fold_perform_fields [simp]:
  "w_objs (fold (perform r) es w) = w_objs w" "w_next (fold (perform r) es w) = w_next w"
  "w_crash (fold (perform r) es w) = w_crash w"
  by (induction es arbitrary: w) simp_all

lemma fold_perform_sessions:
  "sv_sessions (w_server (fold (perform r) es w)) =
     (\<lambda>u. if u \<in> clears es then None else sv_sessions (w_server w) u)"
  by (induction es arbitrary: w)
    (auto simp: clears_def perform_def ClearSession_def fun_eq_iff split: io.splits)

lemma fold_perform_accept:
  "filter is_accept (w_pending (fold (perform r) es w)) = filter is_accept (w_pending w)"
  by (induction es arbitrary: w) (auto simp: perform_def split: io.splits)

lemma fold_perform_reads:
  "count_list (w_pending (fold (perform r) es w)) (Op_read r') =
     count_list (w_pending w) (Op_read r') + (if r' = r then reads es else 0)"
  by (induction es arbitrary: w) (auto simp: perform_def reads_def split: io.splits)

lemma fold_perform_read_in:
  "Op_read r' \<in> set (w_pending (fold (perform r) es w)) \<longleftrightarrow>
     Op_read r' \<in> set (w_pending w) \<or> (r' = r \<and> 0 < reads es)"
  by (induction es arbitrary: w) (auto simp: perform_def reads_def split: io.splits)

lemmas fold_perform = fold_perform_sessions fold_perform_accept fold_perform_reads fold_perform_read_in

lemma handled_ok:
  "w_objs (handled r (Some (Inr s)) w) = (w_objs w)(r \<mapsto> s\<lparr>se_io := []\<rparr>)"
  "w_next (handled r (Some (Inr s)) w) = w_next w" "w_crash (handled r (Some (Inr s)) w) = w_crash w"
  "sv_sessions (w_server (handled r (Some (Inr s)) w)) u =
     (if u \<in> clears (se_io s) then None else sv_sessions (w_server w) u)"
  "filter is_accept (w_pending (handled r (Some (Inr s)) w)) = filter is_accept (w_pending w)"
  "count_list (w_pending (handled r (Some (Inr s)) w)) (Op_read r') =
     count_list (w_pending w) (Op_read r') + (if r' = r then reads (se_io s) else 0)"
  "Op_read r' \<in> set (w_pending (handled r (Some (Inr s)) w)) \<longleftrightarrow>
     Op_read r' \<in> set (w_pending w) \<or> (r' = r \<and> 0 < reads (se_io s))"
  unfolding handled_def option.case sum.case fold_perform fold_perform_fields by simp_all

lemma count_remove1: "count_list (remove1 p xs) q = count_list xs q - (if p = q then 1 else 0)"
  by (induction xs) auto

text \<open>The read in progress of session \<open>r\<close> is the only one, and a handler starts at most one again.\<close>

lemma completed_read_single:
  assumes "one_read w" "p \<in> set (w_pending w)" "p = Op_read r"
  shows "count_list (w_pending w) (Op_read r) = 1"
proof -
  have "count_list (w_pending w) (Op_read r) \<noteq> 0" using assms(2,3) by (simp add: count_list_0_iff)
  moreover have "count_list (w_pending w) (Op_read r) \<le> 1" using assms(1) by (simp add: one_read_def)
  ultimately show ?thesis by linarith
qed

lemma reads_after_handler:
  assumes inv: "server_inv w" "w_crash w = None" and s: "w_objs w r = Some s" "se_uuid s' = se_uuid s"
    and p: "p \<in> set (w_pending w)" "\<not> is_accept p"
    and ends: "p = Op_read r \<Longrightarrow> reads (se_io s') = 1 \<and> clears (se_io s') = {} \<or>
        reads (se_io s') = 0 \<and> clears (se_io s') = {se_uuid s}"
      "p \<noteq> Op_read r \<Longrightarrow> (\<exists>bs. p = Op_write r bs) \<and> reads (se_io s') = 0 \<and> clears (se_io s') \<subseteq> {se_uuid s}"
  defines "w' \<equiv> handled r (Some (Inr s')) (w\<lparr>w_pending := remove1 p (w_pending w)\<rparr>)"
  shows "Op_read r' \<in> set (w_pending w') \<longleftrightarrow>
      (if p = Op_read r \<and> r' = r then reads (se_io s') = 1 else Op_read r' \<in> set (w_pending w))"
proof (cases "p = Op_read r")
  case True
  then have "Op_read r \<notin> set (remove1 (Op_read r) (w_pending w))"
    using completed_read_single [OF _ p(1) True] inv
      count_list_0_iff [of "remove1 p (w_pending w)" "Op_read r"]
    by (simp add: count_remove1 server_inv_def)
  moreover have "Op_read r' \<in> set (w_pending w') \<longleftrightarrow>
      Op_read r' \<in> set (remove1 (Op_read r) (w_pending w)) \<or> (r' = r \<and> 0 < reads (se_io s'))"
    using True by (simp add: handled_ok w'_def)
  moreover have "reads (se_io s') = 1 \<or> reads (se_io s') = 0"
    by (rule disjE [OF ends(1) [OF True]]) simp_all
  ultimately show ?thesis
    using True by (cases "r' = r") (simp_all add: in_set_remove1, linarith)
next
  case False
  then show ?thesis
    using ends(2) by (auto simp: handled_ok w'_def)
qed

text \<open>A handler of session \<open>r\<close> that completes the operation \<open>p\<close> keeps the invariant.\<close>

lemma handler_keeps_inv:
  assumes inv: "server_inv w" "w_crash w = None" and s: "w_objs w r = Some s" "se_uuid s' = se_uuid s"
    and p: "p \<in> set (w_pending w)" "\<not> is_accept p"
    and ends: "p = Op_read r \<Longrightarrow> reads (se_io s') = 1 \<and> clears (se_io s') = {} \<or>
        reads (se_io s') = 0 \<and> clears (se_io s') = {se_uuid s}"
      "p \<noteq> Op_read r \<Longrightarrow> (\<exists>bs. p = Op_write r bs) \<and> reads (se_io s') = 0 \<and> clears (se_io s') \<subseteq> {se_uuid s}"
  shows "server_inv (handled r (Some (Inr s')) (w\<lparr>w_pending := remove1 p (w_pending w)\<rparr>))"
proof -
  let ?w = "handled r (Some (Inr s')) (w\<lparr>w_pending := remove1 p (w_pending w)\<rparr>)"
  have i: "accepting w" "one_read w" "registered w" "numbered w" using inv by (auto simp: server_inv_def)
  have acc: "filter is_accept (remove1 p (w_pending w)) = filter is_accept (w_pending w)"
    using p(2) by (simp add: filter_remove1 remove1_idem)
  note cnt = completed_read_single [OF i(2) p(1)]
  note mem = reads_after_handler [OF inv s p ends]
  have ses: "sv_sessions (w_server ?w) u = (if u \<in> clears (se_io s') then None else sv_sessions (w_server w) u)" for u
    by (simp add: handled_ok)
  have "accepting ?w"
  proof -
    obtain r0 where r0: "filter is_accept (w_pending w) = [Op_accept r0]" "r0 < w_next w"
        "Op_read r0 \<notin> set (w_pending w)" "\<forall>u. sv_sessions (w_server w) u \<noteq> Some r0"
      using i(1) by (auto simp: accepting_def)
    then have "Op_read r0 \<notin> set (w_pending ?w)" using mem p(1) by auto
    moreover have "filter is_accept (w_pending ?w) = [Op_accept r0]" "w_next ?w = w_next w"
      using r0 acc by (simp_all add: handled_ok)
    ultimately show ?thesis
      using r0 ses unfolding accepting_def by auto
  qed
  moreover have "one_read ?w"
    using i(2) ends cnt by (auto simp: one_read_def handled_ok count_remove1)
  moreover have "registered ?w"
  proof -
    have "Op_read q \<in> set (w_pending ?w) \<and> (\<exists>t. w_objs ?w q = Some t \<and> se_uuid t = u)"
      if u: "sv_sessions (w_server ?w) u = Some q" for u q
    proof -
      have old: "sv_sessions (w_server w) u = Some q" "u \<notin> clears (se_io s')"
        using u ses by (auto split: if_splits)
      then have q: "Op_read q \<in> set (w_pending w)" "\<exists>t. w_objs w q = Some t \<and> se_uuid t = u"
        using i(3) by (auto simp: registered_def)
      have "reads (se_io s') = 1" if "q = r" "p = Op_read r"
        using that ends(1) old q s by auto
      then have "Op_read q \<in> set (w_pending ?w)" using mem q by auto
      moreover have "\<exists>t. w_objs ?w q = Some t \<and> se_uuid t = u"
        using q(2) s by (auto simp: handled_ok)
      ultimately show ?thesis by blast
    qed
    then show ?thesis by (auto simp: registered_def)
  qed
  moreover have "numbered ?w"
    using i(4) mem s ends p(1) by (auto simp: numbered_def handled_ok split: if_splits)
  ultimately show ?thesis by (simp add: server_inv_def)
qed

lemma CSession_new_ok:
  obtains s where "CSession_new uuid data = Inr s" "se_uuid s = uuid" "se_io s = []"
  by (simp add: CSession_new_def MsgNode_recv_nonneg const_defs)

lemma StartAccept_inv:
  assumes "w_crash w = None" "filter is_accept (w_pending w) = []" "one_read w" "registered w" "numbered w"
  shows "server_inv (StartAccept gen data w)"
proof -
  obtain s where s: "CSession_new (gen (w_next w)) data = Inr s" "se_uuid s = gen (w_next w)" "se_io s = []"
    by (rule CSession_new_ok)
  let ?w = "w\<lparr>w_objs := (w_objs w)(w_next w \<mapsto> s), w_next := Suc (w_next w),
            w_pending := w_pending w @ [Op_accept (w_next w)]\<rparr>"
  have "StartAccept gen data w = ?w" by (simp add: StartAccept_def s)
  moreover have fresh: "sv_sessions (w_server w) u \<noteq> Some (w_next w)" "Op_read (w_next w) \<notin> set (w_pending w)" for u
    using assms(4,5) by (fastforce simp: registered_def numbered_def)+
  have "accepting ?w" using assms(2) fresh by (auto simp: accepting_def)
  moreover have "one_read ?w" using assms(3) by (simp add: one_read_def)
  moreover have "registered ?w" using assms(4) fresh by (auto simp: registered_def)
  moreover have "numbered ?w" using assms(5) s by (fastforce simp: numbered_def less_Suc_eq)
  ultimately show ?thesis by (simp add: server_inv_def)
qed

lemma HandleAccept_inv:
  assumes inv: "server_inv w" "w_crash w = None" and s: "w_objs w r = Some s" "Op_accept r \<in> set (w_pending w)"
  shows "server_inv (HandleAccept gen data r s err (w\<lparr>w_pending := remove1 (Op_accept r) (w_pending w)\<rparr>))"
proof -
  let ?w = "w\<lparr>w_pending := remove1 (Op_accept r) (w_pending w)\<rparr>"
  have i: "accepting w" "one_read w" "registered w" "numbered w" using inv by (auto simp: server_inv_def)
  obtain r0 where r0: "filter is_accept (w_pending w) = [Op_accept r0]"
      "Op_read r0 \<notin> set (w_pending w)" "\<forall>u. sv_sessions (w_server w) u \<noteq> Some r0"
    using i(1) by (auto simp: accepting_def)
  moreover have "Op_accept r \<in> set (filter is_accept (w_pending w))" using s(2) by simp
  ultimately have r: "r0 = r" by simp
  have w: "filter is_accept (w_pending ?w) = []" "one_read ?w" "registered ?w" "numbered ?w"
    using r0 r i by (simp_all add: filter_remove1 one_read_def registered_def numbered_def count_remove1 in_set_remove1)
  show ?thesis
  proof (cases err)
    case None
    let ?h = "handled r (Some (Inr (Start s))) ?w"
    let ?sv = "(w_server ?h)\<lparr>sv_sessions := (sv_sessions (w_server ?h))(se_uuid s \<mapsto> r)\<rparr>"
    have io: "se_io (Start s) = [Async_read_some]" "se_uuid (Start s) = se_uuid s"
      using i(4) s(1) by (simp_all add: numbered_def Start_def emit_def)
    then have cl: "clears (se_io (Start s)) = {}" by (simp add: clears_def)
    have h: "w_crash ?h = None" "filter is_accept (w_pending ?h) = []"
      using inv(2) w(1) by (simp_all add: handled_ok)
    have one: "one_read ?h"
      using w(2) r0(2) r count_list_0_iff [of "w_pending w" "Op_read r"]
      by (auto simp: one_read_def handled_ok io count_remove1)
    have num: "numbered ?h" using w(4) s(1) by (auto simp: numbered_def handled_ok)
    have reg: "registered ?h"
      using w(3) s(1) io(2) cl r0(3) r by (auto simp: registered_def handled_ok)
    have "one_read (?h\<lparr>w_server := ?sv\<rparr>)" "numbered (?h\<lparr>w_server := ?sv\<rparr>)"
      using one num by (simp_all add: one_read_def numbered_def)
    moreover have "registered (?h\<lparr>w_server := ?sv\<rparr>)"
      using reg io by (auto simp: registered_def handled_ok)
    ultimately show ?thesis
      using None h one num reg
      by (auto simp: HandleAccept_def GetUuid_def Let_def intro!: StartAccept_inv)
  next
    case (Some what)
    then show ?thesis
      using w inv(2) by (auto simp: HandleAccept_def intro!: StartAccept_inv
          simp: one_read_def registered_def numbered_def)
  qed
qed

lemma HandleWrite_ends:
  assumes "HandleWrite err s = Inr s'" "se_io s = []"
  shows "se_uuid s' = se_uuid s \<and> reads (se_io s') = 0 \<and> clears (se_io s') \<subseteq> {se_uuid s}"
  using assms
  by (auto simp: HandleWrite_def Let_def and_then_eq_Inr write_front_def emit_def Close_def reads_def
      clears_def split: option.splits list.splits if_splits)

lemma ends_reads_clears:
  assumes "filter is_end es = [Async_read_some] \<or> filter is_end es = [Clear_session u]"
  shows "reads es = 1 \<and> clears es = {} \<or> reads es = 0 \<and> clears es = {u}"
proof -
  have "reads es = reads (filter is_end es)" 
    by (auto simp: reads_def is_end_def intro!: arg_cong [where f = length] filter_cong)
  moreover have "clears es = clears (filter is_end es)" by (auto simp: clears_def)
  moreover have "clears [Async_read_some] = {}" "clears [Clear_session u] = {u}" by (auto simp: clears_def)
  ultimately show ?thesis using assms by auto
qed

lemma HandleRead_reads_clears:
  assumes "HandleRead hton ntoh err (length bs) (if err = None then received bs s else s) = Some (Inr s')"
    and "se_io s = []" "err = None \<Longrightarrow> bs \<noteq> []"
  shows "se_uuid s' = se_uuid s \<and>
    (reads (se_io s') = 1 \<and> clears (se_io s') = {} \<or> reads (se_io s') = 0 \<and> clears (se_io s') = {se_uuid s})"
proof (cases err)
  case None
  then show ?thesis
    using HandleRead_ends [of hton ntoh "length bs" "received bs s" s'] assms
      ends_reads_clears [of "se_io s'" "se_uuid s"]
    by (auto simp: received_def ends_def)
next
  case (Some what)
  then show ?thesis
    using assms by (auto simp: HandleRead_def emit_def Close_def clears_def reads_def)
qed

lemma handled_crash:
  "\<nexists>s'. res = Some (Inr s') \<Longrightarrow> server_inv (handled r res w)"
  by (auto simp: handled_def server_inv_def split: option.splits sum.splits)

lemma complete_keeps_inv:
  assumes "server_inv w" "complete hton ntoh gen c w = Some w'"
  shows "server_inv w'"
proof -
  have ok: "w_crash w = None" using assms(2) by (auto simp: complete_def split: if_splits)
  then have num: "numbered w" using assms(1) by (simp add: server_inv_def)
  show ?thesis
  proof (cases c)
    case (Accepted r err data)
    then show ?thesis
      using assms ok HandleAccept_inv [OF assms(1) ok]
      by (auto simp: complete_def split: option.splits if_splits)
  next
    case (Read_done r err bs)
    then obtain s where s: "w_objs w r = Some s" "Op_read r \<in> set (w_pending w)" "err = None \<Longrightarrow> bs \<noteq> []"
      and w': "w' = handled r (HandleRead hton ntoh err (length bs) (if err = None then received bs s else s))
        (w\<lparr>w_pending := remove1 (Op_read r) (w_pending w)\<rparr>)" (is "_ = handled r ?res _")
      using assms(2) ok by (auto simp: complete_def split: option.splits if_splits)
    show ?thesis
    proof (cases "\<exists>s'. ?res = Some (Inr s')")
      case True
      then obtain s' where s': "?res = Some (Inr s')" by blast
      have "se_io s = []" using num s(1) by (simp add: numbered_def)
      note ends = HandleRead_reads_clears [OF s' this s(3)]
      show ?thesis unfolding w' s'
        by (rule handler_keeps_inv [OF assms(1) ok s(1)]) (use ends s(2) in auto)
    next
      case False
      then show ?thesis unfolding w' by (intro handled_crash) blast
    qed
  next
    case (Write_done r err)
    then obtain s p where s: "w_objs w r = Some s" "find (\<lambda>p. \<exists>bs. p = Op_write r bs) (w_pending w) = Some p"
      and w': "w' = handled r (Some (HandleWrite err s)) (w\<lparr>w_pending := remove1 p (w_pending w)\<rparr>)"
      using assms(2) ok by (auto simp: complete_def split: option.splits if_splits)
    have p: "p \<in> set (w_pending w)" "\<exists>bs. p = Op_write r bs"
      using s(2) by (auto simp: find_Some_iff) (metis nth_mem)
    show ?thesis
    proof (cases "HandleWrite err s")
      case (Inl e)
      then show ?thesis unfolding w' by (intro handled_crash) simp
    next
      case (Inr s')
      have "se_io s = []" using num s(1) by (simp add: numbered_def)
      note ends = HandleWrite_ends [OF Inr this]
      show ?thesis unfolding w' Inr
        by (rule handler_keeps_inv [OF assms(1) ok s(1)]) (use ends p in auto)
    qed
  qed
qed

lemma server_inv_new: "server_inv (CServer_new gen data port)"
  unfolding CServer_new_def
  by (rule StartAccept_inv) (simp_all add: one_read_def registered_def numbered_def)

interpretation server: invariant_system "complete hton ntoh gen" "CServer_new gen data port" server_inv
  for hton ntoh gen data port
  by unfold_locales (auto intro: server_inv_new complete_keeps_inv)

text \<open>
  The event loop keeps the server in order: after any sequence of completions, unless a handler
  has crashed the process, exactly one connection is being accepted and every registered session
  is registered under its own uuid and has exactly one read in progress; a session whose reading
  has ended is no longer registered.
\<close>

theorem server_sessions_keep_reading:
  assumes "reach (complete hton ntoh gen) (CServer_new gen data port) w" "w_crash w = None"
  shows "length (filter is_accept (w_pending w)) = 1 \<and>
    (\<forall>u r. sv_sessions (w_server w) u = Some r \<longrightarrow>
       count_list (w_pending w) (Op_read r) = 1 \<and> (\<exists>s. w_objs w r = Some s \<and> se_uuid s = u))"
proof -
  have i: "accepting w" "one_read w" "registered w"
    using server.inv_reach [OF assms(1)] assms(2) by (auto simp: server_inv_def)
  have "count_list (w_pending w) (Op_read r) = 1" if "sv_sessions (w_server w) u = Some r" for u r
  proof -
    have "Op_read r \<in> set (w_pending w)" using that i(3) by (auto simp: registered_def)
    then have "count_list (w_pending w) (Op_read r) \<noteq> 0" by (simp add: count_list_0_iff)
    moreover have "count_list (w_pending w) (Op_read r) \<le> 1" using i(2) by (simp add: one_read_def)
    ultimately show ?thesis by linarith
  qed
  then show ?thesis using i by (auto simp: accepting_def registered_def)
qed

theorem server_sessions_keep_reading_witness:
  "\<exists>w. run_labels (complete byte_swap byte_swap (\<lambda>n. ''u'' @ decimal n)) [Accepted 0 None (replicate 2048 0)]
        (CServer_new (\<lambda>n. ''u'' @ decimal n) (replicate 2048 0) 10086) = Some w \<and> w_crash w = None \<and>
     sv_sessions (w_server w) ''u0'' = Some 0 \<and> count_list (w_pending w) (Op_read 0) = 1 \<and>
     length (filter is_accept (w_pending w)) = 1"
proof -
  let ?gen = "\<lambda>n. ''u'' @ decimal n" and ?data = "replicate 2048 0 :: byte list"
  let ?s = "\<lambda>u io. \<lparr>se_uuid = u, se_data = ?data, se_b_close = False, se_send_que = [],
          se_recv_msg_node = None, se_b_head_parse = False,
          se_recv_head_node = \<lparr>mn_cur_len = 0, mn_total_len = 2, mn_data = replicate 3 0\<rparr>, se_io = io\<rparr>"
  have new: "CSession_new u ?data = Inr (?s u [])" for u
    by (simp add: CSession_new_def MsgNode_recv_nonneg const_defs)
  have st: "Start (?s u []) = ?s u [Async_read_some]" for u
    by (simp add: Start_def emit_def const_defs)
  have dec: "decimal 0 = ''0''" by (simp add: decimal.simps [of 0] digit_char_def char_of_def bit_Suc_0_iff bit_0)
  obtain w where w: "run_labels (complete byte_swap byte_swap ?gen) [Accepted 0 None ?data] (CServer_new ?gen ?data 10086) = Some w"
    "w_crash w = None" "sv_sessions (w_server w) ''u0'' = Some 0"
    by (simp add: CServer_new_def StartAccept_def new complete_def HandleAccept_def GetUuid_def handled_def
        st perform_def Let_def dec)
  have "reach (complete byte_swap byte_swap ?gen) (CServer_new ?gen ?data 10086) w"
    using w(1) by (rule run_labels_reach)
  from server_sessions_keep_reading [OF this w(2)] w show ?thesis by auto
qed

end
