(* ===== verification/Server_Safety.thy ===== *)
theory Server_Safety
  imports C_Server
begin

text \<open>
  All connections of the event loop together. The invariant of one session (\<open>Session_Protocol\<close>, \<open>Echo_Connection\<close>) is carried
  through every interleaving of the completions of all sessions, with failing accepts, reads and writes: while no client
  sends a negative length, no handler faults or hangs.
\<close>

subsection \<open>The session that waits for the next client\<close>

definition fresh_session :: "session \<Rightarrow> bool" where
  "fresh_session s \<longleftrightarrow> (\<exists>uuid data. CSession_new uuid data = Inr s)"

definition accept_fresh :: "world \<Rightarrow> bool" where
  "accept_fresh w \<longleftrightarrow>
     (\<forall>r. Op_accept r \<in> set (w_pending w) \<longrightarrow>
        (\<exists>s. w_objs w r = Some s \<and> fresh_session s) \<and> (\<forall>bs. Op_write r bs \<notin> set (w_pending w))) \<and>
     (\<forall>r bs. Op_write r bs \<in> set (w_pending w) \<longrightarrow> r < w_next w)"

lemma fold_perform_writes:
  "Op_write q bs \<in> set (w_pending (fold (perform r) es w)) \<Longrightarrow> Op_write q bs \<in> set (w_pending w) \<or> q = r"
proof (induction es arbitrary: w)
  case (Cons e es)
  from Cons.IH [of "perform r e w"] Cons.prems show ?case
    by (auto simp: perform_def split: io.splits)
qed simp

lemma handled_writes:
  "Op_write q bs \<in> set (w_pending (handled r (Some (Inr s)) w)) \<Longrightarrow> Op_write q bs \<in> set (w_pending w) \<or> q = r"
  using fold_perform_writes [of q bs r "se_io s" "w\<lparr>w_objs := (w_objs w)(r \<mapsto> s\<lparr>se_io := []\<rparr>)\<rparr>"]
  by (simp add: handled_def)

lemma handled_accepts: "Op_accept q \<in> set (w_pending (handled r (Some (Inr s)) w)) \<longleftrightarrow> Op_accept q \<in> set (w_pending w)"
proof -
  have "Op_accept q \<in> set xs \<longleftrightarrow> Op_accept q \<in> set (filter is_accept xs)" for xs by simp
  then show ?thesis by (metis handled_ok(5))
qed

lemma handler_keeps_fresh:
  assumes "accept_fresh w" "server_inv w" "w_crash w = None" "w_objs w r = Some s" "Op_accept r \<notin> set (w_pending w)"
  shows "accept_fresh (handled r (Some (Inr s')) (w\<lparr>w_pending := remove1 p (w_pending w)\<rparr>))"
proof -
  let ?w = "handled r (Some (Inr s')) (w\<lparr>w_pending := remove1 p (w_pending w)\<rparr>)"
  have r: "r < w_next w" using assms(2-4) by (simp add: server_inv_def numbered_def)
  have acc: "Op_accept q \<in> set (w_pending w) \<and> q \<noteq> r" if "Op_accept q \<in> set (w_pending ?w)" for q
    using that assms(5) notin_set_remove1 by (fastforce simp: handled_accepts)
  have wr: "Op_write q bs \<in> set (w_pending w) \<or> q = r" if "Op_write q bs \<in> set (w_pending ?w)" for q bs
    using handled_writes [OF that] notin_set_remove1 by fastforce
  show ?thesis
    using assms(1) r acc wr unfolding accept_fresh_def handled_ok by fastforce
qed

lemma StartAccept_fresh:
  assumes "\<And>q. Op_accept q \<notin> set (w_pending w)" "\<And>q bs. Op_write q bs \<in> set (w_pending w) \<Longrightarrow> q < w_next w"
  shows "accept_fresh (StartAccept gen data w)"
proof -
  obtain s where s: "CSession_new (gen (w_next w)) data = Inr s" by (rule CSession_new_ok)
  then have "fresh_session s" by (auto simp: fresh_session_def)
  with assms s show ?thesis by (fastforce simp: StartAccept_def accept_fresh_def less_Suc_eq)
qed

lemma only_accept:
  assumes "server_inv w" "w_crash w = None" "Op_accept r \<in> set (w_pending w)"
  shows "Op_accept q \<notin> set (remove1 (Op_accept r) (w_pending w))" "Op_read r \<notin> set (w_pending w)"
proof -
  obtain r0 where r0: "filter is_accept (w_pending w) = [Op_accept r0]" "Op_read r0 \<notin> set (w_pending w)"
    using assms(1,2) by (auto simp: server_inv_def accepting_def)
  have "Op_accept r \<in> set (filter is_accept (w_pending w))" using assms(3) by simp
  then have r: "r0 = r" using r0(1) by simp
  then show "Op_read r \<notin> set (w_pending w)" using r0(2) by simp
  have "filter is_accept (remove1 (Op_accept r) (w_pending w)) = []" using r0 r by (simp add: filter_remove1)
  then show "Op_accept q \<notin> set (remove1 (Op_accept r) (w_pending w))" by (auto simp: filter_empty_conv)
qed

lemma HandleAccept_fresh:
  assumes "accept_fresh w" "server_inv w" "w_crash w = None" "w_objs w r = Some s" "Op_accept r \<in> set (w_pending w)"
  shows "accept_fresh (HandleAccept gen data r s err (w\<lparr>w_pending := remove1 (Op_accept r) (w_pending w)\<rparr>))"
proof -
  let ?w = "w\<lparr>w_pending := remove1 (Op_accept r) (w_pending w)\<rparr>"
  let ?h = "handled r (Some (Inr (Start s))) ?w"
  have r: "r < w_next w" using assms(2-4) by (simp add: server_inv_def numbered_def)
  note none = only_accept(1) [OF assms(2,3,5)]
  have wr: "q < w_next w" if "Op_write q bs \<in> set (w_pending ?w)" for q bs
    using that assms(1) notin_set_remove1 by (fastforce simp: accept_fresh_def)
  have "Op_accept q \<notin> set (w_pending ?h)" for q using none by (simp add: handled_accepts)
  moreover have "q < w_next ?h" if "Op_write q bs \<in> set (w_pending ?h)" for q bs
    using handled_writes [OF that] wr r by (auto simp: handled_ok)
  ultimately show ?thesis
    using none wr by (cases err) (auto simp: HandleAccept_def Let_def intro!: StartAccept_fresh)
qed

lemma complete_crash: "complete hton ntoh gen c w = Some w' \<Longrightarrow> w_crash w = None"
  by (auto simp: complete_def split: if_splits)

lemma complete_keeps_fresh:
  assumes "accept_fresh w" "server_inv w" "complete hton ntoh gen c w = Some w'" "w_crash w' = None"
  shows "accept_fresh w'"
proof -
  have ok: "w_crash w = None" using assms(3) by (auto simp: complete_def split: if_splits)
  have hand: "accept_fresh (handled r res (w\<lparr>w_pending := remove1 p (w_pending w)\<rparr>))"
    if "w_objs w r = Some s" "Op_accept r \<notin> set (w_pending w)"
      "w_crash (handled r res (w\<lparr>w_pending := remove1 p (w_pending w)\<rparr>)) = None" for r s res p
    using handler_keeps_fresh [OF assms(1,2) ok that(1,2)] that(3)
    by (auto simp: handled_def split: option.splits sum.splits)
  show ?thesis
  proof (cases c)
    case (Accepted r err data)
    then show ?thesis
      using assms(3) ok HandleAccept_fresh [OF assms(1,2) ok] by (auto simp: complete_def split: option.splits if_splits)
  next
    case (Read_done r err bs)
    then obtain s res where s: "w_objs w r = Some s" "Op_read r \<in> set (w_pending w)"
        "w' = handled r res (w\<lparr>w_pending := remove1 (Op_read r) (w_pending w)\<rparr>)"
      using assms(3) ok by (auto simp: complete_def split: option.splits if_splits)
    then show ?thesis using hand [OF s(1)] only_accept(2) [OF assms(2) ok] assms(4) by blast
  next
    case (Write_done r err)
    then obtain s p res where s: "w_objs w r = Some s" "find (\<lambda>p. \<exists>bs. p = Op_write r bs) (w_pending w) = Some p"
        "w' = handled r res (w\<lparr>w_pending := remove1 p (w_pending w)\<rparr>)"
      using assms(3) ok by (auto simp: complete_def split: option.splits if_splits)
    then obtain bs where "Op_write r bs \<in> set (w_pending w)" by (auto simp: find_Some_iff) (metis nth_mem)
    then have "Op_accept r \<notin> set (w_pending w)" using assms(1) by (auto simp: accept_fresh_def)
    then show ?thesis using hand [OF s(1)] s(3) assms(4) by blast
  qed
qed

interpretation fresh_server: invariant_system "complete hton ntoh gen" "CServer_new gen data port"
    "\<lambda>w. server_inv w \<and> (w_crash w = None \<longrightarrow> accept_fresh w)"
  for hton ntoh gen data port
proof unfold_locales
  show "server_inv (CServer_new gen data port) \<and> (w_crash (CServer_new gen data port) = None \<longrightarrow> accept_fresh (CServer_new gen data port))"
    unfolding CServer_new_def using server_inv_new [of gen data port, unfolded CServer_new_def]
    by (auto intro!: StartAccept_fresh)
  show "server_inv w' \<and> (w_crash w' = None \<longrightarrow> accept_fresh w')"
    if "server_inv w \<and> (w_crash w = None \<longrightarrow> accept_fresh w)" "complete hton ntoh gen c w = Some w'" for w c w'
    using that complete_keeps_inv [of w hton ntoh gen c w'] complete_keeps_fresh [of w hton ntoh gen c w']
      complete_crash [of hton ntoh gen c w w'] by simp
qed

subsection \<open>The bytes of the clients and the writes in progress\<close>

fun completion_bytes :: "nat \<Rightarrow> completion \<Rightarrow> byte list" where
  "completion_bytes r (Read_done q None bs) = (if q = r then bs else [])"
| "completion_bytes r _ = []"

text \<open>What the client of session \<open>r\<close> has sent, as it was read.\<close>

definition bytes_read :: "nat \<Rightarrow> completion list \<Rightarrow> byte list" where
  "bytes_read r cs = concat (map (completion_bytes r) cs)"

fun is_write_of :: "nat \<Rightarrow> op \<Rightarrow> bool" where
  "is_write_of r (Op_write q bs) \<longleftrightarrow> q = r" | "is_write_of r _ \<longleftrightarrow> False"

definition writing :: "nat \<Rightarrow> op list \<Rightarrow> nat" where
  "writing r ps = length (filter (is_write_of r) ps)"

lemma is_write_of_iff: "is_write_of r p \<longleftrightarrow> (\<exists>bs. p = Op_write r bs)"
  by (cases p) auto

lemma writing_simps [simp]:
  "writing r [] = 0" "writing r (ps @ qs) = writing r ps + writing r qs" "writing r [Op_read q] = 0"
  "writing r [Op_accept q] = 0" "writing r [Op_write q bs] = (if q = r then 1 else 0)"
  by (simp_all add: writing_def)

lemma writing_0: "writing r ps = 0 \<longleftrightarrow> (\<forall>bs. Op_write r bs \<notin> set ps)"
  by (auto simp: writing_def filter_empty_conv is_write_of_iff)

lemma writing_remove1:
  "writing r (remove1 p ps) = writing r ps - (if p \<in> set ps \<and> is_write_of r p then 1 else 0)"
  by (auto simp: writing_def filter_remove1 length_remove1)

lemma fold_perform_writing:
  "writing q (w_pending (fold (perform r) es w)) = writing q (w_pending w) + (if q = r then length (writes es) else 0)"
proof (induction es arbitrary: w)
  case (Cons e es)
  then show ?case by (cases e) (auto simp: perform_def writes_def)
qed simp

lemma handled_writing:
  "writing q (w_pending (handled r (Some (Inr s)) w)) = writing q (w_pending w) + (if q = r then length (writes (se_io s)) else 0)"
  by (simp add: handled_def fold_perform_writing)

text \<open>Echoing messages starts a write exactly when the queue was empty.\<close>

lemma echoes_queue: "fst (foldl (echo hton) v ms) = [] \<longleftrightarrow> fst v = [] \<and> ms = []"
proof (induction ms arbitrary: v)
  case (Cons m ms)
  then show ?case by (auto simp: echo_def)
qed simp

lemma echoes_writes:
  "length (writes (snd (foldl (echo hton) v ms))) = length (writes (snd v)) + (if fst v = [] \<and> ms \<noteq> [] then 1 else 0)"
proof (induction ms arbitrary: v)
  case (Cons m ms)
  then show ?case by (auto simp: echo_def)
qed simp

subsection \<open>The invariant of all sessions\<close>

text \<open>
  A session with an operation in progress is closed, or it is between two handlers of \<open>Session_Protocol\<close>: one write is in
  progress exactly when the queue is not empty, and while it reads it holds the unfinished frame of its input.
\<close>

definition session_ok :: "(16 word \<Rightarrow> 16 word) \<Rightarrow> byte list \<Rightarrow> op list \<Rightarrow> nat \<Rightarrow> session \<Rightarrow> bool" where
  "session_ok ntoh inp ps r s \<longleftrightarrow>
     se_b_close s \<or>
     sess_inv ntoh s \<and> writing r ps = (if se_send_que s = [] then 0 else 1) \<and>
     (Op_read r \<in> set ps \<longrightarrow> snd (deframe ntoh inp) = More (pending s))"

definition active :: "nat \<Rightarrow> op list \<Rightarrow> bool" where
  "active r ps \<longleftrightarrow> Op_read r \<in> set ps \<or> 0 < writing r ps"

definition sessions_ok :: "(16 word \<Rightarrow> 16 word) \<Rightarrow> (nat \<Rightarrow> byte list) \<Rightarrow> world \<Rightarrow> bool" where
  "sessions_ok ntoh inp w \<longleftrightarrow>
     (\<forall>r. inp r \<noteq> [] \<longrightarrow> r < w_next w \<and> Op_accept r \<notin> set (w_pending w)) \<and>
     (\<forall>r. active r (w_pending w) \<longrightarrow> (\<exists>s. w_objs w r = Some s \<and> session_ok ntoh (inp r) (w_pending w) r s))"

lemma session_ok_cong:
  assumes "writing r ps' = writing r ps" "Op_read r \<in> set ps' \<longleftrightarrow> Op_read r \<in> set ps"
  shows "session_ok ntoh inp ps' r s = session_ok ntoh inp ps r s" "active r ps' = active r ps"
  using assms by (simp_all add: session_ok_def active_def)

lemma session_ok_io: "session_ok ntoh inp ps r (s\<lparr>se_io := x\<rparr>) = session_ok ntoh inp ps r s"
proof -
  have "sess_inv ntoh (s\<lparr>se_io := x\<rparr>) = sess_inv ntoh s" by (simp add: sess_inv_def)
  moreover have "pending (s\<lparr>se_io := x\<rparr>) = pending s" by (simp add: pending_def)
  ultimately show ?thesis by (simp add: session_ok_def)
qed

lemma sessions_okD:
  assumes "sessions_ok ntoh inp w" "active r (w_pending w)" "w_objs w r = Some s"
  shows "session_ok ntoh (inp r) (w_pending w) r s"
proof -
  obtain s' where "w_objs w r = Some s'" "session_ok ntoh (inp r) (w_pending w) r s'"
    using assms(1,2) unfolding sessions_ok_def by blast
  then show ?thesis using assms(3) by simp
qed

text \<open>A handler of session \<open>r\<close> leaves the other sessions as they are.\<close>

lemma handled_sessions_ok:
  fixes s' :: session
  assumes "sessions_ok ntoh inp w" "server_inv w" "w_crash w = None" "w_objs w r = Some s" "Op_accept r \<notin> set (w_pending w)"
    and "p = Op_read r \<or> is_write_of r p" "\<And>q. q \<noteq> r \<Longrightarrow> inp' q = inp q"
  defines "w' \<equiv> handled r (Some (Inr s')) (w\<lparr>w_pending := remove1 p (w_pending w)\<rparr>)"
  assumes "session_ok ntoh (inp' r) (w_pending w') r s'"
  shows "sessions_ok ntoh inp' w'"
proof -
  have nx: "r < w_next w" using assms(2-4) by (simp add: server_inv_def numbered_def)
  have acc: "Op_accept q \<in> set (w_pending w') \<longleftrightarrow> Op_accept q \<in> set (w_pending w)" for q
    using assms(6) by (auto simp: w'_def handled_accepts in_set_remove1 is_write_of_iff)
  have rd: "Op_read q \<in> set (w_pending w') \<longleftrightarrow> Op_read q \<in> set (w_pending w)" if "q \<noteq> r" for q
    using that assms(6) by (auto simp: w'_def handled_ok in_set_remove1 is_write_of_iff)
  have wr: "writing q (w_pending w') = writing q (w_pending w)" if "q \<noteq> r" for q
    using that assms(6) by (auto simp: w'_def handled_writing writing_remove1 is_write_of_iff)
  have obj: "w_objs w' q = (if q = r then Some (s'\<lparr>se_io := []\<rparr>) else w_objs w q)" "w_next w' = w_next w" for q
    by (simp_all add: w'_def handled_ok)
  have "session_ok ntoh (inp' r) (w_pending w') r (s'\<lparr>se_io := []\<rparr>)"
    using assms(9) by (simp add: session_ok_io)
  moreover have "\<exists>s. w_objs w' q = Some s \<and> session_ok ntoh (inp' q) (w_pending w') q s"
    if "active q (w_pending w')" "q \<noteq> r" for q
    using that assms(1,7) session_ok_cong [OF wr rd, OF that(2,2)] by (simp add: sessions_ok_def obj)
  ultimately show ?thesis
    using assms(1,5,7) nx acc obj unfolding sessions_ok_def by metis
qed

lemma obj_io: "server_inv w \<Longrightarrow> w_crash w = None \<Longrightarrow> w_objs w r = Some s \<Longrightarrow> se_io s = []"
  by (simp add: server_inv_def numbered_def)

text \<open>A read that brings bytes which do not complete a negative length.\<close>

lemma read_session_ok:
  assumes "session_ok ntoh inp ps r s" "\<not> se_b_close s" "Op_read r \<in> set ps" "count_list ps (Op_read r) = 1" "se_io s = []"
    and "bs \<noteq> []" "length bs \<le> 2048" "snd (deframe ntoh (inp @ bs)) \<noteq> Negative"
  shows "\<exists>s'. HandleRead hton ntoh None (length bs) (received bs s) = Some (Inr s') \<and>
    (\<forall>ps'. writing r ps' = writing r ps + length (writes (se_io s')) \<longrightarrow>
       (Op_read r \<in> set ps' \<longleftrightarrow> 0 < reads (se_io s')) \<longrightarrow> session_ok ntoh (inp @ bs) ps' r s')"
proof -
  have s: "sess_inv ntoh s" "writing r ps = (if se_send_que s = [] then 0 else 1)" "snd (deframe ntoh inp) = More (pending s)"
    using assms(1-3) by (simp_all add: session_ok_def)
  obtain ms0 where "deframe ntoh inp = (ms0, More (pending s))" using s(3) by (metis prod.collapse)
  moreover obtain ms e where d: "deframe ntoh (pending s @ bs) = (ms, e)" by force
  ultimately have e: "snd (deframe ntoh (inp @ bs)) = e" using deframe_append [of ntoh inp bs] by simp
  obtain s' where s': "HandleRead hton ntoh None (length bs) (received bs s) = Some (Inr s')" "sess_inv ntoh s'"
      "\<forall>p. e = More p \<longrightarrow> pending s' = p" "view s' = after_read e (se_uuid s) (foldl (echo hton) (view s) ms)"
    using HandleRead_ok [OF s(1) assms(6,7) d] e assms(8) by blast
  have v: "view s = (map node_frame (se_send_que s), [])" using assms(5) by (simp add: view_def)
  have "writes (snd (view s')) = writes (snd (foldl (echo hton) (view s) ms))"
    using s'(4) by (cases e) (simp_all add: after_read_def)
  then have wr: "length (writes (se_io s')) = (if se_send_que s = [] \<and> ms \<noteq> [] then 1 else 0)"
    using echoes_writes [of hton "view s" ms] assms(5) by (simp add: view_def writes_filter)
  have "fst (view s') = fst (foldl (echo hton) (view s) ms)" using s'(4) by (cases e) (simp_all add: after_read_def)
  then have que: "se_send_que s' = [] \<longleftrightarrow> se_send_que s = [] \<and> ms = []"
    using echoes_queue [of hton "view s" ms] v by (metis fst_conv map_is_Nil_conv view_def)
  have "reads (snd (view s')) = (case e of More p \<Rightarrow> 1 | _ \<Rightarrow> 0)"
    using s'(4) v by (cases e) (simp_all add: after_read_def echoes_reads)
  then have "0 < reads (se_io s') \<longrightarrow> e = More (pending s')"
    using s'(3) by (cases e) (simp_all add: view_def reads_filter)
  then have "session_ok ntoh (inp @ bs) ps' r s'"
    if "writing r ps' = writing r ps + length (writes (se_io s'))" "Op_read r \<in> set ps' \<longleftrightarrow> 0 < reads (se_io s')" for ps'
    using that s(2) s'(2) wr que e by (auto simp: session_ok_def)
  with s'(1) show ?thesis by blast
qed

lemma Read_done_ok:
  assumes "sessions_ok ntoh inp w" "server_inv w" "complete hton ntoh gen (Read_done r err bs) w = Some w'"
    and "err = None \<Longrightarrow> snd (deframe ntoh (inp r @ bs)) \<noteq> Negative"
  shows "w_crash w' = None \<and> sessions_ok ntoh (\<lambda>q. inp q @ completion_bytes q (Read_done r err bs)) w'"
proof -
  let ?w = "w\<lparr>w_pending := remove1 (Op_read r) (w_pending w)\<rparr>"
  note ok = complete_crash [OF assms(3)]
  obtain s where s: "w_objs w r = Some s" "Op_read r \<in> set (w_pending w)"
      "err = None \<Longrightarrow> \<not> se_b_close s \<and> bs \<noteq> [] \<and> length bs \<le> 2048"
      "w' = handled r (HandleRead hton ntoh err (length bs) (if err = None then received bs s else s)) ?w"
    using assms(3) ok by (auto simp: complete_def const_defs split: option.splits if_splits)
  have acc: "Op_accept r \<notin> set (w_pending w)" using only_accept(2) [OF assms(2) ok] s(2) by blast
  have one: "count_list (w_pending w) (Op_read r) = 1"
    using completed_read_single [OF _ s(2) refl] assms(2) ok by (simp add: server_inv_def)
  then have gone: "Op_read r \<notin> set (remove1 (Op_read r) (w_pending w))"
    using count_list_0_iff [of "remove1 (Op_read r) (w_pending w)" "Op_read r"] by (simp add: count_remove1)
  show ?thesis
  proof (cases err)
    case None
    have "session_ok ntoh (inp r) (w_pending w) r s"
      using sessions_okD [OF assms(1) _ s(1)] s(2) by (simp add: active_def)
    then obtain s' where s': "HandleRead hton ntoh None (length bs) (received bs s) = Some (Inr s')"
      "\<forall>ps'. writing r ps' = writing r (w_pending w) + length (writes (se_io s')) \<longrightarrow>
         (Op_read r \<in> set ps' \<longleftrightarrow> 0 < reads (se_io s')) \<longrightarrow> session_ok ntoh (inp r @ bs) ps' r s'"
      using read_session_ok [of ntoh "inp r" "w_pending w" r s bs hton] s(2,3) one obj_io [OF assms(2) ok s(1)] assms(4) None by blast
    then have w': "w' = handled r (Some (Inr s')) ?w" using s(4) None by simp
    have "session_ok ntoh (inp r @ bs) (w_pending w') r s'"
      using s'(2) gone by (simp add: w' handled_writing handled_ok writing_remove1)
    then show ?thesis
      using handled_sessions_ok [OF assms(1,2) ok s(1) acc, of "Op_read r" "\<lambda>q. inp q @ completion_bytes q (Read_done r err bs)" s']
        ok None by (simp add: w' handled_ok)
  next
    case (Some what)
    then obtain s' where s': "HandleRead hton ntoh err (length bs) s = Some (Inr s')" "se_b_close s'"
      by (simp add: HandleRead_def emit_def Close_def)
    then have w': "w' = handled r (Some (Inr s')) ?w" using s(4) Some by simp
    show ?thesis
      using handled_sessions_ok [OF assms(1,2) ok s(1) acc, of "Op_read r" "\<lambda>q. inp q @ completion_bytes q (Read_done r err bs)" s']
        ok Some s'(2) by (simp add: w' handled_ok session_ok_def)
  qed
qed

lemma Write_done_ok:
  assumes "sessions_ok ntoh inp w" "server_inv w" "accept_fresh w" "complete hton ntoh gen (Write_done r err) w = Some w'"
  shows "w_crash w' = None \<and> sessions_ok ntoh inp w'"
proof -
  note ok = complete_crash [OF assms(4)]
  obtain s p where s: "w_objs w r = Some s" "find (\<lambda>p. \<exists>bs. p = Op_write r bs) (w_pending w) = Some p"
      "err = None \<Longrightarrow> \<not> se_b_close s" "w' = handled r (Some (HandleWrite err s)) (w\<lparr>w_pending := remove1 p (w_pending w)\<rparr>)"
    using assms(4) ok by (auto simp: complete_def split: option.splits if_splits)
  have p: "p \<in> set (w_pending w)" "is_write_of r p"
    using s(2) by (auto simp: find_Some_iff is_write_of_iff) (metis nth_mem)
  then have acc: "Op_accept r \<notin> set (w_pending w)" using assms(3) by (auto simp: accept_fresh_def is_write_of_iff)
  note keep = handled_sessions_ok [OF assms(1,2) ok s(1) acc, of p inp]
  show ?thesis
  proof (cases err)
    case None
    have pos: "0 < writing r (w_pending w)" using p writing_0 [of r "w_pending w"] by (auto simp: is_write_of_iff)
    then have "session_ok ntoh (inp r) (w_pending w) r s"
      using sessions_okD [OF assms(1) _ s(1)] by (simp add: active_def)
    then have so: "sess_inv ntoh s" "writing r (w_pending w) = 1" "se_send_que s \<noteq> []"
        "Op_read r \<in> set (w_pending w) \<longrightarrow> snd (deframe ntoh (inp r)) = More (pending s)"
      using s(3) None pos by (auto simp: session_ok_def split: if_splits)
    obtain n q where "se_send_que s = n # q" using so(3) by (cases "se_send_que s") auto
    from HandleWrite_next [OF so(1) this] obtain s' where s': "HandleWrite None s = Inr s'" "sess_inv ntoh s'"
      "pending s' = pending s" "se_send_que s' = q" "writes (se_io s') = writes (se_io s) @ take 1 (map node_frame q)"
      "reads (se_io s') = reads (se_io s)" by metis
    have io: "se_io s = []" using obj_io [OF assms(2) ok s(1)] .
    have w': "w' = handled r (Some (Inr s')) (w\<lparr>w_pending := remove1 p (w_pending w)\<rparr>)" using s(4) s'(1) None by simp
    have "length (writes (se_io s')) = (if q = [] then 0 else 1)" using s'(5) io by (cases q) simp_all
    then have "session_ok ntoh (inp r) (w_pending w') r s'"
      using so(2,4) s'(2-4,6) io p by (auto simp: session_ok_def w' handled_writing handled_ok writing_remove1 in_set_remove1 is_write_of_iff)
    then show ?thesis using keep [of s'] p(2) ok by (simp add: w' handled_ok)
  next
    case (Some what)
    then obtain s' where s': "HandleWrite err s = Inr s'" "se_b_close s'"
      by (simp add: HandleWrite_def emit_def Close_def)
    then show ?thesis using keep [of s'] p(2) ok s(4) by (simp add: handled_ok session_ok_def)
  qed
qed

text \<open>A session that has just been accepted.\<close>

lemma fresh_start:
  assumes "fresh_session s"
  shows "sess_inv ntoh (Start s)" "pending (Start s) = []" "\<not> se_b_head_parse (Start s)" "\<not> se_b_close (Start s)"
    "se_io (Start s) = [Async_read_some]"
  using assms
  by (auto simp: fresh_session_def CSession_new_def MsgNode_recv_nonneg const_defs sess_inv_def head_ok_def pending_def
      session_simps)

lemma StartAccept_sessions_ok:
  assumes "sessions_ok ntoh inp w" "numbered w" "\<And>q bs. Op_write q bs \<in> set (w_pending w) \<Longrightarrow> q < w_next w"
  shows "w_crash (StartAccept gen data w) = w_crash w \<and> sessions_ok ntoh inp (StartAccept gen data w)"
proof -
  let ?n = "w_next w"
  obtain s where s: "CSession_new (gen ?n) data = Inr s" by (rule CSession_new_ok)
  let ?w = "StartAccept gen data w"
  have w: "w_pending ?w = w_pending w @ [Op_accept ?n]" "w_objs ?w = (w_objs w)(?n \<mapsto> s)" "w_next ?w = Suc ?n"
      "w_crash ?w = w_crash w"
    using s by (simp_all add: StartAccept_def)
  have "\<not> active ?n (w_pending w)"
    using assms(2,3) writing_0 [of ?n "w_pending w"] by (fastforce simp: active_def numbered_def)
  moreover have "session_ok ntoh i (w_pending ?w) q t = session_ok ntoh i (w_pending w) q t"
      "active q (w_pending ?w) = active q (w_pending w)" for i q t
    using session_ok_cong [of q "w_pending ?w" "w_pending w"] by (simp_all add: w)
  ultimately show ?thesis
    using assms(1) unfolding sessions_ok_def by (auto simp: w less_Suc_eq)
qed

text \<open>The accepted session starts to read; it has sent and received nothing.\<close>

lemma started_sessions_ok:
  assumes "sessions_ok ntoh inp w" "w_objs w r = Some s" "fresh_session s" "inp r = []" "writing r (w_pending w) = 0"
    and "Op_accept r \<notin> set (w_pending w)"
  shows "sessions_ok ntoh inp (handled r (Some (Inr (Start s))) w)"
proof -
  let ?h = "handled r (Some (Inr (Start s))) w"
  note st = fresh_start(1) [OF assms(3), of ntoh] fresh_start(2-5) [OF assms(3)]
  have que: "se_send_que (Start s) = []"
    using assms(3) by (auto simp: fresh_session_def CSession_new_def session_simps and_then_eq_Inr)
  have "session_ok ntoh [] (w_pending ?h) r (Start s)"
    using st que assms(5) by (simp add: session_ok_def handled_writing)
  then have r: "session_ok ntoh (inp r) (w_pending ?h) r ((Start s)\<lparr>se_io := []\<rparr>)"
    by (simp add: session_ok_io assms(4))
  have q: "session_ok ntoh i (w_pending ?h) q t = session_ok ntoh i (w_pending w) q t"
      "active q (w_pending ?h) = active q (w_pending w)" if "q \<noteq> r" for i q t
    using session_ok_cong [of q "w_pending ?h" "w_pending w"] that by (simp_all add: handled_writing handled_ok)
  show ?thesis
    unfolding sessions_ok_def
  proof (intro conjI allI impI)
    fix x assume "inp x \<noteq> []"
    then show "x < w_next ?h" "Op_accept x \<notin> set (w_pending ?h)"
      using assms(1) by (auto simp: sessions_ok_def handled_ok handled_accepts)
  next
    fix x assume "active x (w_pending ?h)"
    then show "\<exists>t. w_objs ?h x = Some t \<and> session_ok ntoh (inp x) (w_pending ?h) x t"
      using r q [of x] assms(1) by (cases "x = r") (simp_all add: sessions_ok_def handled_ok)
  qed
qed

lemma accepted_world:
  obtains u where "HandleAccept gen data r s None w = StartAccept gen data u"
    "w_pending u = w_pending (handled r (Some (Inr (Start s))) w)" "w_objs u = w_objs (handled r (Some (Inr (Start s))) w)"
    "w_next u = w_next w" "w_crash u = w_crash w"
proof -
  let ?h = "handled r (Some (Inr (Start s))) w"
  let ?sv = "(w_server ?h)\<lparr>sv_sessions := (sv_sessions (w_server ?h))(GetUuid s \<mapsto> r)\<rparr>"
  show thesis
    using that [of ?h] that [of "?h\<lparr>w_server := ?sv\<rparr>"]
    by (cases "sv_sessions (w_server ?h) (GetUuid s)") (simp_all add: HandleAccept_def Let_def handled_ok)
qed

lemma Accepted_ok:
  assumes "sessions_ok ntoh inp w" "server_inv w" "accept_fresh w" "complete hton ntoh gen (Accepted r err data) w = Some w'"
  shows "w_crash w' = None \<and> sessions_ok ntoh inp w'"
proof -
  note ok = complete_crash [OF assms(4)]
  let ?w = "w\<lparr>w_pending := remove1 (Op_accept r) (w_pending w)\<rparr>"
  obtain s where s: "w_objs w r = Some s" "Op_accept r \<in> set (w_pending w)" "w' = HandleAccept gen data r s err ?w"
    using assms(4) ok by (auto simp: complete_def split: option.splits if_splits)
  have num: "numbered w" using assms(2) ok by (simp add: server_inv_def)
  have fresh: "fresh_session s" "writing r (w_pending w) = 0"
    using assms(3) s(1,2) by (auto simp: accept_fresh_def writing_0)
  have w: "w_pending ?w = remove1 (Op_accept r) (w_pending w)" "numbered ?w" "\<And>q bs. Op_write q bs \<in> set (w_pending ?w) \<Longrightarrow> q < w_next ?w"
    using assms(3) num by (auto simp: numbered_def accept_fresh_def dest: notin_set_remove1)
  have "session_ok ntoh i (w_pending ?w) q t = session_ok ntoh i (w_pending w) q t"
      "active q (w_pending ?w) = active q (w_pending w)" for i q t
    using session_ok_cong [of q "w_pending ?w" "w_pending w"] by (simp_all add: writing_remove1 in_set_remove1)
  then have so: "sessions_ok ntoh inp ?w"
    using assms(1) unfolding sessions_ok_def by (auto dest: notin_set_remove1)
  show ?thesis
  proof (cases err)
    case (Some what)
    let ?o = "?w\<lparr>w_out := w_out w @ [''session accept failed, error is '' @ what]\<rparr>"
    have "sessions_ok ntoh inp ?o" "numbered ?o" using so w(2) by (simp_all add: sessions_ok_def numbered_def)
    then show ?thesis
      using StartAccept_sessions_ok [of ntoh inp ?o gen data] w(3) s(3) Some ok by (simp add: HandleAccept_def)
  next
    case None
    let ?h = "handled r (Some (Inr (Start s))) ?w"
    obtain u where u: "w' = StartAccept gen data u" "w_pending u = w_pending ?h" "w_objs u = w_objs ?h"
        "w_next u = w_next w" "w_crash u = None"
      using accepted_world [of gen data r s ?w] s(3) None ok by auto
    have "inp r = []" using assms(1) s(2) by (auto simp: sessions_ok_def)
    then have h: "sessions_ok ntoh inp ?h"
      using started_sessions_ok [OF so _ fresh(1)] s(1) fresh(2) only_accept(1) [OF assms(2) ok s(2)] by (simp add: writing_remove1)
    have "sessions_ok ntoh inp u" using h u(2-4) by (simp add: sessions_ok_def handled_ok)
    moreover have "numbered u" using w(2) u(2-4) s(1) by (auto simp: numbered_def handled_ok)
    moreover have "x < w_next u" if "Op_write x bs \<in> set (w_pending u)" for x bs
      using that handled_writes [of x bs r "Start s" ?w] w(3) num s(1) u(2,4) by (auto simp: numbered_def)
    ultimately show ?thesis using StartAccept_sessions_ok [of ntoh inp u gen data] u(1,5) by simp
  qed
qed

subsection \<open>Every run of the event loop\<close>

lemma complete_ok:
  assumes "sessions_ok ntoh inp w" "server_inv w" "accept_fresh w" "complete hton ntoh gen c w = Some w'"
    and "\<And>r. snd (deframe ntoh (inp r @ completion_bytes r c)) \<noteq> Negative"
  shows "w_crash w' = None \<and> sessions_ok ntoh (\<lambda>r. inp r @ completion_bytes r c) w'"
proof (cases c)
  case (Accepted r err data)
  then show ?thesis using Accepted_ok [OF assms(1-3)] assms(4) by simp
next
  case (Read_done r err bs)
  have "snd (deframe ntoh (inp r @ bs)) \<noteq> Negative" if "err = None"
    using assms(5) [of r] Read_done that by simp
  then show ?thesis using Read_done_ok [OF assms(1,2), of hton gen r err bs w'] assms(4) Read_done by simp
next
  case (Write_done r err)
  then show ?thesis using Write_done_ok [OF assms(1-3)] assms(4) by simp
qed

lemma run_ok:
  assumes "sessions_ok ntoh inp w" "server_inv w" "accept_fresh w" "w_crash w = None"
    and "run_labels (complete hton ntoh gen) cs w = Some w'"
    and "\<And>r. snd (deframe ntoh (inp r @ bytes_read r cs)) \<noteq> Negative"
  shows "w_crash w' = None"
  using assms
proof (induction cs arbitrary: inp w)
  case (Cons c cs)
  then obtain w1 where w1: "complete hton ntoh gen c w = Some w1" "run_labels (complete hton ntoh gen) cs w1 = Some w'"
    by (auto split: option.splits)
  have all: "inp r @ bytes_read r (c # cs) = (inp r @ completion_bytes r c) @ bytes_read r cs" for r
    by (simp add: bytes_read_def)
  have "snd (deframe ntoh (inp r @ completion_bytes r c)) \<noteq> Negative" for r
    using served_no_negative Cons.prems(6) [of r] unfolding all by blast
  then have ok: "w_crash w1 = None" "sessions_ok ntoh (\<lambda>r. inp r @ completion_bytes r c) w1"
    using complete_ok [OF Cons.prems(1-3) w1(1)] by simp_all
  show ?case
    by (rule Cons.IH [OF ok(2) complete_keeps_inv [OF Cons.prems(2) w1(1)]
          complete_keeps_fresh [OF Cons.prems(3,2) w1(1) ok(1)] ok(1) w1(2)])
      (use Cons.prems(6) all in simp)
qed simp

lemma CServer_new_no_crash: "w_crash (CServer_new gen data port) = None"
  by (rule CSession_new_ok [of "gen 0" data]) (simp add: CServer_new_def StartAccept_def)

lemma server_run_safe:
  assumes "run_labels (complete hton ntoh gen) cs (CServer_new gen data port) = Some w"
    and "\<And>r. snd (deframe ntoh (bytes_read r cs)) \<noteq> Negative"
  shows "w_crash w = None"
proof -
  let ?w = "CServer_new gen data port"
  have "sessions_ok ntoh (\<lambda>_. []) ?w"
    by (rule CSession_new_ok [of "gen 0" data])
      (simp add: CServer_new_def StartAccept_def sessions_ok_def active_def writing_def)
  moreover have "accept_fresh ?w"
    using fresh_server.inv_start CServer_new_no_crash by blast
  ultimately show ?thesis
    using run_ok [of ntoh "\<lambda>_. []" ?w] server_inv_new CServer_new_no_crash assms by simp
qed

end
