(* ===== verification/Echo_Main.thy ===== *)
theory Echo_Main
  imports Server_Safety
begin

text \<open>
  \<open>src/main.cpp\<close>: the program around \<open>CServer\<close>. It listens on port 10086 and runs the event loop on one thread; an
  exception that leaves the constructor or a handler ends the loop and is reported. Parameters are what belongs
  to the operating system and to Boost: whether the acceptor can be opened, the completions in the order in
  which \<open>io_context::run\<close> takes them, and the texts of the exceptions.
\<close>

text \<open>The faults of the model that are exceptions derived from \<open>std::exception\<close>; the others are undefined behaviour.\<close>

fun is_exception :: "cxx_fault \<Rightarrow> bool" where
  "is_exception Bad_Array_Length = True" | "is_exception Length_Error = True"
| "is_exception Invalid_Argument = True" | "is_exception _ = False"

text \<open>
  \<open>io_context::run\<close>: it returns when no operation is outstanding, and otherwise waits for the next completion. A completion that
  cannot happen in the state is left out.
\<close>

datatype run_end = Out_of_work world | Waiting world | Thrown cxx_fault | Stuck

fun io_context_run ::
  "(16 word \<Rightarrow> 16 word) \<Rightarrow> (16 word \<Rightarrow> 16 word) \<Rightarrow> (nat \<Rightarrow> string) \<Rightarrow> completion list \<Rightarrow> world \<Rightarrow> run_end" where
  "io_context_run hton ntoh gen [] w = (if w_pending w = [] then Out_of_work w else Waiting w)"
| "io_context_run hton ntoh gen (c # cs) w =
     (if w_pending w = [] then Out_of_work w
      else case complete hton ntoh gen c w of
        None \<Rightarrow> io_context_run hton ntoh gen cs w
      | Some w' \<Rightarrow>
         (case w_crash w' of
            None \<Rightarrow> io_context_run hton ntoh gen cs w'
          | Some (Fault e) \<Rightarrow> Thrown e
          | Some Hang \<Rightarrow> Stuck))"

text \<open>How the program stands after these completions; \<open>Exited\<close> carries what it has written to \<open>std::cerr\<close>.\<close>

datatype main_state = Serving world | Exited "string list" | Undefined cxx_fault | Hanging

definition main_program ::
  "(16 word \<Rightarrow> 16 word) \<Rightarrow> (16 word \<Rightarrow> 16 word) \<Rightarrow> (nat \<Rightarrow> string) \<Rightarrow> (cxx_fault \<Rightarrow> string) \<Rightarrow>
   string option \<Rightarrow> byte list \<Rightarrow> completion list \<Rightarrow> main_state" where
  "main_program hton ntoh gen what bind_error data cs =
     (case bind_error of
        Some text \<Rightarrow> Exited [''Exception: '' @ text]
      | None \<Rightarrow>
         (case io_context_run hton ntoh gen cs (CServer_new gen data 10086) of
            Out_of_work w \<Rightarrow> Exited []
          | Waiting w \<Rightarrow> Serving w
          | Thrown e \<Rightarrow> if is_exception e then Exited [''Exception: '' @ what e] else Undefined e
          | Stuck \<Rightarrow> Hanging))"

subsection \<open>The event loop\<close>

lemma server_inv_works:
  assumes "server_inv w" "w_crash w = None"
  shows "w_pending w \<noteq> []"
  using assms by (auto simp: server_inv_def accepting_def)

lemma io_context_run_waiting:
  assumes "reach (complete hton ntoh gen) w0 w" "w_crash w = None" "io_context_run hton ntoh gen cs w = Waiting w'"
  shows "reach (complete hton ntoh gen) w0 w' \<and> w_crash w' = None"
  using assms
proof (induction cs arbitrary: w)
  case (Cons c cs)
  then show ?case
    by (auto split: if_splits option.splits crash.splits intro: reach.reach_step)
qed (simp split: if_splits)

lemma io_context_run_works:
  assumes "server_inv w" "w_crash w = None"
  shows "io_context_run hton ntoh gen cs w \<noteq> Out_of_work w'"
  using assms
proof (induction cs arbitrary: w)
  case Nil
  then show ?case using server_inv_works by simp
next
  case (Cons c cs)
  then show ?case
    using server_inv_works [OF Cons.prems] complete_keeps_inv [OF Cons.prems(1), of hton ntoh gen c]
    by (auto split: option.splits crash.splits)
qed

lemma io_context_run_labels:
  assumes "run_labels (complete hton ntoh gen) cs w = Some w'" "server_inv w" "w_crash w' = None"
  shows "io_context_run hton ntoh gen cs w = Waiting w'"
  using assms
proof (induction cs arbitrary: w)
  case Nil
  then show ?case using server_inv_works by simp
next
  case (Cons c cs)
  then obtain w1 where w1: "complete hton ntoh gen c w = Some w1" "run_labels (complete hton ntoh gen) cs w1 = Some w'"
    by (auto split: option.splits)
  have "w_crash w1 = None"
    using w1(2) Cons.prems(3) by (cases cs) (auto dest: complete_crash split: option.splits)
  moreover have "w_pending w \<noteq> []" using server_inv_works [OF Cons.prems(2) complete_crash [OF w1(1)]] .
  ultimately show ?case
    using Cons.IH [OF w1(2) complete_keeps_inv [OF Cons.prems(2) w1(1)] Cons.prems(3)] w1(1) by simp
qed

lemma io_context_run_append:
  "io_context_run hton ntoh gen (cs @ ds) w =
     (case io_context_run hton ntoh gen cs w of
        Waiting w' \<Rightarrow> io_context_run hton ntoh gen ds w' | r \<Rightarrow> r)"
proof (induction cs arbitrary: w)
  case Nil
  then show ?case by (cases ds) auto
next
  case (Cons c cs)
  then show ?case by (simp split: option.split crash.split)
qed

lemma main_serving:
  assumes "main_program hton ntoh gen what bind_error data cs = Serving w"
  shows "bind_error = None" "io_context_run hton ntoh gen cs (CServer_new gen data 10086) = Waiting w"
    "reach (complete hton ntoh gen) (CServer_new gen data 10086) w" "w_crash w = None" "server_inv w"
proof -
  show b: "bind_error = None" and r: "io_context_run hton ntoh gen cs (CServer_new gen data 10086) = Waiting w"
    using assms by (auto simp: main_program_def split: option.splits run_end.splits if_splits)
  show w: "reach (complete hton ntoh gen) (CServer_new gen data 10086) w" "w_crash w = None"
    using io_context_run_waiting [OF reach.reach_start CServer_new_no_crash r] by simp_all
  show "server_inv w" using server.inv_reach [OF w(1)] .
qed

subsection \<open>Properties\<close>

text \<open>
  (C19) The program serves until an exception: once the port is open, whatever completions happen, \<open>main\<close> has not run out
  of work. While it serves, exactly one connection is being accepted and every registered session is
  registered under its own uuid and has exactly one read in progress; it exits only with the report of an exception.
\<close>

theorem main_serves_until_exception:
  shows "(\<forall>w. main_program hton ntoh gen what None data cs = Serving w \<longrightarrow>
      length (filter is_accept (w_pending w)) = 1 \<and>
      (\<forall>u r. sv_sessions (w_server w) u = Some r \<longrightarrow>
         count_list (w_pending w) (Op_read r) = 1 \<and> (\<exists>s. w_objs w r = Some s \<and> se_uuid s = u))) \<and>
    (\<forall>out. main_program hton ntoh gen what None data cs = Exited out \<longrightarrow>
      (\<exists>e. is_exception e \<and> out = [''Exception: '' @ what e]))"
proof (intro conjI allI impI)
  fix w assume s: "main_program hton ntoh gen what None data cs = Serving w"
  show "length (filter is_accept (w_pending w)) = 1"
    using server_sessions_keep_reading [OF main_serving(3,4) [OF s]] by blast
  fix u r assume "sv_sessions (w_server w) u = Some r"
  then show "count_list (w_pending w) (Op_read r) = 1" "\<exists>s. w_objs w r = Some s \<and> se_uuid s = u"
    using server_sessions_keep_reading [OF main_serving(3,4) [OF s]] by blast+
next
  fix out assume "main_program hton ntoh gen what None data cs = Exited out"
  then show "\<exists>e. is_exception e \<and> out = [''Exception: '' @ what e]"
    using io_context_run_works [OF server_inv_new CServer_new_no_crash]
    by (fastforce simp: main_program_def split: run_end.splits if_splits)
qed

lemma main_starts:
  obtains w where "main_program hton ntoh gen what None data [] = Serving w"
  using server_inv_works [OF server_inv_new CServer_new_no_crash, of gen data 10086] by (simp add: main_program_def)

theorem main_serves_until_exception_witness:
  "\<exists>w. main_program byte_swap byte_swap (\<lambda>n. ''u'' @ decimal n) (\<lambda>e. ''what'') None [] [] = Serving w \<and>
     length (filter is_accept (w_pending w)) = 1"
proof -
  obtain w where w: "main_program byte_swap byte_swap (\<lambda>n. ''u'' @ decimal n) (\<lambda>e. ''what'') None [] [] = Serving w"
    by (rule main_starts)
  with main_serves_until_exception [of byte_swap byte_swap "\<lambda>n. ''u'' @ decimal n" "\<lambda>e. ''what''" "[]" "[]"]
  show ?thesis by blast
qed

lemma accept_next:
  assumes "server_inv w" "accept_fresh w" "w_crash w = None"
  obtains r s w' where "complete hton ntoh gen (Accepted r None data) w = Some w'" "w_crash w' = None"
    "fresh_session s" "w_objs w' r = Some ((Start s)\<lparr>se_io := []\<rparr>)" "Op_read r \<in> set (w_pending w')" "w_pending w \<noteq> []"
proof -
  obtain r where r: "filter is_accept (w_pending w) = [Op_accept r]" "r < w_next w"
    using assms(1,3) by (auto simp: server_inv_def accepting_def)
  have "Op_accept r \<in> set (filter is_accept (w_pending w))" using r(1) by simp
  then have p: "Op_accept r \<in> set (w_pending w)" by simp
  then obtain s where s: "w_objs w r = Some s" "fresh_session s" using assms(2) by (auto simp: accept_fresh_def)
  let ?w = "w\<lparr>w_pending := remove1 (Op_accept r) (w_pending w)\<rparr>"
  let ?h = "handled r (Some (Inr (Start s))) ?w"
  have h: "w_objs ?h r = Some ((Start s)\<lparr>se_io := []\<rparr>)" "w_next ?h = w_next w" "w_crash ?h = None"
    "Op_read r \<in> set (w_pending ?h)"
    using assms(3) fresh_start(5) [OF s(2)] by (simp_all add: handled_ok)
  obtain n where "CSession_new (gen (w_next w)) data = Inr n" by (rule CSession_new_ok)
  then have "w_objs (HandleAccept gen data r s None ?w) r = w_objs ?h r"
    "w_crash (HandleAccept gen data r s None ?w) = None" "Op_read r \<in> set (w_pending (HandleAccept gen data r s None ?w))"
    using h r(2) by (simp_all add: HandleAccept_def StartAccept_def Let_def)
  moreover have "complete hton ntoh gen (Accepted r None data) w = Some (HandleAccept gen data r s None ?w)"
    using assms(3) s(1) p by (simp add: complete_def)
  ultimately show thesis using that [of r _ s] s(2) h(1) server_inv_works [OF assms(1,3)] by simp
qed

text \<open>
  (C3) Well-behaved clients keep the server alive: any number of clients, with their bytes cut into reads in any way, their
  completions interleaved in any way and any accept, read or write failing, as long as no client sends a negative
  length no handler faults or hangs, and \<open>main\<close> goes on serving.
\<close>

theorem well_formed_clients_are_served:
  assumes "run_labels (complete hton ntoh gen) cs (CServer_new gen data 10086) = Some w"
    and "\<forall>r. snd (deframe ntoh (bytes_read r cs)) \<noteq> Negative"
  shows "main_program hton ntoh gen what None data cs = Serving w"
proof -
  have "w_crash w = None" using server_run_safe [OF assms(1)] assms(2) by blast
  then have "io_context_run hton ntoh gen cs (CServer_new gen data 10086) = Waiting w"
    using io_context_run_labels [OF assms(1) server_inv_new] by simp
  then show ?thesis by (simp add: main_program_def)
qed

theorem well_formed_clients_are_served_witness:
  "\<exists>r w. main_program byte_swap byte_swap (\<lambda>n. ''u'' @ decimal n) (\<lambda>e. ''what'') None []
     [Accepted r None [], Read_done r None [0, 2, 72, 105]] = Serving w"
proof -
  let ?gen = "\<lambda>n. ''u'' @ decimal n"
  let ?w = "CServer_new ?gen [] 10086"
  have "accept_fresh ?w" using fresh_server.inv_start CServer_new_no_crash by blast
  then obtain r s w1 where a: "complete byte_swap byte_swap ?gen (Accepted r None []) ?w = Some w1" "w_crash w1 = None"
      "fresh_session s" "w_objs w1 r = Some ((Start s)\<lparr>se_io := []\<rparr>)" "Op_read r \<in> set (w_pending w1)"
    by (rule accept_next [OF server_inv_new _ CServer_new_no_crash])
  let ?cs = "[Accepted r None [], Read_done r None [0, 2, 72, 105]]"
  obtain w where w: "run_labels (complete byte_swap byte_swap ?gen) ?cs ?w = Some w"
    using a fresh_start(4) [OF a(3)] by (simp add: complete_def [of _ _ _ "Read_done _ _ _"] const_defs)
  have "\<forall>q. snd (deframe byte_swap (bytes_read q ?cs)) \<noteq> Negative"
    using example_header by (simp add: bytes_read_def deframe.simps(3) const_defs)
  from well_formed_clients_are_served [OF w this, of "\<lambda>e. ''what''"] show ?thesis by blast
qed

text \<open>
  (C22) One client ends the program for all: at any time at which the server is serving, with any number of other
  connections, the next client to connect makes it exit by sending two bytes, a header whose
  length is below minus one. The length escapes the check against \<open>MAX_LENGTH\<close>, the allocation of the message
  buffer throws, and no handler below \<open>main\<close> catches the exception.
\<close>

theorem new_client_can_end_server:
  assumes "main_program hton ntoh gen what None data cs = Serving w" and "header ntoh b0 b1 < - 1"
  shows "\<exists>r. main_program hton ntoh gen what None data (cs @ [Accepted r None data', Read_done r None [b0, b1]]) =
    Exited [''Exception: '' @ what Bad_Array_Length]"
proof -
  note w = main_serving [OF assms(1)]
  have "accept_fresh w" using fresh_server.inv_reach [OF w(3)] w(4) by simp
  then obtain r s w' where a: "complete hton ntoh gen (Accepted r None data') w = Some w'" "w_crash w' = None"
      "fresh_session s" "w_objs w' r = Some ((Start s)\<lparr>se_io := []\<rparr>)" "Op_read r \<in> set (w_pending w')" "w_pending w \<noteq> []"
    by (rule accept_next [OF w(5) _ w(4)])
  let ?s = "(Start s)\<lparr>se_io := []\<rparr>"
  have s: "sess_inv ntoh ?s" "pending ?s = []" "\<not> se_b_head_parse ?s" "\<not> se_b_close ?s"
    using fresh_start(1) [OF a(3), of ntoh] fresh_start(2-4) [OF a(3)] by (simp_all add: sess_inv_def pending_def)
  have "HandleRead hton ntoh None 2 (received [b0, b1] ?s) = Some (Inl Bad_Array_Length)"
    using HandleRead_negative_length [OF s(1-3), of "[]" b0 b1 hton] assms(2) by (simp add: numeral_2_eq_2)
  then have "complete hton ntoh gen (Read_done r None [b0, b1]) w' =
      Some (w'\<lparr>w_pending := remove1 (Op_read r) (w_pending w'), w_crash := Some (Fault Bad_Array_Length)\<rparr>)"
    using a(2,4,5) s(4) by (simp add: complete_def handled_def const_defs numeral_2_eq_2)
  moreover have "w_pending w' \<noteq> []" using a(5) by auto
  ultimately have "io_context_run hton ntoh gen [Accepted r None data', Read_done r None [b0, b1]] w = Thrown Bad_Array_Length"
    using a(1,2,6) by simp
  then show ?thesis
    using w(2) by (intro exI [of _ r]) (simp add: main_program_def io_context_run_append)
qed

theorem new_client_can_end_server_witness:
  "\<exists>r. main_program byte_swap byte_swap (\<lambda>n. ''u'' @ decimal n) (\<lambda>e. ''bad_array_new_length'') None []
      ([] @ [Accepted r None [], Read_done r None [128, 0]]) = Exited [''Exception: '' @ ''bad_array_new_length'']"
proof -
  let ?gen = "\<lambda>n. ''u'' @ decimal n"
  obtain w where w: "main_program byte_swap byte_swap ?gen (\<lambda>e. ''bad_array_new_length'') None [] [] = Serving w"
    by (rule main_starts)
  have "header byte_swap 128 0 < - 1" by (simp add: example_header)
  from new_client_can_end_server [OF w this] show ?thesis .
qed

end
