(* ===== verification/CSP_Channel.thy ===== *)
theory CSP_Channel
  imports Cxx_Prelude
begin

text \<open>
  \<open>include/CSPChannel.hpp\<close>: a channel between producers and consumers, with a capacity (zero gives
  a buffer of one that is only refilled when empty) and a \<open>stop\<close>.

  The bodies of \<open>send\<close> and \<open>recv\<close> once their wait predicate holds are functions of the channel. The
  threads are a step machine: a thread acquires \<open>cv_mt_\<close>, evaluates the predicate and either runs
  the body or goes to sleep; between the evaluation and the sleep it holds the mutex. \<open>stop\<close> takes no
  mutex: its store and its two notifications are steps of their own that can fall in between.
\<close>

record 'a chan =
  ch_queue :: "'a list"
  ch_capacity :: size_t
  ch_stop :: bool

definition CSPChannel_new :: "size_t \<Rightarrow> 'a chan" where
  "CSPChannel_new capacity = \<lparr>ch_queue = [], ch_capacity = capacity, ch_stop = False\<rparr>"

definition send_ready :: "'a chan \<Rightarrow> bool" where
  "send_ready c \<longleftrightarrow> (ch_capacity c = 0 \<and> ch_queue c = []) \<or> length (ch_queue c) < unat (ch_capacity c) \<or> ch_stop c"

definition send_body :: "'a \<Rightarrow> 'a chan \<Rightarrow> bool \<times> 'a chan" where
  "send_body data c = (if ch_stop c then (False, c) else (True, c\<lparr>ch_queue := ch_queue c @ [data]\<rparr>))"

definition recv_ready :: "'a chan \<Rightarrow> bool" where
  "recv_ready c \<longleftrightarrow> ch_queue c \<noteq> [] \<or> ch_stop c"

definition recv_body :: "'a chan \<Rightarrow> 'a option \<times> 'a chan" where
  "recv_body c =
     (if ch_stop c \<and> ch_queue c = [] then (None, c)
      else (Some (hd (ch_queue c)), c\<lparr>ch_queue := tl (ch_queue c)\<rparr>))"

datatype 'a pc =
    Send_lock 'a | Send_checked 'a | Send_sleep 'a | Send_done bool
  | Recv_lock | Recv_checked | Recv_sleep | Recv_done "'a option"
  | Stop_store | Stop_notify_producers | Stop_notify_consumers | Stopped

record 'a channel_state =
  cs_chan :: "'a chan"
  cs_lock :: "thread_id option"
  cs_pcs :: "'a pc list"
  cs_sent :: "'a list"
  cs_received :: "'a list"

fun producer_asleep :: "'a pc \<Rightarrow> bool" where
  "producer_asleep (Send_sleep x) = True"
| "producer_asleep _ = False"

fun consumer_asleep :: "'a pc \<Rightarrow> bool" where
  "consumer_asleep Recv_sleep = True"
| "consumer_asleep _ = False"

fun wake :: "'a pc \<Rightarrow> 'a pc" where
  "wake (Send_sleep x) = Send_lock x"
| "wake Recv_sleep = Recv_lock"
| "wake p = p"

fun idle :: "'a pc \<Rightarrow> bool" where
  "idle (Send_done b) = True"
| "idle (Recv_done r) = True"
| "idle Stopped = True"
| "idle _ = False"

fun entry :: "'a pc \<Rightarrow> bool" where
  "entry (Send_lock x) = True"
| "entry Recv_lock = True"
| "entry Stop_store = True"
| "entry _ = False"

text \<open>
  The steps of a thread. The second argument of \<open>Run\<close> is the thread a \<open>notify_one\<close> of the step
  wakes, if it wakes one.
\<close>

datatype 'a chan_label = Run thread_id thread_id | Call thread_id "'a pc" | Spurious_wakeup thread_id

fun chan_send_step :: "thread_id \<Rightarrow> thread_id \<Rightarrow> 'a \<Rightarrow> 'a channel_state \<Rightarrow> 'a channel_state option" where
  "chan_send_step t w x s =
     (if cs_lock s \<noteq> None then None
      else if \<not> send_ready (cs_chan s)
      then Some (s\<lparr>cs_lock := Some t, cs_pcs := (cs_pcs s)[t := Send_checked x]\<rparr>)
      else case send_body x (cs_chan s) of
        (False, c) \<Rightarrow> Some (s\<lparr>cs_pcs := (cs_pcs s)[t := Send_done False]\<rparr>)
      | (True, c) \<Rightarrow>
          (case notify_one_of consumer_asleep wake w ((cs_pcs s)[t := Send_done True]) of None \<Rightarrow> None
           | Some pcs \<Rightarrow> Some (s\<lparr>cs_chan := c, cs_pcs := pcs, cs_sent := cs_sent s @ [x]\<rparr>)))"

fun chan_recv_step :: "thread_id \<Rightarrow> thread_id \<Rightarrow> 'a channel_state \<Rightarrow> 'a channel_state option" where
  "chan_recv_step t w s =
     (if cs_lock s \<noteq> None then None
      else if \<not> recv_ready (cs_chan s)
      then Some (s\<lparr>cs_lock := Some t, cs_pcs := (cs_pcs s)[t := Recv_checked]\<rparr>)
      else case recv_body (cs_chan s) of
        (None, c) \<Rightarrow> Some (s\<lparr>cs_pcs := (cs_pcs s)[t := Recv_done None]\<rparr>)
      | (Some x, c) \<Rightarrow>
          (case notify_one_of producer_asleep wake w ((cs_pcs s)[t := Recv_done (Some x)]) of None \<Rightarrow> None
           | Some pcs \<Rightarrow> Some (s\<lparr>cs_chan := c, cs_pcs := pcs, cs_received := cs_received s @ [x]\<rparr>)))"

fun chan_stop_step :: "thread_id \<Rightarrow> 'a channel_state \<Rightarrow> 'a channel_state option" where
  "chan_stop_step t s =
     (case cs_pcs s ! t of
        Stop_store \<Rightarrow> Some (s\<lparr>cs_chan := (cs_chan s)\<lparr>ch_stop := True\<rparr>,
          cs_pcs := (cs_pcs s)[t := Stop_notify_producers]\<rparr>)
      | Stop_notify_producers \<Rightarrow>
          Some (s\<lparr>cs_pcs := notify_all_of producer_asleep wake ((cs_pcs s)[t := Stop_notify_consumers])\<rparr>)
      | Stop_notify_consumers \<Rightarrow>
          Some (s\<lparr>cs_pcs := notify_all_of consumer_asleep wake ((cs_pcs s)[t := Stopped])\<rparr>)
      | _ \<Rightarrow> None)"

fun chan_step :: "'a chan_label \<Rightarrow> 'a channel_state \<Rightarrow> 'a channel_state option" where
  "chan_step (Run t w) s =
     (if t < length (cs_pcs s)
      then (case cs_pcs s ! t of
              Send_lock x \<Rightarrow> chan_send_step t w x s
            | Send_checked x \<Rightarrow> Some (s\<lparr>cs_lock := None, cs_pcs := (cs_pcs s)[t := Send_sleep x]\<rparr>)
            | Recv_lock \<Rightarrow> chan_recv_step t w s
            | Recv_checked \<Rightarrow> Some (s\<lparr>cs_lock := None, cs_pcs := (cs_pcs s)[t := Recv_sleep]\<rparr>)
            | _ \<Rightarrow> chan_stop_step t s)
      else None)"
| "chan_step (Call t p) s =
     (if t < length (cs_pcs s) \<and> idle (cs_pcs s ! t) \<and> entry p
      then Some (s\<lparr>cs_pcs := (cs_pcs s)[t := p]\<rparr>) else None)"
| "chan_step (Spurious_wakeup t) s =
     (if t < length (cs_pcs s) \<and> (producer_asleep (cs_pcs s ! t) \<or> consumer_asleep (cs_pcs s ! t))
      then Some (s\<lparr>cs_pcs := (cs_pcs s)[t := wake (cs_pcs s ! t)]\<rparr>) else None)"

definition chan_start :: "size_t \<Rightarrow> nat \<Rightarrow> 'a channel_state" where
  "chan_start capacity threads =
     \<lparr>cs_chan = CSPChannel_new capacity, cs_lock = None, cs_pcs = replicate threads Stopped,
      cs_sent = [], cs_received = []\<rparr>"

subsection \<open>Invariants\<close>

fun producer_awake :: "'a pc \<Rightarrow> bool" where
  "producer_awake (Send_lock x) = True"
| "producer_awake (Send_checked x) = True"
| "producer_awake _ = False"

fun consumer_awake :: "'a pc \<Rightarrow> bool" where
  "consumer_awake Recv_lock = True"
| "consumer_awake Recv_checked = True"
| "consumer_awake _ = False"

fun checked :: "'a pc \<Rightarrow> bool" where
  "checked (Send_checked x) = True"
| "checked Recv_checked = True"
| "checked _ = False"

text \<open>A buffer of capacity zero holds at most one element.\<close>

definition limit :: "'a chan \<Rightarrow> nat" where
  "limit c = max 1 (unat (ch_capacity c))"

definition room :: "'a chan \<Rightarrow> nat" where
  "room c = limit c - length (ch_queue c)"

definition mutex_inv :: "'a channel_state \<Rightarrow> bool" where
  "mutex_inv s \<longleftrightarrow> (\<forall>t<length (cs_pcs s). checked (cs_pcs s ! t) \<longrightarrow> cs_lock s = Some t) \<and>
     (\<forall>t<length (cs_pcs s). \<not> ch_stop (cs_chan s) \<longrightarrow>
        (producer_awake (cs_pcs s ! t) \<and> checked (cs_pcs s ! t) \<longrightarrow> room (cs_chan s) = 0) \<and>
        (consumer_awake (cs_pcs s ! t) \<and> checked (cs_pcs s ! t) \<longrightarrow> ch_queue (cs_chan s) = []))"

definition flow_inv :: "size_t \<Rightarrow> 'a channel_state \<Rightarrow> bool" where
  "flow_inv capacity s \<longleftrightarrow> cs_sent s = cs_received s @ ch_queue (cs_chan s) \<and>
     length (ch_queue (cs_chan s)) \<le> limit (cs_chan s) \<and> ch_capacity (cs_chan s) = capacity"

text \<open>While the channel runs, the sleepers of either side are outnumbered by threads on their way.\<close>

definition wake_inv :: "'a channel_state \<Rightarrow> bool" where
  "wake_inv s \<longleftrightarrow> ch_stop (cs_chan s) \<or>
     ((count_if consumer_asleep (cs_pcs s) = 0 \<or>
       length (ch_queue (cs_chan s)) \<le> count_if consumer_awake (cs_pcs s)) \<and>
      (count_if producer_asleep (cs_pcs s) = 0 \<or>
       room (cs_chan s) \<le> count_if producer_awake (cs_pcs s)))"

definition chan_inv :: "size_t \<Rightarrow> 'a channel_state \<Rightarrow> bool" where
  "chan_inv capacity s \<longleftrightarrow> mutex_inv s \<and> flow_inv capacity s \<and> wake_inv s"

lemma send_ready_room: "\<not> ch_stop c \<Longrightarrow> length (ch_queue c) \<le> limit c \<Longrightarrow> send_ready c \<longleftrightarrow> 0 < room c"
proof (cases "ch_capacity c = 0")
  case False
  then have "0 < unat (ch_capacity c)" by (simp add: unat_gt_0)
  then have "limit c = unat (ch_capacity c)" by (simp add: limit_def)
  then show "\<not> ch_stop c \<Longrightarrow> length (ch_queue c) \<le> limit c \<Longrightarrow> send_ready c \<longleftrightarrow> 0 < room c"
    using False by (auto simp: send_ready_def room_def)
qed (auto simp: send_ready_def room_def limit_def)

text \<open>
  The counts after one position has changed, and after a \<open>notify_one\<close>: the woken position \<open>p\<close> is a
  sleeping one.
\<close>

lemmas counts_update =
  count_if_update [where P = consumer_asleep] count_if_update [where P = consumer_awake]
  count_if_update [where P = producer_asleep] count_if_update [where P = producer_awake]

lemma consumer_asleep_iff: "consumer_asleep p \<longleftrightarrow> p = Recv_sleep"
  by (cases p) auto

lemma producer_asleep_iff: "producer_asleep p \<longleftrightarrow> (\<exists>x. p = Send_sleep x)"
  by (cases p) auto

lemma notify_consumer:
  assumes "notify_one_of consumer_asleep wake w xs = Some ys"
  shows "length ys = length xs" "checked (ys ! t) = checked (xs ! t)" "count_if producer_asleep ys = count_if producer_asleep xs"
    "count_if producer_awake ys = count_if producer_awake xs"
    "count_if consumer_asleep xs = 0 \<or> count_if consumer_awake ys = Suc (count_if consumer_awake xs)"
    "count_if consumer_asleep xs = 0 \<Longrightarrow> ys = xs"
    "checked (ys ! t) \<Longrightarrow> ys ! t = xs ! t"
  using assms counts_update [of w xs Recv_lock]
  by (cases rule: notify_one_of_cases; auto simp: consumer_asleep_iff nth_list_update)+

lemma notify_producer:
  assumes "notify_one_of producer_asleep wake w xs = Some ys"
  shows "length ys = length xs" "checked (ys ! t) = checked (xs ! t)" "count_if consumer_asleep ys = count_if consumer_asleep xs"
    "count_if consumer_awake ys = count_if consumer_awake xs"
    "count_if producer_asleep xs = 0 \<or> count_if producer_awake ys = Suc (count_if producer_awake xs)"
    "count_if producer_asleep xs = 0 \<Longrightarrow> ys = xs"
    "checked (ys ! t) \<Longrightarrow> ys ! t = xs ! t"
  using assms counts_update [of w xs "wake (xs ! w)"]
  by (cases rule: notify_one_of_cases; auto simp: producer_asleep_iff nth_list_update)+

text \<open>One thread moves and the channel does not change.\<close>

lemma mutex_inv_move:
  assumes "mutex_inv s" "t < length (cs_pcs s)" "\<not> checked p"
    and "lock = (if checked (cs_pcs s ! t) then None else cs_lock s)"
  shows "mutex_inv (s\<lparr>cs_lock := lock, cs_pcs := (cs_pcs s)[t := p]\<rparr>)"
  using assms unfolding mutex_inv_def
  by (auto simp: nth_list_update split: if_splits) (metis option.inject)+

lemma sleep_step_inv:
  assumes "chan_inv capacity s" "t < length (cs_pcs s)"
    and "cs_pcs s ! t = Send_checked x \<and> p = Send_sleep x \<or> cs_pcs s ! t = Recv_checked \<and> p = Recv_sleep"
  shows "chan_inv capacity (s\<lparr>cs_lock := None, cs_pcs := (cs_pcs s)[t := p]\<rparr>)"
proof -
  have "mutex_inv (s\<lparr>cs_lock := None, cs_pcs := (cs_pcs s)[t := p]\<rparr>)"
    using assms by (intro mutex_inv_move) (auto simp: chan_inv_def)
  moreover have "\<not> ch_stop (cs_chan s) \<Longrightarrow> (if p = Recv_sleep then ch_queue (cs_chan s) = [] else room (cs_chan s) = 0)"
    using assms by (fastforce simp: chan_inv_def mutex_inv_def)
  then have "wake_inv (s\<lparr>cs_lock := None, cs_pcs := (cs_pcs s)[t := p]\<rparr>)"
    using assms counts_update [OF assms(2), of p] by (auto simp: chan_inv_def wake_inv_def)
  ultimately show ?thesis using assms(1) by (simp add: chan_inv_def flow_inv_def)
qed

lemma check_step_inv:
  assumes "chan_inv capacity s" "t < length (cs_pcs s)" "cs_lock s = None"
    and "cs_pcs s ! t = Send_lock x \<and> p = Send_checked x \<and> \<not> send_ready (cs_chan s) \<or>
      cs_pcs s ! t = Recv_lock \<and> p = Recv_checked \<and> \<not> recv_ready (cs_chan s)"
  shows "chan_inv capacity (s\<lparr>cs_lock := Some t, cs_pcs := (cs_pcs s)[t := p]\<rparr>)"
proof -
  have "length (ch_queue (cs_chan s)) \<le> limit (cs_chan s)"
    using assms(1) by (simp add: chan_inv_def flow_inv_def)
  then have "mutex_inv (s\<lparr>cs_lock := Some t, cs_pcs := (cs_pcs s)[t := p]\<rparr>)"
    using assms send_ready_room [of "cs_chan s"] unfolding mutex_inv_def chan_inv_def
    by (auto simp: nth_list_update recv_ready_def)
  moreover have "wake_inv (s\<lparr>cs_lock := Some t, cs_pcs := (cs_pcs s)[t := p]\<rparr>)"
    using assms counts_update [OF assms(2), of p] by (auto simp: chan_inv_def wake_inv_def)
  ultimately show ?thesis using assms(1) by (simp add: chan_inv_def flow_inv_def)
qed

text \<open>A thread outside the critical sections moves to a position that does not sleep.\<close>

lemma move_step_inv:
  assumes "chan_inv capacity s" "t < length (cs_pcs s)" "\<not> checked (cs_pcs s ! t)"
    and "\<not> checked p" "\<not> producer_asleep p" "\<not> consumer_asleep p"
    and "ch_stop (cs_chan s) \<or> (consumer_awake (cs_pcs s ! t) \<longrightarrow> consumer_awake p) \<and>
      (producer_awake (cs_pcs s ! t) \<longrightarrow> producer_awake p)"
  shows "chan_inv capacity (s\<lparr>cs_pcs := (cs_pcs s)[t := p]\<rparr>)"
proof -
  have "mutex_inv (s\<lparr>cs_pcs := (cs_pcs s)[t := p]\<rparr>)"
    using mutex_inv_move [of s t p "cs_lock s"] assms by (simp add: chan_inv_def)
  moreover have "wake_inv (s\<lparr>cs_pcs := (cs_pcs s)[t := p]\<rparr>)"
    using assms counts_update [OF assms(2), of p] by (auto simp: chan_inv_def wake_inv_def split: if_splits)
  ultimately show ?thesis using assms(1) by (simp add: chan_inv_def flow_inv_def)
qed

lemma unlocked_not_checked:
  "mutex_inv s \<Longrightarrow> cs_lock s = None \<Longrightarrow> t < length (cs_pcs s) \<Longrightarrow> \<not> checked (cs_pcs s ! t)"
  by (auto simp: mutex_inv_def)

lemma mutex_inv_unlocked:
  assumes "\<And>t. t < length (cs_pcs s) \<Longrightarrow> \<not> checked (cs_pcs s ! t)"
  shows "mutex_inv s"
  using assms by (simp add: mutex_inv_def)

lemma send_step_inv:
  assumes "chan_inv capacity s" "t < length (cs_pcs s)" "cs_pcs s ! t = Send_lock x" "cs_lock s = None"
    and "send_ready (cs_chan s)" "\<not> ch_stop (cs_chan s)"
    and "notify_one_of consumer_asleep wake w ((cs_pcs s)[t := Send_done True]) = Some pcs"
  shows "chan_inv capacity (s\<lparr>cs_chan := (cs_chan s)\<lparr>ch_queue := ch_queue (cs_chan s) @ [x]\<rparr>, cs_pcs := pcs,
    cs_sent := cs_sent s @ [x]\<rparr>)" (is "chan_inv _ ?s")
proof -
  let ?xs = "(cs_pcs s)[t := Send_done True]"
  have i: "mutex_inv s" "flow_inv capacity s" "wake_inv s" using assms(1) by (auto simp: chan_inv_def)
  have r: "0 < room (cs_chan s)"
    using send_ready_room [of "cs_chan s"] assms(5,6) i(2) by (simp add: flow_inv_def)
  note n = notify_consumer [OF assms(7)] and u = counts_update [OF assms(2), of "Send_done True"]
  have "mutex_inv ?s"
    using n(1,2) unlocked_not_checked [OF i(1) assms(4)] assms(2)
    by (intro mutex_inv_unlocked) (auto simp: nth_list_update split: if_splits)
  moreover have "flow_inv capacity ?s"
    using i(2) r by (auto simp: flow_inv_def room_def limit_def)
  moreover have "room (cs_chan ?s) = room (cs_chan s) - 1"
    by (simp add: room_def limit_def)
  then have "wake_inv ?s"
    using i(3) assms(3,6) n(3-6) u by (auto simp: wake_inv_def)
  ultimately show ?thesis by (simp add: chan_inv_def)
qed

lemma recv_step_inv:
  assumes "chan_inv capacity s" "t < length (cs_pcs s)" "cs_pcs s ! t = Recv_lock" "cs_lock s = None"
    and "ch_queue (cs_chan s) = x # q"
    and "notify_one_of producer_asleep wake w ((cs_pcs s)[t := Recv_done (Some x)]) = Some pcs"
  shows "chan_inv capacity (s\<lparr>cs_chan := (cs_chan s)\<lparr>ch_queue := q\<rparr>, cs_pcs := pcs,
    cs_received := cs_received s @ [x]\<rparr>)" (is "chan_inv _ ?s")
proof -
  have i: "mutex_inv s" "flow_inv capacity s" "wake_inv s" using assms(1) by (auto simp: chan_inv_def)
  note n = notify_producer [OF assms(6)] and u = counts_update [OF assms(2), of "Recv_done (Some x)"]
  have "mutex_inv ?s"
    using n(1,2) unlocked_not_checked [OF i(1) assms(4)] assms(2)
    by (intro mutex_inv_unlocked) (auto simp: nth_list_update split: if_splits)
  moreover have "flow_inv capacity ?s"
    using i(2) assms(5) by (auto simp: flow_inv_def limit_def)
  moreover have "room (cs_chan ?s) = Suc (room (cs_chan s))"
    using i(2) assms(5) by (auto simp: room_def limit_def flow_inv_def)
  then have "wake_inv ?s"
    using i(3) assms(3,5) n(3-6) u by (auto simp: wake_inv_def)
  ultimately show ?thesis by (simp add: chan_inv_def)
qed

lemma stopped_inv:
  assumes "chan_inv capacity s" "length pcs = length (cs_pcs s)"
    and "\<And>t. t < length pcs \<Longrightarrow> checked (pcs ! t) \<Longrightarrow> checked (cs_pcs s ! t)"
  shows "chan_inv capacity (s\<lparr>cs_chan := (cs_chan s)\<lparr>ch_stop := True\<rparr>, cs_pcs := pcs\<rparr>)"
  using assms by (auto simp: chan_inv_def mutex_inv_def wake_inv_def flow_inv_def limit_def)

lemma stopped_move_inv:
  assumes "chan_inv capacity s" "ch_stop (cs_chan s)" "length pcs = length (cs_pcs s)"
    and "\<And>t. t < length pcs \<Longrightarrow> checked (pcs ! t) \<Longrightarrow> checked (cs_pcs s ! t)"
  shows "chan_inv capacity (s\<lparr>cs_pcs := pcs\<rparr>)"
  using assms by (auto simp: chan_inv_def mutex_inv_def wake_inv_def flow_inv_def)

lemma checked_wake: "checked (wake p) \<longleftrightarrow> checked p"
  by (cases p) auto

text \<open>The notifications of \<open>stop\<close> come after its store.\<close>

definition stop_inv :: "'a channel_state \<Rightarrow> bool" where
  "stop_inv s \<longleftrightarrow> (\<forall>p\<in>set (cs_pcs s). p = Stop_notify_producers \<or> p = Stop_notify_consumers \<longrightarrow> ch_stop (cs_chan s))"

definition chan_inv' :: "size_t \<Rightarrow> 'a channel_state \<Rightarrow> bool" where
  "chan_inv' capacity s \<longleftrightarrow> chan_inv capacity s \<and> stop_inv s"

lemma stop_inv_subset:
  assumes "stop_inv s" "ch_stop (cs_chan s) \<Longrightarrow> ch_stop (cs_chan s')"
    and "\<And>p. p \<in> set (cs_pcs s') \<Longrightarrow> p = Stop_notify_producers \<or> p = Stop_notify_consumers \<Longrightarrow>
      p \<in> set (cs_pcs s) \<or> ch_stop (cs_chan s')"
  shows "stop_inv s'"
  using assms unfolding stop_inv_def by blast

lemma chan_stop_step_inv:
  assumes "chan_inv' capacity s" "t < length (cs_pcs s)" "chan_stop_step t s = Some s'"
  shows "chan_inv' capacity s'"
proof -
  have i: "chan_inv capacity s" "stop_inv s" using assms(1) by (auto simp: chan_inv'_def)
  have mem: "cs_pcs s ! t \<in> set (cs_pcs s)" using assms(2) by simp
  have upd: "ch_stop (cs_chan s) \<Longrightarrow> (cs_chan s)\<lparr>ch_stop := True\<rparr> = cs_chan s" by simp
  consider "cs_pcs s ! t = Stop_store" | "cs_pcs s ! t = Stop_notify_producers" | "cs_pcs s ! t = Stop_notify_consumers"
    using assms(3) by (auto split: pc.splits)
  then show ?thesis
  proof cases
    case 1
    then have s': "s' = s\<lparr>cs_chan := (cs_chan s)\<lparr>ch_stop := True\<rparr>, cs_pcs := (cs_pcs s)[t := Stop_notify_producers]\<rparr>"
      using assms(3) by simp
    have "chan_inv capacity s'" unfolding s'
      using assms(2) by (intro stopped_inv [OF i(1)]) (auto simp: nth_list_update split: if_splits)
    then show ?thesis by (simp add: chan_inv'_def stop_inv_def s')
  next
    case 2
    then have stop: "ch_stop (cs_chan s)" using i(2) mem by (auto simp: stop_inv_def)
    have s': "s' = s\<lparr>cs_pcs :=
        notify_all_of producer_asleep wake ((cs_pcs s)[t := Stop_notify_consumers])\<rparr>"
      using 2 assms(3) by simp
    have "chan_inv capacity s'" unfolding s'
      using assms(2) by (intro stopped_move_inv [OF i(1) stop])
        (auto simp: nth_list_update notify_all_of_def checked_wake split: if_splits)
    then show ?thesis by (simp add: chan_inv'_def stop_inv_def s' stop)
  next
    case 3
    then have stop: "ch_stop (cs_chan s)" using i(2) mem by (auto simp: stop_inv_def)
    have s': "s' = s\<lparr>cs_pcs :=
        notify_all_of consumer_asleep wake ((cs_pcs s)[t := Stopped])\<rparr>"
      using 3 assms(3) by simp
    have "chan_inv capacity s'" unfolding s'
      using assms(2) by (intro stopped_move_inv [OF i(1) stop])
        (auto simp: nth_list_update notify_all_of_def checked_wake split: if_splits)
    then show ?thesis by (simp add: chan_inv'_def stop_inv_def s' stop)
  qed
qed

lemma idle_iff: "idle p \<longleftrightarrow> (\<exists>b. p = Send_done b) \<or> (\<exists>r. p = Recv_done r) \<or> p = Stopped"
  by (cases p) auto

lemma set_update_cases: "p \<in> set (xs[t := v]) \<Longrightarrow> p = v \<or> p \<in> set xs"
  using set_update_subset_insert [of xs t v] by auto

lemma chan_call_inv:
  assumes "chan_inv' capacity s" "chan_step (Call t p) s = Some s'"
  shows "chan_inv' capacity s'"
proof -
  have t: "t < length (cs_pcs s)" "idle (cs_pcs s ! t)" "entry p" and s': "s' = s\<lparr>cs_pcs := (cs_pcs s)[t := p]\<rparr>"
    using assms(2) by (auto split: if_splits)
  have "chan_inv capacity s'" unfolding s'
    using t assms(1) by (intro move_step_inv) (auto simp: chan_inv'_def idle_iff elim!: entry.elims)
  moreover have "stop_inv s'"
    using assms(1) t(3) by (auto simp: chan_inv'_def stop_inv_def s' elim!: entry.elims dest!: set_update_cases)
  ultimately show ?thesis by (simp add: chan_inv'_def)
qed

lemma chan_spurious_inv:
  assumes "chan_inv' capacity s" "chan_step (Spurious_wakeup t) s = Some s'"
  shows "chan_inv' capacity s'"
proof -
  have t: "t < length (cs_pcs s)" "cs_pcs s ! t = Recv_sleep \<or> (\<exists>x. cs_pcs s ! t = Send_sleep x)"
    and s': "s' = s\<lparr>cs_pcs := (cs_pcs s)[t := wake (cs_pcs s ! t)]\<rparr>"
    using assms(2) by (auto simp: consumer_asleep_iff producer_asleep_iff split: if_splits)
  have "chan_inv capacity s'" unfolding s'
    using t assms(1) by (intro move_step_inv) (auto simp: chan_inv'_def)
  moreover have "stop_inv s'"
    using assms(1) t(2) by (auto simp: chan_inv'_def stop_inv_def s' dest!: set_update_cases)
  ultimately show ?thesis by (simp add: chan_inv'_def)
qed

lemma notify_set:
  assumes "notify_one_of sleeping wake w (xs[t := v]) = Some ys" "p \<in> set ys"
    and "p = Stop_notify_producers \<or> p = Stop_notify_consumers" "v \<noteq> p"
  shows "p \<in> set xs"
proof -
  have wk: "wake q = p \<Longrightarrow> q = p" for q using assms(3) by (cases q) auto
  have "p \<in> set (xs[t := v])"
    using assms(1) assms(2)
    by (cases rule: notify_one_of_cases) (auto dest!: set_update_cases simp: wk, metis wk nth_mem length_list_update)
  then show ?thesis using assms(4) by (auto dest: set_update_cases)
qed

lemma chan_send_step_inv:
  assumes "chan_inv' capacity s" "t < length (cs_pcs s)" "cs_pcs s ! t = Send_lock x"
    and "chan_send_step t w x s = Some s'"
  shows "chan_inv' capacity s'"
proof -
  have i: "chan_inv capacity s" "stop_inv s" using assms(1) by (auto simp: chan_inv'_def)
  have lock: "cs_lock s = None" using assms(4) by (auto split: if_splits)
  consider "\<not> send_ready (cs_chan s)" | "send_ready (cs_chan s)" "ch_stop (cs_chan s)"
    | "send_ready (cs_chan s)" "\<not> ch_stop (cs_chan s)" by blast
  then show ?thesis
  proof cases
    case 1
    then have s': "s' = s\<lparr>cs_lock := Some t, cs_pcs := (cs_pcs s)[t := Send_checked x]\<rparr>"
      using assms(4) lock by simp
    have "chan_inv capacity s'" unfolding s'
      using assms(2,3) lock 1 by (intro check_step_inv [OF i(1)]) auto
    then show ?thesis
      using i(2) by (auto simp: chan_inv'_def stop_inv_def s' dest!: set_update_cases)
  next
    case 2
    then have s': "s' = s\<lparr>cs_pcs := (cs_pcs s)[t := Send_done False]\<rparr>"
      using assms(4) lock by (simp add: send_body_def)
    have "chan_inv capacity s'" unfolding s'
      using assms(2,3) 2 by (intro move_step_inv [OF i(1)]) auto
    then show ?thesis by (simp add: chan_inv'_def stop_inv_def s' 2)
  next
    case 3
    then obtain pcs where n: "notify_one_of consumer_asleep wake w ((cs_pcs s)[t := Send_done True]) = Some pcs"
      and s': "s' = s\<lparr>cs_chan := (cs_chan s)\<lparr>ch_queue := ch_queue (cs_chan s) @ [x]\<rparr>, cs_pcs := pcs,
        cs_sent := cs_sent s @ [x]\<rparr>"
      using assms(4) lock by (auto simp: send_body_def split: option.splits)
    have "chan_inv capacity s'" unfolding s'
      by (rule send_step_inv [OF i(1) assms(2,3) lock 3 n])
    moreover have "stop_inv s'"
    proof (rule stop_inv_subset [OF i(2)])
      fix p assume "p \<in> set (cs_pcs s')" "p = Stop_notify_producers \<or> p = Stop_notify_consumers"
      then show "p \<in> set (cs_pcs s) \<or> ch_stop (cs_chan s')"
        using notify_set [OF n, of p] by (simp add: s') blast
    qed (simp add: s')
    ultimately show ?thesis by (simp add: chan_inv'_def)
  qed
qed

lemma chan_recv_step_inv:
  assumes "chan_inv' capacity s" "t < length (cs_pcs s)" "cs_pcs s ! t = Recv_lock"
    and "chan_recv_step t w s = Some s'"
  shows "chan_inv' capacity s'"
proof -
  have i: "chan_inv capacity s" "stop_inv s" using assms(1) by (auto simp: chan_inv'_def)
  have lock: "cs_lock s = None" using assms(4) by (auto split: if_splits)
  consider "\<not> recv_ready (cs_chan s)" | "ch_stop (cs_chan s)" "ch_queue (cs_chan s) = []"
    | x q where "ch_queue (cs_chan s) = x # q"
    by (cases "ch_queue (cs_chan s)") (auto simp: recv_ready_def)
  then show ?thesis
  proof cases
    case 1
    then have s': "s' = s\<lparr>cs_lock := Some t, cs_pcs := (cs_pcs s)[t := Recv_checked]\<rparr>"
      using assms(4) lock by simp
    have "chan_inv capacity s'" unfolding s'
      using assms(2,3) lock 1 by (intro check_step_inv [OF i(1)]) auto
    then show ?thesis
      using i(2) by (auto simp: chan_inv'_def stop_inv_def s' dest!: set_update_cases)
  next
    case 2
    then have s': "s' = s\<lparr>cs_pcs := (cs_pcs s)[t := Recv_done None]\<rparr>"
      using assms(4) lock by (simp add: recv_body_def recv_ready_def)
    have "chan_inv capacity s'" unfolding s'
      using assms(2,3) 2 by (intro move_step_inv [OF i(1)]) auto
    then show ?thesis by (simp add: chan_inv'_def stop_inv_def s' 2)
  next
    case 3
    then obtain pcs where n: "notify_one_of producer_asleep wake w ((cs_pcs s)[t := Recv_done (Some x)]) = Some pcs"
      and s': "s' = s\<lparr>cs_chan := (cs_chan s)\<lparr>ch_queue := q\<rparr>, cs_pcs := pcs, cs_received := cs_received s @ [x]\<rparr>"
      using assms(4) lock by (auto simp: recv_body_def recv_ready_def split: option.splits)
    have "chan_inv capacity s'" unfolding s'
      by (rule recv_step_inv [OF i(1) assms(2,3) lock 3 n])
    moreover have "stop_inv s'"
    proof (rule stop_inv_subset [OF i(2)])
      fix p assume "p \<in> set (cs_pcs s')" "p = Stop_notify_producers \<or> p = Stop_notify_consumers"
      then show "p \<in> set (cs_pcs s) \<or> ch_stop (cs_chan s')"
        using notify_set [OF n, of p] by (simp add: s') blast
    qed (simp add: s')
    ultimately show ?thesis by (simp add: chan_inv'_def)
  qed
qed

lemma chan_sleep_step_inv:
  assumes "chan_inv' capacity s" "t < length (cs_pcs s)"
    and "cs_pcs s ! t = Send_checked x \<and> p = Send_sleep x \<or> cs_pcs s ! t = Recv_checked \<and> p = Recv_sleep"
  shows "chan_inv' capacity (s\<lparr>cs_lock := None, cs_pcs := (cs_pcs s)[t := p]\<rparr>)"
  using assms sleep_step_inv [of capacity s t x p]
  by (auto simp: chan_inv'_def stop_inv_def dest!: set_update_cases)

lemma chan_step_inv:
  assumes "chan_inv' capacity s" "chan_step l s = Some s'"
  shows "chan_inv' capacity s'"
proof (cases l)
  case (Run t w)
  then have t: "t < length (cs_pcs s)" using assms(2) by (auto split: if_splits)
  note step = assms(2) [unfolded Run chan_step.simps]
  show ?thesis
  proof (cases "cs_pcs s ! t")
    case (Send_lock x)
    then show ?thesis using step t by (intro chan_send_step_inv [OF assms(1) t]) auto
  next
    case (Send_checked x)
    then show ?thesis using step t chan_sleep_step_inv [OF assms(1) t, of x "Send_sleep x"] by simp
  next
    case Recv_lock
    then show ?thesis using step t by (intro chan_recv_step_inv [OF assms(1) t]) auto
  next
    case Recv_checked
    then show ?thesis using step t chan_sleep_step_inv [OF assms(1) t, of _ Recv_sleep] by simp
  qed (use step t in \<open>auto intro!: chan_stop_step_inv [OF assms(1) t]\<close>)
qed (use assms chan_call_inv chan_spurious_inv in blast)+

interpretation chan: invariant_system chan_step "chan_start capacity threads" "chan_inv' capacity"
  for capacity threads
proof unfold_locales
  show "chan_inv' capacity (chan_start capacity threads)"
    by (auto simp: chan_inv'_def chan_inv_def mutex_inv_def flow_inv_def wake_inv_def stop_inv_def
        chan_start_def CSPChannel_new_def count_if_0 limit_def)
qed (rule chan_step_inv)

subsection \<open>Properties\<close>

text \<open>
  (C26) The channel is a bounded first-in first-out buffer under every schedule: what was received
  followed by what is buffered is what was sent, in order, and the buffer never holds more than the
  capacity (one element when the capacity is zero), \<open>stop\<close> or not.
\<close>

theorem channel_is_bounded_fifo:
  assumes "reach chan_step (chan_start capacity threads) s"
  shows "cs_sent s = cs_received s @ ch_queue (cs_chan s) \<and>
    length (ch_queue (cs_chan s)) \<le> max 1 (unat capacity)"
  using chan.inv_reach [OF assms]
  by (auto simp: chan_inv'_def chan_inv_def flow_inv_def limit_def)

text \<open>
  (C27) No lost wake-up while the channel runs: in every reachable state before \<open>stop\<close>, if a consumer
  sleeps although the buffer holds an element, or a producer sleeps although there is room, then a
  thread of the same kind is awake and on its way to the mutex.
\<close>

theorem channel_no_lost_wakeup:
  assumes "reach chan_step (chan_start capacity threads) s" "\<not> ch_stop (cs_chan s)"
  shows "(ch_queue (cs_chan s) \<noteq> [] \<and> (\<exists>p\<in>set (cs_pcs s). consumer_asleep p) \<longrightarrow>
      (\<exists>p\<in>set (cs_pcs s). consumer_awake p)) \<and>
    (send_ready (cs_chan s) \<and> (\<exists>p\<in>set (cs_pcs s). producer_asleep p) \<longrightarrow>
      (\<exists>p\<in>set (cs_pcs s). producer_awake p))"
proof -
  have i: "wake_inv s" "length (ch_queue (cs_chan s)) \<le> limit (cs_chan s)"
    using chan.inv_reach [OF assms(1)] by (auto simp: chan_inv'_def chan_inv_def flow_inv_def)
  have "send_ready (cs_chan s) \<longleftrightarrow> 0 < room (cs_chan s)"
    using send_ready_room assms(2) i(2) by blast
  then show ?thesis
    using i(1) assms(2) count_if_0 [of consumer_asleep "cs_pcs s"] count_if_0 [of producer_asleep "cs_pcs s"]
      count_if_0 [of consumer_awake "cs_pcs s"] count_if_0 [of producer_awake "cs_pcs s"]
    by (auto simp: wake_inv_def)
qed

text \<open>
  \<open>stop\<close> can leave a consumer asleep for ever: it stores \<open>stop_\<close> and notifies without the mutex,
  so both can fall between the consumer's evaluation of the predicate and its sleep. In the state
  this schedule reaches, \<open>stop\<close> has returned, the consumer sleeps, and no thread can take a step of
  its own.
\<close>

theorem channel_stop_loses_wakeup:
  "\<exists>s. run_labels chan_step
        [Call 0 Recv_lock, Run 0 0, Call 1 Stop_store, Run 1 0, Run 1 0, Run 1 0, Run 0 0]
        (chan_start 1 2 :: int channel_state) = Some s \<and>
     ch_stop (cs_chan s) \<and> cs_pcs s = [Recv_sleep, Stopped] \<and> (\<forall>t w. chan_step (Run t w) s = None)"
  by (simp add: chan_start_def CSPChannel_new_def numeral_2_eq_2 recv_ready_def notify_all_of_def
      less_Suc_eq nth_Cons split: nat.splits)

theorem channel_is_bounded_fifo_witness:
  "\<exists>s. run_labels chan_step [Call 0 Recv_lock, Run 0 0, Run 0 0, Call 1 (Send_lock (5::int)), Run 1 0, Run 0 0]
        (chan_start 1 2) = Some s \<and> cs_sent s = [5] \<and> cs_received s = [5] \<and>
     length (ch_queue (cs_chan s)) \<le> max 1 (unat (1 :: size_t))"
proof -
  let ?s = "\<lparr>cs_chan = \<lparr>ch_queue = [], ch_capacity = 1, ch_stop = False\<rparr>, cs_lock = None,
      cs_pcs = [Recv_done (Some 5), Send_done True], cs_sent = [5], cs_received = [5::int]\<rparr>"
  have run: "run_labels chan_step [Call 0 Recv_lock, Run 0 0, Run 0 0, Call 1 (Send_lock (5::int)), Run 1 0, Run 0 0]
        (chan_start 1 2) = Some ?s"
    by (simp add: chan_start_def CSPChannel_new_def numeral_2_eq_2 recv_ready_def recv_body_def send_ready_def
        send_body_def notify_one_of_def count_if_def)
  show ?thesis using run channel_is_bounded_fifo [OF run_labels_reach [OF run]] by simp
qed

theorem channel_no_lost_wakeup_witness:
  "\<exists>s. run_labels chan_step [Call 0 Recv_lock, Run 0 0, Run 0 0, Call 1 (Send_lock (5::int)), Run 1 0]
        (chan_start 1 3) = Some s \<and> ch_queue (cs_chan s) = [5] \<and> cs_pcs s = [Recv_lock, Send_done True, Stopped] \<and>
     ((\<exists>p\<in>set (cs_pcs s). consumer_asleep p) \<longrightarrow> (\<exists>p\<in>set (cs_pcs s). consumer_awake p))"
proof -
  let ?s = "\<lparr>cs_chan = \<lparr>ch_queue = [5], ch_capacity = 1, ch_stop = False\<rparr>, cs_lock = None,
      cs_pcs = [Recv_lock, Send_done True, Stopped], cs_sent = [5], cs_received = [] :: int list\<rparr>"
  have run: "run_labels chan_step [Call 0 Recv_lock, Run 0 0, Run 0 0, Call 1 (Send_lock (5::int)), Run 1 0]
        (chan_start 1 3) = Some ?s"
    by (simp add: chan_start_def CSPChannel_new_def numeral_3_eq_3 recv_ready_def send_ready_def
        send_body_def notify_one_of_def count_if_def)
  show ?thesis using run channel_no_lost_wakeup [OF run_labels_reach [OF run]] by simp
qed

end
