(* ===== verification/Thread_Pool.thy ===== *)
theory Thread_Pool
  imports Cxx_Prelude
begin

text \<open>
  \<open>include/ThreadPool.hpp\<close>: the worker threads, \<open>commit\<close> and \<open>stop\<close> as a step machine. A task is a
  value of the type \<open>'a\<close>; \<open>pool_started\<close> and \<open>pool_committed\<close> record the tasks in the order they were
  taken from and put into the queue. The number of hardware threads is a parameter.

  \<open>commit\<close> reads \<open>stop_\<close>, puts the task into the queue under the mutex and notifies after it has
  released the mutex. \<open>stop\<close> stores and notifies without the mutex and then joins the workers. A
  worker that found the wait predicate false holds the mutex until it sleeps.
\<close>

datatype 'a pool_pc =
    Work_loop | Work_lock | Work_checked | Work_sleep | Work_take 'a | Work_task 'a | Work_count | Work_exit
  | Commit_load 'a | Commit_push 'a | Commit_notify | Commit_done bool
  | Stop_store | Stop_notify | Stop_join | Stop_done

record 'a pool =
  pool_stop :: bool
  pool_thread_num :: int
  pool_tasks :: "'a list"
  pool_lock :: "thread_id option"
  pool_pcs :: "'a pool_pc list"
  pool_committed :: "'a list"
  pool_started :: "'a list"

definition pool_size :: "nat \<Rightarrow> nat" where
  "pool_size hardware_concurrency = (if hardware_concurrency > 1 then hardware_concurrency else 1)"

text \<open>The constructor starts the workers; the other threads are \<open>clients\<close> that have no call open.\<close>

definition ThreadPool_new :: "nat \<Rightarrow> nat \<Rightarrow> 'a pool" where
  "ThreadPool_new hardware_concurrency clients =
     \<lparr>pool_stop = False, pool_thread_num = int (pool_size hardware_concurrency), pool_tasks = [],
      pool_lock = None,
      pool_pcs = replicate (pool_size hardware_concurrency) Work_loop @ replicate clients Stop_done,
      pool_committed = [], pool_started = []\<rparr>"

fun worker_asleep :: "'a pool_pc \<Rightarrow> bool" where
  "worker_asleep Work_sleep = True"
| "worker_asleep _ = False"

fun wake_worker :: "'a pool_pc \<Rightarrow> 'a pool_pc" where
  "wake_worker Work_sleep = Work_lock"
| "wake_worker p = p"

fun is_worker :: "'a pool_pc \<Rightarrow> bool" where
  "is_worker Work_loop = True"
| "is_worker Work_lock = True"
| "is_worker Work_checked = True"
| "is_worker Work_sleep = True"
| "is_worker (Work_take x) = True"
| "is_worker (Work_task x) = True"
| "is_worker Work_count = True"
| "is_worker _ = False"

definition goto :: "thread_id \<Rightarrow> 'a pool_pc \<Rightarrow> 'a pool \<Rightarrow> 'a pool" where
  "goto t p s = s\<lparr>pool_pcs := (pool_pcs s)[t := p]\<rparr>"

text \<open>The body of a worker thread.\<close>

fun worker_step :: "thread_id \<Rightarrow> 'a pool \<Rightarrow> 'a pool option" where
  "worker_step t s =
     (case pool_pcs s ! t of
        Work_loop \<Rightarrow> Some (goto t (if pool_stop s then Work_exit else Work_lock) s)
      | Work_lock \<Rightarrow>
          (if pool_lock s \<noteq> None then None
           else case pool_tasks s of
             [] \<Rightarrow> (if pool_stop s then Some (goto t Work_exit s)
                   else Some (goto t Work_checked (s\<lparr>pool_lock := Some t\<rparr>)))
           | task # rest \<Rightarrow>
               Some (goto t (Work_take task) (s\<lparr>pool_tasks := rest, pool_started := pool_started s @ [task]\<rparr>)))
      | Work_checked \<Rightarrow> Some (goto t Work_sleep (s\<lparr>pool_lock := None\<rparr>))
      | Work_take task \<Rightarrow> Some (goto t (Work_task task) (s\<lparr>pool_thread_num := pool_thread_num s - 1\<rparr>))
      | Work_task task \<Rightarrow> Some (goto t Work_count s)
      | Work_count \<Rightarrow> Some (goto t Work_loop (s\<lparr>pool_thread_num := pool_thread_num s + 1\<rparr>))
      | _ \<Rightarrow> None)"

text \<open>\<open>commit\<close> returns an invalid future, \<open>Commit_done False\<close>, when the pool is stopped.\<close>

fun commit_step :: "thread_id \<Rightarrow> thread_id \<Rightarrow> 'a pool \<Rightarrow> 'a pool option" where
  "commit_step t w s =
     (case pool_pcs s ! t of
        Commit_load task \<Rightarrow> Some (goto t (if pool_stop s then Commit_done False else Commit_push task) s)
      | Commit_push task \<Rightarrow>
          (if pool_lock s \<noteq> None then None
           else Some (goto t Commit_notify (s\<lparr>pool_tasks := pool_tasks s @ [task],
                  pool_committed := pool_committed s @ [task]\<rparr>)))
      | Commit_notify \<Rightarrow>
          (case notify_one_of worker_asleep wake_worker w ((pool_pcs s)[t := Commit_done True]) of
             None \<Rightarrow> None | Some pcs \<Rightarrow> Some (s\<lparr>pool_pcs := pcs\<rparr>))
      | _ \<Rightarrow> None)"

fun stop_step :: "thread_id \<Rightarrow> 'a pool \<Rightarrow> 'a pool option" where
  "stop_step t s =
     (case pool_pcs s ! t of
        Stop_store \<Rightarrow> Some (goto t Stop_notify (s\<lparr>pool_stop := True\<rparr>))
      | Stop_notify \<Rightarrow>
          Some (s\<lparr>pool_pcs := notify_all_of worker_asleep wake_worker ((pool_pcs s)[t := Stop_join])\<rparr>)
      | Stop_join \<Rightarrow> (if count_if is_worker (pool_pcs s) = 0 then Some (goto t Stop_done s) else None)
      | _ \<Rightarrow> None)"

datatype 'a pool_label = Run thread_id thread_id | Commit thread_id 'a | Stop thread_id | Spurious_wakeup thread_id

fun pool_idle :: "'a pool_pc \<Rightarrow> bool" where
  "pool_idle (Commit_done b) = True"
| "pool_idle Stop_done = True"
| "pool_idle _ = False"

fun pool_step :: "'a pool_label \<Rightarrow> 'a pool \<Rightarrow> 'a pool option" where
  "pool_step (Run t w) s =
     (if t < length (pool_pcs s)
      then (if is_worker (pool_pcs s ! t) then worker_step t s
            else case commit_step t w s of Some s' \<Rightarrow> Some s' | None \<Rightarrow> stop_step t s)
      else None)"
| "pool_step (Commit t task) s =
     (if t < length (pool_pcs s) \<and> pool_idle (pool_pcs s ! t) then Some (goto t (Commit_load task) s) else None)"
| "pool_step (Stop t) s =
     (if t < length (pool_pcs s) \<and> pool_idle (pool_pcs s ! t) then Some (goto t Stop_store s) else None)"
| "pool_step (Spurious_wakeup t) s =
     (if t < length (pool_pcs s) \<and> worker_asleep (pool_pcs s ! t) then Some (goto t Work_lock s) else None)"

subsection \<open>Invariants\<close>

fun worker_awake :: "'a pool_pc \<Rightarrow> bool" where
  "worker_awake Work_lock = True"
| "worker_awake Work_checked = True"
| "worker_awake _ = False"

fun will_notify :: "'a pool_pc \<Rightarrow> bool" where
  "will_notify Commit_notify = True"
| "will_notify _ = False"

fun busy :: "'a pool_pc \<Rightarrow> bool" where
  "busy (Work_task x) = True"
| "busy Work_count = True"
| "busy _ = False"

fun stop_called :: "'a pool_pc \<Rightarrow> bool" where
  "stop_called Stop_notify = True"
| "stop_called _ = False"

text \<open>
  The tasks taken are the first tasks committed; \<open>thread_num_\<close> is the number of threads that are not
  running a task; a worker about to sleep holds the mutex and there is no task; and before \<open>stop\<close>
  sleeping workers are outnumbered by the workers and notifications on their way.
\<close>

definition pool_flow_inv :: "nat \<Rightarrow> 'a pool \<Rightarrow> bool" where
  "pool_flow_inv n s \<longleftrightarrow> pool_committed s = pool_started s @ pool_tasks s \<and>
     pool_thread_num s + int (count_if busy (pool_pcs s)) = int n"

definition pool_mutex_inv :: "'a pool \<Rightarrow> bool" where
  "pool_mutex_inv s \<longleftrightarrow> (\<forall>t<length (pool_pcs s). pool_pcs s ! t = Work_checked \<longrightarrow>
     pool_lock s = Some t \<and> pool_tasks s = [])"

definition pool_wake_inv :: "'a pool \<Rightarrow> bool" where
  "pool_wake_inv s \<longleftrightarrow> pool_stop s \<or> count_if worker_asleep (pool_pcs s) = 0 \<or>
     length (pool_tasks s) \<le> count_if worker_awake (pool_pcs s) + count_if will_notify (pool_pcs s)"

definition pool_inv :: "nat \<Rightarrow> 'a pool \<Rightarrow> bool" where
  "pool_inv n s \<longleftrightarrow> pool_flow_inv n s \<and> pool_mutex_inv s \<and> pool_wake_inv s \<and>
     (0 < count_if stop_called (pool_pcs s) \<longrightarrow> pool_stop s)"

lemmas pool_inv_defs = pool_inv_def pool_flow_inv_def pool_mutex_inv_def pool_wake_inv_def

lemmas pool_counts =
  count_if_update [where P = busy] count_if_update [where P = worker_asleep]
  count_if_update [where P = worker_awake] count_if_update [where P = will_notify]
  count_if_update [where P = stop_called]

lemma goto_fields [simp]:
  "pool_stop (goto t p s) = pool_stop s" "pool_thread_num (goto t p s) = pool_thread_num s"
  "pool_tasks (goto t p s) = pool_tasks s" "pool_lock (goto t p s) = pool_lock s"
  "pool_committed (goto t p s) = pool_committed s" "pool_started (goto t p s) = pool_started s"
  "pool_pcs (goto t p s) = (pool_pcs s)[t := p]"
  by (simp_all add: goto_def)

lemma mutex_inv_goto:
  assumes "pool_mutex_inv s" "t < length (pool_pcs s)" "p \<noteq> Work_checked"
    and "pool_lock s' = pool_lock s \<or> pool_pcs s ! t = Work_checked" "pool_tasks s' = pool_tasks s \<or> pool_lock s = None"
    and "pool_pcs s' = (pool_pcs s)[t := p]"
  shows "pool_mutex_inv s'"
  unfolding pool_mutex_inv_def
proof (intro allI impI)
  fix u assume u: "u < length (pool_pcs s')" "pool_pcs s' ! u = Work_checked"
  then have "u \<noteq> t" "pool_pcs s ! u = Work_checked" "u < length (pool_pcs s)"
    using assms(2,3,6) by (auto simp: nth_list_update split: if_splits)
  moreover have "pool_lock s = Some u" "pool_tasks s = []"
    using assms(1) calculation by (auto simp: pool_mutex_inv_def)
  moreover have "pool_lock s = Some t" if "pool_pcs s ! t = Work_checked"
    using assms(1,2) that by (auto simp: pool_mutex_inv_def)
  ultimately show "pool_lock s' = Some u \<and> pool_tasks s' = []"
    using assms(4,5) by auto
qed

text \<open>The step that takes the mutex: it takes a task, goes to sleep or leaves.\<close>

lemma worker_lock_inv:
  assumes "pool_inv n s" "t < length (pool_pcs s)" "worker_step t s = Some s'" and Work_lock: "pool_pcs s ! t = Work_lock"
  shows "pool_inv n s'"
proof -
  note counts = pool_counts [OF assms(2)]
  have m: "pool_mutex_inv s" using assms(1) by (simp add: pool_inv_def)
  show ?thesis
  proof (cases "pool_tasks s")
    case Nil
    show ?thesis
    proof (cases "pool_stop s")
      case True
      then show ?thesis
        using assms(1,2,3) Work_lock Nil counts [of Work_exit] mutex_inv_goto [OF m assms(2), of Work_exit s']
        by (auto simp: pool_inv_def pool_flow_inv_def pool_wake_inv_def split: if_splits)
    next
      case False
      then have s': "s' = goto t Work_checked (s\<lparr>pool_lock := Some t\<rparr>)" "pool_lock s = None"
        using assms(3) Work_lock Nil by (auto split: if_splits)
      then have "pool_mutex_inv s'"
        using m assms(2) Nil by (auto simp: pool_mutex_inv_def nth_list_update)
      then show ?thesis
        using assms(1) Work_lock Nil counts [of Work_checked]
        by (auto simp: pool_inv_def pool_flow_inv_def pool_wake_inv_def s')
    qed
  next
    case (Cons task rest)
    then have s': "s' = goto t (Work_take task) (s\<lparr>pool_tasks := rest, pool_started := pool_started s @ [task]\<rparr>)"
      "pool_lock s = None"
      using assms(3) Work_lock by (auto split: if_splits)
    have "pool_mutex_inv s'" by (rule mutex_inv_goto [OF m assms(2), where p = "Work_take task"]) (simp_all add: s')
    then show ?thesis
      using assms(1) Work_lock Cons counts [of "Work_take task"]
      by (auto simp: pool_inv_def pool_flow_inv_def pool_wake_inv_def s')
  qed
qed

lemma worker_step_inv:
  assumes "pool_inv n s" "t < length (pool_pcs s)" "worker_step t s = Some s'"
  shows "pool_inv n s'"
proof -
  note counts = pool_counts [OF assms(2)]
  have m: "pool_mutex_inv s" using assms(1) by (simp add: pool_inv_def)
  show ?thesis
  proof (cases "pool_pcs s ! t")
    case Work_loop
    then show ?thesis
      using assms counts [of "if pool_stop s then Work_exit else Work_lock"]
        mutex_inv_goto [OF m assms(2), of "if pool_stop s then Work_exit else Work_lock" s']
      by (auto simp: pool_inv_def pool_flow_inv_def pool_wake_inv_def split: if_splits)
  next
    case Work_lock
    then show ?thesis by (rule worker_lock_inv [OF assms])
  next
    case Work_checked
    then have s': "s' = goto t Work_sleep (s\<lparr>pool_lock := None\<rparr>)" "pool_tasks s = []"
      using assms(2,3) m by (auto simp: pool_mutex_inv_def)
    have "pool_mutex_inv s'"
      by (rule mutex_inv_goto [OF m assms(2), where p = Work_sleep]) (simp_all add: s' Work_checked)
    then show ?thesis
      using assms(1) Work_checked s'(2) counts [of Work_sleep]
      by (auto simp: pool_inv_def pool_flow_inv_def pool_wake_inv_def s'(1))
  next
    case (Work_take task)
    then show ?thesis
      using assms counts [of "Work_task task"] mutex_inv_goto [OF m assms(2), of "Work_task task" s']
      by (auto simp: pool_inv_def pool_flow_inv_def pool_wake_inv_def)
  next
    case (Work_task task)
    then show ?thesis
      using assms counts [of Work_count] mutex_inv_goto [OF m assms(2), of Work_count s']
      by (auto simp: pool_inv_def pool_flow_inv_def pool_wake_inv_def)
  next
    case Work_count
    then show ?thesis
      using assms counts [of Work_loop] mutex_inv_goto [OF m assms(2), of Work_loop s']
      by (auto simp: pool_inv_def pool_flow_inv_def pool_wake_inv_def)
  qed (use assms(3) in auto)
qed

lemma client_goto_inv:
  assumes "pool_inv n s" "t < length (pool_pcs s)" "\<not> is_worker (pool_pcs s ! t)" "\<not> is_worker p"
    and "will_notify (pool_pcs s ! t) \<longrightarrow> pool_stop s" "stop_called p \<longrightarrow> pool_stop s"
  shows "pool_inv n (goto t p s)"
proof -
  have m: "pool_mutex_inv s" and p: "p \<noteq> Work_checked" using assms(1,4) by (auto simp: pool_inv_def)
  have "pool_mutex_inv (goto t p s)" by (rule mutex_inv_goto [OF m assms(2) p]) simp_all
  moreover have cl: "\<not> busy q" "\<not> worker_asleep q" "\<not> worker_awake q" if "\<not> is_worker q" for q :: "'a pool_pc"
    using that by (cases q; simp)+
  note c = pool_counts [OF assms(2), of p, unfolded cl(1,2,3) [OF assms(3)] cl(1,2,3) [OF assms(4)]]
  have "count_if busy ((pool_pcs s)[t := p]) = count_if busy (pool_pcs s)"
    "count_if worker_asleep ((pool_pcs s)[t := p]) = count_if worker_asleep (pool_pcs s)"
    "count_if worker_awake ((pool_pcs s)[t := p]) = count_if worker_awake (pool_pcs s)"
    using c(1-3) cl [OF assms(3)] cl [OF assms(4)] by simp_all
  moreover have "pool_stop s \<or> count_if will_notify (pool_pcs s) \<le> count_if will_notify ((pool_pcs s)[t := p])"
    using c(4) assms(5) by (auto split: if_splits)
  moreover have "0 < count_if stop_called ((pool_pcs s)[t := p]) \<longrightarrow> pool_stop s"
    using c(5) assms(1,6) by (auto simp: pool_inv_def split: if_splits)
  ultimately show ?thesis
    using assms(1) by (auto simp: pool_inv_def pool_flow_inv_def pool_wake_inv_def)
qed

lemma worker_asleep_iff: "worker_asleep p \<longleftrightarrow> p = Work_sleep"
  by (cases p) auto

lemma commit_step_inv:
  assumes "pool_inv n s" "t < length (pool_pcs s)" "commit_step t w s = Some s'"
  shows "pool_inv n s'"
proof -
  have m: "pool_mutex_inv s" using assms(1) by (simp add: pool_inv_def)
  show ?thesis
  proof (cases "pool_pcs s ! t")
    case (Commit_load task)
    then show ?thesis
      using assms client_goto_inv [OF assms(1,2), of "Commit_done False"]
        client_goto_inv [OF assms(1,2), of "Commit_push task"] by (auto split: if_splits)
  next
    case (Commit_push task)
    then have s': "s' = goto t Commit_notify (s\<lparr>pool_tasks := pool_tasks s @ [task], pool_committed := pool_committed s @ [task]\<rparr>)"
      "pool_lock s = None" using assms(3) by (auto split: if_splits)
    have "pool_mutex_inv s'" by (rule mutex_inv_goto [OF m assms(2), where p = Commit_notify]) (simp_all add: s')
    then show ?thesis
      using assms(1) Commit_push pool_counts [OF assms(2), of Commit_notify]
      by (auto simp: pool_inv_def pool_flow_inv_def pool_wake_inv_def s'(1))
  next
    case Commit_notify
    let ?xs = "(pool_pcs s)[t := Commit_done True]"
    obtain pcs where n: "notify_one_of worker_asleep wake_worker w ?xs = Some pcs" and s': "s' = s\<lparr>pool_pcs := pcs\<rparr>"
      using assms(3) Commit_notify by (auto split: option.splits)
    have m1: "pool_mutex_inv (goto t (Commit_done True) s)"
      by (rule mutex_inv_goto [OF m assms(2), where p = "Commit_done True"]) simp_all
    note c1 = pool_counts [OF assms(2), of "Commit_done True"]
    from n show ?thesis
    proof (cases rule: notify_one_of_cases)
      case 1
      have "s' = goto t (Commit_done True) s" by (simp add: s' 1 goto_def)
      then show ?thesis
        using assms(1) Commit_notify c1 1 m1 by (auto simp: pool_inv_def pool_flow_inv_def pool_wake_inv_def)
    next
      case 2
      have w: "?xs ! w = Work_sleep" using 2(2) by (simp add: worker_asleep_iff)
      have s2: "s' = goto w Work_lock (goto t (Commit_done True) s)"
        by (simp add: s' 2(3) w goto_def)
      have "pool_mutex_inv s'"
        using 2(1) w unfolding s2
        by (intro mutex_inv_goto [OF m1, where t = w and p = Work_lock]) auto
      then show ?thesis
        using assms(1) Commit_notify c1 pool_counts [OF 2(1), of Work_lock] w
        by (auto simp: pool_inv_def pool_flow_inv_def pool_wake_inv_def s2)
    qed
  qed (use assms(3) in auto)
qed

lemma stop_step_inv:
  assumes "pool_inv n s" "t < length (pool_pcs s)" "stop_step t s = Some s'"
  shows "pool_inv n s'"
proof -
  have m: "pool_mutex_inv s" using assms(1) by (simp add: pool_inv_def)
  show ?thesis
  proof (cases "pool_pcs s ! t")
    case Stop_store
    then have s': "s' = goto t Stop_notify (s\<lparr>pool_stop := True\<rparr>)" using assms(3) by simp
    have "pool_mutex_inv s'" by (rule mutex_inv_goto [OF m assms(2), where p = Stop_notify]) (simp_all add: s')
    then show ?thesis
      using assms(1) Stop_store pool_counts [OF assms(2), of Stop_notify]
      by (auto simp: pool_inv_def pool_flow_inv_def pool_wake_inv_def s')
  next
    case Stop_notify
    let ?xs = "(pool_pcs s)[t := Stop_join]"
    have s': "s' = s\<lparr>pool_pcs := notify_all_of worker_asleep wake_worker ?xs\<rparr>" using assms(3) Stop_notify by simp
    have stop: "pool_stop s" using assms(1,2) Stop_notify count_if_pos [OF assms(2), of stop_called] by (simp add: pool_inv_def)
    have b: "(if worker_asleep p then wake_worker p else p) = Work_checked \<longleftrightarrow> p = Work_checked"
      "busy (if worker_asleep p then wake_worker p else p) = busy p" for p :: "'a pool_pc"
      by (cases p; simp)+
    have "count_if busy (notify_all_of worker_asleep wake_worker ?xs) = count_if busy ?xs"
      by (simp add: count_if_def notify_all_of_def filter_map o_def b)
    moreover have "pool_mutex_inv s'"
      using mutex_inv_goto [OF m assms(2), of Stop_join "goto t Stop_join s"]
      by (auto simp: pool_mutex_inv_def s' notify_all_of_def b)
    ultimately show ?thesis
      using assms(1) stop Stop_notify pool_counts [OF assms(2), of Stop_join]
      by (auto simp: pool_inv_def pool_flow_inv_def pool_wake_inv_def s')
  next
    case Stop_join
    then show ?thesis
      using assms(3) client_goto_inv [OF assms(1,2), of Stop_done] by (auto split: if_splits)
  qed (use assms(3) in auto)
qed

lemma pool_step_inv:
  assumes "pool_inv n s" "pool_step l s = Some s'"
  shows "pool_inv n s'"
proof (cases l)
  case (Run t w)
  then show ?thesis
    using assms worker_step_inv [OF assms(1)] commit_step_inv [OF assms(1)] stop_step_inv [OF assms(1)]
    by (auto split: if_splits option.splits simp del: worker_step.simps commit_step.simps stop_step.simps)
next
  case (Commit t task)
  then show ?thesis
    using assms client_goto_inv [OF assms(1), of t "Commit_load task"]
    by (auto split: if_splits elim!: pool_idle.elims)
next
  case (Stop t)
  then show ?thesis
    using assms client_goto_inv [OF assms(1), of t Stop_store]
    by (auto split: if_splits elim!: pool_idle.elims)
next
  case (Spurious_wakeup t)
  then have t: "t < length (pool_pcs s)" "pool_pcs s ! t = Work_sleep" "s' = goto t Work_lock s"
    using assms(2) by (auto simp: worker_asleep_iff split: if_splits)
  have m: "pool_mutex_inv s" using assms(1) by (simp add: pool_inv_def)
  have "pool_mutex_inv (goto t Work_lock s)" by (rule mutex_inv_goto [OF m t(1), where p = Work_lock]) simp_all
  with t show ?thesis
    using assms(1) pool_counts [OF t(1), of Work_lock] by (auto simp: pool_inv_def pool_flow_inv_def pool_wake_inv_def)
qed

lemma pool_inv_new: "pool_inv (pool_size hw) (ThreadPool_new hw clients :: 'a pool)"
proof -
  let ?pcs = "replicate (pool_size hw) Work_loop @ replicate clients Stop_done :: 'a pool_pc list"
  have "?pcs ! t \<noteq> Work_checked" if "t < length ?pcs" for t
    using nth_mem [OF that] by auto
  moreover have "count_if busy ?pcs = 0" "count_if worker_asleep ?pcs = 0" "count_if stop_called ?pcs = 0"
    by (simp_all add: count_if_def)
  ultimately show ?thesis by (simp add: pool_inv_defs ThreadPool_new_def)
qed

interpretation pool: invariant_system pool_step "ThreadPool_new hw clients" "pool_inv (pool_size hw)"
  for hw clients
  by unfold_locales (rule pool_inv_new, rule pool_step_inv)

subsection \<open>Properties\<close>

text \<open>
  (C28) Under every schedule the workers take the committed tasks in order, each at most once, and
  \<open>thread_num_\<close> is the size of the pool less the number of workers that are running a task.
\<close>

theorem pool_takes_tasks_in_order:
  assumes "reach pool_step (ThreadPool_new hw clients) s"
  shows "pool_committed s = pool_started s @ pool_tasks s \<and>
    pool_thread_num s = int (pool_size hw) - int (count_if busy (pool_pcs s))"
  using pool.inv_reach [OF assms] by (auto simp: pool_inv_def pool_flow_inv_def)

theorem pool_takes_tasks_in_order_witness:
  "\<exists>s. run_labels pool_step [Run 0 0, Run 0 0, Run 0 0, Commit 1 (7::int), Run 1 0, Run 1 0, Run 1 0, Run 0 0, Run 0 0]
        (ThreadPool_new 1 1) = Some s \<and>
     pool_pcs s = [Work_task 7, Commit_done True] \<and> pool_started s = [7] \<and> pool_thread_num s = 0"
proof -
  let ?s = "\<lparr>pool_stop = False, pool_thread_num = 0, pool_tasks = [], pool_lock = None,
      pool_pcs = [Work_task 7, Commit_done True], pool_committed = [7], pool_started = [7::int]\<rparr>"
  have run: "run_labels pool_step [Run 0 0, Run 0 0, Run 0 0, Commit 1 (7::int), Run 1 0, Run 1 0, Run 1 0, Run 0 0, Run 0 0]
        (ThreadPool_new 1 1) = Some ?s"
    by (simp add: ThreadPool_new_def pool_size_def goto_def notify_one_of_def count_if_def)
  show ?thesis
    using run pool_takes_tasks_in_order [OF run_labels_reach [OF run]] by simp
qed

text \<open>
  (C29) No lost wake-up before \<open>stop\<close>: if a worker sleeps while a task waits, then another worker is
  awake and on its way to the mutex or a \<open>commit\<close> is about to notify.
\<close>

theorem pool_no_lost_wakeup:
  assumes "reach pool_step (ThreadPool_new hw clients) s" "\<not> pool_stop s"
    and "pool_tasks s \<noteq> []" "Work_sleep \<in> set (pool_pcs s)"
  shows "\<exists>p\<in>set (pool_pcs s). worker_awake p \<or> p = Commit_notify"
proof -
  have "0 < count_if worker_asleep (pool_pcs s)"
    using assms(4) count_if_0 [of worker_asleep "pool_pcs s"] by force
  then have "length (pool_tasks s) \<le> count_if worker_awake (pool_pcs s) + count_if will_notify (pool_pcs s)"
    using pool.inv_reach [OF assms(1)] assms(2) by (auto simp: pool_inv_def pool_wake_inv_def)
  moreover have "0 < length (pool_tasks s)" using assms(3) by simp
  ultimately have "0 < count_if worker_awake (pool_pcs s) \<or> 0 < count_if will_notify (pool_pcs s)" by linarith
  then show ?thesis
    using count_if_0 [of worker_awake "pool_pcs s"] count_if_0 [of will_notify "pool_pcs s"]
    by (metis neq0_conv will_notify.elims(2))
qed

theorem pool_no_lost_wakeup_witness:
  "\<exists>s. run_labels pool_step [Run 0 0, Run 0 0, Run 0 0, Commit 1 (7::int), Run 1 0, Run 1 0]
        (ThreadPool_new 1 1) = Some s \<and> pool_tasks s = [7] \<and> Work_sleep \<in> set (pool_pcs s) \<and>
     (\<exists>p\<in>set (pool_pcs s). worker_awake p \<or> p = Commit_notify)"
proof -
  let ?s = "\<lparr>pool_stop = False, pool_thread_num = 1, pool_tasks = [7], pool_lock = None,
      pool_pcs = [Work_sleep, Commit_notify], pool_committed = [7], pool_started = [] :: int list\<rparr>"
  have run: "run_labels pool_step [Run 0 0, Run 0 0, Run 0 0, Commit 1 (7::int), Run 1 0, Run 1 0]
        (ThreadPool_new 1 1) = Some ?s"
    by (simp add: ThreadPool_new_def pool_size_def goto_def)
  have "\<exists>p\<in>set (pool_pcs ?s). worker_awake p \<or> p = Commit_notify"
    by (rule pool_no_lost_wakeup [OF run_labels_reach [OF run]]) simp_all
  with run show ?thesis by auto
qed

text \<open>
  \<open>stop\<close> can hang: its store and notification can fall between a worker's evaluation of the wait
  predicate and its sleep, because they do not take the mutex. The worker then sleeps for ever and
  \<open>stop\<close> waits for it in \<open>join\<close>: no thread can take a step.
\<close>

theorem pool_stop_hangs:
  "\<exists>s. run_labels pool_step [Run 0 0, Run 0 0, Stop 1, Run 1 0, Run 1 0, Run 0 0]
        (ThreadPool_new 1 1 :: int pool) = Some s \<and>
     pool_stop s \<and> pool_pcs s = [Work_sleep, Stop_join] \<and> (\<forall>t w. pool_step (Run t w) s = None)"
  by (simp add: ThreadPool_new_def pool_size_def goto_def notify_all_of_def count_if_def less_Suc_eq
      nth_Cons split: nat.splits)

text \<open>
  \<open>stop\<close> drops tasks: a worker that checks \<open>stop_\<close> before it looks into the queue leaves at once,
  so a task whose \<open>commit\<close> returned a valid future may never run.
\<close>

theorem pool_stop_drops_task:
  "\<exists>s. run_labels pool_step
        [Commit 1 (7::int), Run 1 0, Run 1 0, Run 1 0, Stop 2, Run 2 0, Run 2 0, Run 0 0, Run 2 0]
        (ThreadPool_new 1 2) = Some s \<and>
     pool_pcs s = [Work_exit, Commit_done True, Stop_done] \<and> pool_tasks s = [7] \<and> pool_started s = []"
  by (simp add: ThreadPool_new_def pool_size_def goto_def notify_all_of_def notify_one_of_def count_if_def
      numeral_2_eq_2)

end
