(* ===== verification/Asio_Thread_Pool.thy ===== *)
theory Asio_Thread_Pool
  imports Cxx_Prelude
begin

text \<open>
  \<open>include/AsioThreadPool.hpp\<close>: a fixed number of Boost \<open>io_context\<close>s with one thread and one work
  guard each. A context is the list of handlers posted to it; its thread runs them in order and, as
  documented by Boost, \<open>run\<close> returns only when no handler is left and the work guard is reset.
  \<open>getIoContext\<close> hands the contexts out in turn; the returned reference is the context's index.
\<close>

record 'h asio_pool =
  ap_contexts :: "'h list list"
  ap_executed :: "'h list list"
  ap_work_guards :: "bool list"
  ap_joinable :: "bool list"
  ap_next :: size_t

definition AsioThreadPool_new :: "size_t \<Rightarrow> 'h asio_pool" where
  "AsioThreadPool_new thread_num =
     \<lparr>ap_contexts = replicate (unat thread_num) [], ap_executed = replicate (unat thread_num) [],
      ap_work_guards = replicate (unat thread_num) True, ap_joinable = replicate (unat thread_num) True,
      ap_next = 0\<rparr>"

definition getIoContext :: "'h asio_pool \<Rightarrow> (nat \<times> 'h asio_pool) result" where
  "getIoContext p =
     (let i = ap_next p; n = ap_next p + 1 in
      if unat i < length (ap_contexts p)
      then Inr (unat i, p\<lparr>ap_next := (if unat n = length (ap_contexts p) then 0 else n)\<rparr>)
      else Inl Out_Of_Bounds)"

text \<open>A client posts a handler to a context; the thread of context \<open>i\<close> runs its next handler.\<close>

definition post :: "nat \<Rightarrow> 'h \<Rightarrow> 'h asio_pool \<Rightarrow> 'h asio_pool" where
  "post i h p = p\<lparr>ap_contexts := (ap_contexts p)[i := (ap_contexts p ! i) @ [h]]\<rparr>"

definition run_one :: "nat \<Rightarrow> 'h asio_pool \<Rightarrow> 'h asio_pool" where
  "run_one i p =
     (case ap_contexts p ! i of [] \<Rightarrow> p
      | h # hs \<Rightarrow> p\<lparr>ap_contexts := (ap_contexts p)[i := hs],
                   ap_executed := (ap_executed p)[i := ap_executed p ! i @ [h]]\<rparr>)"

text \<open>
  \<open>stop\<close>: the guards are reset and every thread is joined, which waits until its context has run dry.
  Joining a thread twice throws.
\<close>

fun join_all :: "nat list \<Rightarrow> 'h asio_pool \<Rightarrow> 'h asio_pool result" where
  "join_all [] p = Inr p"
| "join_all (i # is) p =
     (if ap_joinable p ! i
      then join_all is ((run_one i ^^ length (ap_contexts p ! i)) p\<lparr>ap_joinable := (ap_joinable p)[i := False]\<rparr>)
      else Inl Invalid_Argument)"

definition AsioThreadPool_stop :: "'h asio_pool \<Rightarrow> 'h asio_pool result" where
  "AsioThreadPool_stop p =
     join_all [0..<length (ap_joinable p)]
       (p\<lparr>ap_work_guards := replicate (length (ap_work_guards p)) False\<rparr>)"

fun getIoContexts :: "nat \<Rightarrow> 'h asio_pool \<Rightarrow> (nat list \<times> 'h asio_pool) result" where
  "getIoContexts 0 p = Inr ([], p)"
| "getIoContexts (Suc k) p =
     and_then (getIoContext p) (\<lambda>(i, p'). and_then (getIoContexts k p') (\<lambda>(is, p''). Inr (i # is, p'')))"

lemma getIoContext_turn:
  assumes "unat (ap_next p) < length (ap_contexts p)" "length (ap_contexts p) < 2 ^ 64"
  shows "\<exists>p'. getIoContext p = Inr (unat (ap_next p), p') \<and> ap_contexts p' = ap_contexts p \<and>
    unat (ap_next p') = Suc (unat (ap_next p)) mod length (ap_contexts p)"
proof -
  have s: "unat (ap_next p + 1) = Suc (unat (ap_next p))"
    using assms by (simp add: unat_word_ariths)
  show ?thesis
  proof (cases "Suc (unat (ap_next p)) = length (ap_contexts p)")
    case True
    then show ?thesis using assms(1) s by (simp add: getIoContext_def Let_def)
  next
    case False
    then show ?thesis using assms(1) s by (simp add: getIoContext_def Let_def)
  qed
qed

lemma getIoContexts_turns:
  assumes "unat (ap_next p) < length (ap_contexts p)" "length (ap_contexts p) < 2 ^ 64"
  shows "\<exists>p'. getIoContexts k p =
    Inr (map (\<lambda>j. (unat (ap_next p) + j) mod length (ap_contexts p)) [0..<k], p')"
  using assms
proof (induction k arbitrary: p)
  case (Suc k)
  obtain p' where p': "getIoContext p = Inr (unat (ap_next p), p')" "ap_contexts p' = ap_contexts p"
      "unat (ap_next p') = Suc (unat (ap_next p)) mod length (ap_contexts p)"
    using getIoContext_turn [OF Suc.prems] by blast
  moreover have "0 < length (ap_contexts p)" using Suc.prems(1) by linarith
  ultimately have "unat (ap_next p') < length (ap_contexts p')" by simp
  from Suc.IH [OF this] obtain p'' where "getIoContexts k p' =
      Inr (map (\<lambda>j. (unat (ap_next p') + j) mod length (ap_contexts p')) [0..<k], p'')"
    using p'(2) Suc.prems(2) by auto
  moreover have "[0..<Suc k] = 0 # map Suc [0..<k]" by (simp add: map_Suc_upt upt_conv_Cons)
  ultimately show ?case using p' Suc.prems(1) by (simp add: o_def mod_simps del: upt_Suc)
qed simp

text \<open>
  (C30) \<open>getIoContext\<close> is fair: on a pool with at least one context the k-th call returns context
  \<open>k mod thread_num\<close>, and no index is out of bounds. A pool with no context faults at the first call.
\<close>

theorem getIoContext_round_robin:
  "(0 < n \<longrightarrow> (\<exists>p'. getIoContexts k (AsioThreadPool_new n :: 'h asio_pool) =
      Inr (map (\<lambda>j. j mod unat n) [0..<k], p'))) \<and>
   getIoContext (AsioThreadPool_new 0 :: 'h asio_pool) = Inl Out_Of_Bounds"
proof
  show "0 < n \<longrightarrow> (\<exists>p'. getIoContexts k (AsioThreadPool_new n :: 'h asio_pool) =
      Inr (map (\<lambda>j. j mod unat n) [0..<k], p'))"
  proof
    assume "0 < n"
    then have "0 < unat n" by (simp add: unat_gt_0 word_neq_0_conv)
    moreover have "unat n < 2 ^ 64" using unsigned_less [of n, where ?'a = nat] by simp
    ultimately show "\<exists>p'. getIoContexts k (AsioThreadPool_new n :: 'h asio_pool) =
        Inr (map (\<lambda>j. j mod unat n) [0..<k], p')"
      using getIoContexts_turns [of "AsioThreadPool_new n :: 'h asio_pool" k]
      by (simp add: AsioThreadPool_new_def)
  qed
  show "getIoContext (AsioThreadPool_new 0 :: 'h asio_pool) = Inl Out_Of_Bounds"
    by (simp add: getIoContext_def AsioThreadPool_new_def)
qed

theorem getIoContext_round_robin_witness:
  "\<exists>p'. getIoContexts 5 (AsioThreadPool_new 2 :: nat asio_pool) = Inr ([0, 1, 0, 1, 0], p')"
proof -
  have "unat (2 :: size_t) = 2" by simp
  moreover have "map (\<lambda>j. j mod 2) [0..<5] = [0, 1, 0, 1, (0::nat)]" by code_simp
  moreover have "0 < (2 :: size_t)" by simp
  ultimately show ?thesis
    using conjunct1 [OF getIoContext_round_robin [of 2 5, where ?'h = nat]] by (simp only: simp_thms)
qed

lemma run_one_all:
  assumes "i < length (ap_contexts p)" "i < length (ap_executed p)"
  shows "(run_one i ^^ length (ap_contexts p ! i)) p =
    p\<lparr>ap_contexts := (ap_contexts p)[i := []], ap_executed := (ap_executed p)[i := ap_executed p ! i @ ap_contexts p ! i]\<rparr>"
  using assms
proof (induction "ap_contexts p ! i" arbitrary: p)
  case Nil
  then have "(ap_contexts p)[i := []] = ap_contexts p" "(ap_executed p)[i := ap_executed p ! i @ ap_contexts p ! i] = ap_executed p"
    by (metis list_update_id, metis append_Nil2 list_update_id)
  then show ?case using Nil(1) [symmetric] by simp
next
  case (Cons h hs)
  let ?p = "run_one i p"
  have q: "?p = p\<lparr>ap_contexts := (ap_contexts p)[i := hs], ap_executed := (ap_executed p)[i := ap_executed p ! i @ [h]]\<rparr>"
    using Cons(2) [symmetric] by (simp add: run_one_def)
  have "(run_one i ^^ length (ap_contexts p ! i)) p = (run_one i ^^ length (ap_contexts ?p ! i)) ?p"
    using Cons(2) [symmetric] Cons.prems by (simp add: q funpow_swap1)
  then show ?case
    using Cons(1) [of ?p] Cons.prems Cons(2) [symmetric] by (simp add: q)
qed

text \<open>The threads joined so far are those below \<open>j\<close>.\<close>

lemma join_all_from:
  assumes "length (ap_contexts p) = n" "length (ap_executed p) = n" "length (ap_joinable p) = n"
    and "\<forall>i<n. j \<le> i \<longrightarrow> ap_joinable p ! i" "j \<le> n"
  shows "\<exists>p'. join_all [j..<n] p = Inr p' \<and> length (ap_contexts p') = n \<and> length (ap_executed p') = n \<and>
    ap_work_guards p' = ap_work_guards p \<and> length (ap_joinable p') = n \<and>
    (\<forall>i<n. (j \<le> i \<longrightarrow> ap_contexts p' ! i = [] \<and> ap_executed p' ! i = ap_executed p ! i @ ap_contexts p ! i \<and> \<not> ap_joinable p' ! i) \<and>
      (i < j \<longrightarrow> ap_contexts p' ! i = ap_contexts p ! i \<and> ap_executed p' ! i = ap_executed p ! i \<and> ap_joinable p' ! i = ap_joinable p ! i))"
  using assms
proof (induction "n - j" arbitrary: j p)
  case 0
  then show ?case by auto
next
  case (Suc d)
  then have j: "j < n" "[j..<n] = j # [Suc j..<n]" by (simp_all add: upt_conv_Cons)
  let ?p = "p\<lparr>ap_contexts := (ap_contexts p)[j := []], ap_executed := (ap_executed p)[j := ap_executed p ! j @ ap_contexts p ! j],
    ap_joinable := (ap_joinable p)[j := False]\<rparr>"
  have step: "join_all [j..<n] p = join_all [Suc j..<n] ?p"
    using j Suc.prems run_one_all [of j p] by simp
  have "\<exists>p'. join_all [Suc j..<n] ?p = Inr p' \<and> length (ap_contexts p') = n \<and> length (ap_executed p') = n \<and>
    ap_work_guards p' = ap_work_guards ?p \<and> length (ap_joinable p') = n \<and>
    (\<forall>i<n. (Suc j \<le> i \<longrightarrow> ap_contexts p' ! i = [] \<and> ap_executed p' ! i = ap_executed ?p ! i @ ap_contexts ?p ! i \<and> \<not> ap_joinable p' ! i) \<and>
      (i < Suc j \<longrightarrow> ap_contexts p' ! i = ap_contexts ?p ! i \<and> ap_executed p' ! i = ap_executed ?p ! i \<and> ap_joinable p' ! i = ap_joinable ?p ! i))"
    by (rule Suc.hyps(1)) (use Suc.hyps(2) Suc.prems j in \<open>auto simp: nth_list_update\<close>)
  then obtain p' where p': "join_all [Suc j..<n] ?p = Inr p'" "length (ap_contexts p') = n" "length (ap_executed p') = n"
    "ap_work_guards p' = ap_work_guards ?p" "length (ap_joinable p') = n"
    "\<And>i. i < n \<Longrightarrow> Suc j \<le> i \<Longrightarrow> ap_contexts p' ! i = [] \<and> ap_executed p' ! i = ap_executed ?p ! i @ ap_contexts ?p ! i \<and> \<not> ap_joinable p' ! i"
    "\<And>i. i < n \<Longrightarrow> i < Suc j \<Longrightarrow> ap_contexts p' ! i = ap_contexts ?p ! i \<and> ap_executed p' ! i = ap_executed ?p ! i \<and> ap_joinable p' ! i = ap_joinable ?p ! i"
    by blast
  have "(j \<le> i \<longrightarrow> ap_contexts p' ! i = [] \<and> ap_executed p' ! i = ap_executed p ! i @ ap_contexts p ! i \<and> \<not> ap_joinable p' ! i) \<and>
      (i < j \<longrightarrow> ap_contexts p' ! i = ap_contexts p ! i \<and> ap_executed p' ! i = ap_executed p ! i \<and> ap_joinable p' ! i = ap_joinable p ! i)"
    if "i < n" for i
    using p'(6,7) [OF that] Suc.prems j by (cases "i = j") (auto simp: nth_list_update)
  then show ?case using p'(1-5) step by auto
qed

text \<open>
  \<open>stop\<close> loses no work: it returns when every handler posted before has been run, each context's
  handlers in the order they were posted, and joins every thread once. A second \<open>stop\<close> of a pool with
  threads throws, since the threads are no longer joinable.
\<close>

theorem AsioThreadPool_stop_runs_all:
  assumes "length (ap_contexts p) = n" "length (ap_executed p) = n" "length (ap_joinable p) = n"
    and "\<forall>i<n. ap_joinable p ! i"
  shows "\<exists>p'. AsioThreadPool_stop p = Inr p' \<and> (\<forall>i<n. ap_contexts p' ! i = [] \<and>
      ap_executed p' ! i = ap_executed p ! i @ ap_contexts p ! i) \<and>
    (0 < n \<longrightarrow> AsioThreadPool_stop p' = Inl Invalid_Argument)"
proof -
  let ?p = "p\<lparr>ap_work_guards := replicate (length (ap_work_guards p)) False\<rparr>"
  obtain p' where p': "join_all [0..<n] ?p = Inr p'" "length (ap_joinable p') = n"
    "\<forall>i<n. ap_contexts p' ! i = [] \<and> ap_executed p' ! i = ap_executed p ! i @ ap_contexts p ! i \<and> \<not> ap_joinable p' ! i"
    using join_all_from [of ?p n 0] assms by auto
  moreover have "AsioThreadPool_stop p' = Inl Invalid_Argument" if "0 < n"
    using that p'(2,3) by (simp add: AsioThreadPool_stop_def upt_conv_Cons)
  ultimately show ?thesis using assms(3) by (auto simp: AsioThreadPool_stop_def)
qed

theorem AsioThreadPool_stop_runs_all_witness:
  "\<exists>p'. AsioThreadPool_stop (post 1 ''b'' (post 1 ''a'' (AsioThreadPool_new 2))) = Inr p' \<and>
    ap_executed p' ! 1 = [''a'', ''b''] \<and> AsioThreadPool_stop p' = Inl Invalid_Argument"
proof -
  let ?p = "post 1 ''b'' (post 1 ''a'' (AsioThreadPool_new 2))"
  have r: "replicate 2 x = [x, x]" for x :: 'x by (simp add: numeral_2_eq_2)
  have p: "?p = \<lparr>ap_contexts = [[], [''a'', ''b'']], ap_executed = [[], []], ap_work_guards = [True, True],
      ap_joinable = [True, True], ap_next = 0\<rparr>"
    by (simp add: post_def AsioThreadPool_new_def r)
  have len: "length (ap_contexts ?p) = 2" "length (ap_executed ?p) = 2" "length (ap_joinable ?p) = 2"
    "\<forall>i<2. ap_joinable ?p ! i"
    unfolding p by (simp_all add: nth_Cons less_2_cases_iff split: nat.splits)
  have e: "ap_executed ?p ! 1 @ ap_contexts ?p ! 1 = [''a'', ''b'']" unfolding p by simp
  have one: "1 < (2::nat)" "0 < (2::nat)" by simp_all
  from AsioThreadPool_stop_runs_all [OF len] obtain p' where p': "AsioThreadPool_stop ?p = Inr p'"
    "ap_executed p' ! 1 = ap_executed ?p ! 1 @ ap_contexts ?p ! 1" "AsioThreadPool_stop p' = Inl Invalid_Argument"
    using one by blast
  then show ?thesis using e by (intro exI [of _ p'] conjI) (simp_all only:)
qed

end
