(* ===== verification/My_Utility.thy ===== *)
theory My_Utility
  imports Cxx_Prelude
begin

text \<open>
  Class \<open>MyUtility\<close> of \<open>include/chat/MyUtility.hpp\<close>: the identifiers of the chat server, made of the
  time in milliseconds, a data center, a machine and a sequence number. The readings of the system
  clock are a list, of which a call consumes what it needs; a call that waits for the next
  millisecond when the list is at its end has no result (\<open>None\<close>). All arithmetic is at the width of the code:
  the time stamp is compared and shifted as an unsigned 64-bit integer, the sequence has 16 bits.
\<close>

unbundle bit_operations_syntax

definition sha256 :: "string \<Rightarrow> string" where
  "sha256 input = ''''"

definition epoch :: "64 word" where "epoch = 1609459200000"
definition maxDataCenterId :: "16 word" where "maxDataCenterId = 31"
definition maxMachineId :: "16 word" where "maxMachineId = 31"
definition sequenceMask :: "64 word" where "sequenceMask = 4095"
definition timestampLeftShift :: nat where "timestampLeftShift = 22"
definition dataCenterIdShift :: nat where "dataCenterIdShift = 17"
definition machineIdShift :: nat where "machineIdShift = 12"

record id_state =
  id_sequence :: "16 word"
  id_lastTimestamp :: "64 word"

definition id_start :: id_state where
  "id_start = \<lparr>id_sequence = 0, id_lastTimestamp = 0\<rparr>"

text \<open>The loop that waits for the next millisecond.\<close>

fun wait_next :: "64 word \<Rightarrow> 64 word \<Rightarrow> 64 word list \<Rightarrow> (64 word \<times> 64 word list) option" where
  "wait_next lastTimestamp timestamp clock =
     (if timestamp \<le> lastTimestamp
      then (case clock of [] \<Rightarrow> None | now # rest \<Rightarrow> wait_next lastTimestamp now rest)
      else Some (timestamp, clock))"

declare wait_next.simps [simp del]

definition make_id :: "64 word \<Rightarrow> 16 word \<Rightarrow> 16 word \<Rightarrow> 16 word \<Rightarrow> 64 word" where
  "make_id timestamp dataCenterId machineId sequence =
     push_bit timestampLeftShift (timestamp - epoch) OR
     ucast (push_bit dataCenterIdShift (ucast dataCenterId :: 32 word)) OR
     ucast (push_bit machineIdShift (ucast machineId :: 32 word)) OR
     ucast sequence"

definition generateUniqueId ::
  "16 word \<Rightarrow> 16 word \<Rightarrow> 64 word list \<Rightarrow> id_state \<Rightarrow> (64 word \<times> 64 word list \<times> id_state) result option" where
  "generateUniqueId dataCenterId machineId clock s =
     (if dataCenterId > maxDataCenterId \<or> machineId > maxMachineId then Some (Inl Invalid_Argument)
      else case clock of [] \<Rightarrow> None
      | timestamp # rest \<Rightarrow>
         let stamped = (\<lambda>ts seq c. Some (Inr (make_id ts dataCenterId machineId seq, c,
               \<lparr>id_sequence = seq, id_lastTimestamp = ts\<rparr>))) in
         if timestamp = id_lastTimestamp s
         then (let seq = ucast ((ucast (id_sequence s) + 1) AND sequenceMask) in
               if seq = 0
               then (case wait_next (id_lastTimestamp s) timestamp rest of None \<Rightarrow> None
                     | Some (ts, c) \<Rightarrow> stamped ts seq c)
               else stamped timestamp seq rest)
         else stamped timestamp 0 rest)"

text \<open>The returned string.\<close>

definition to_string :: "64 word \<Rightarrow> string" where
  "to_string w = decimal (unat w)"

fun generate_ids :: "16 word \<Rightarrow> 16 word \<Rightarrow> nat \<Rightarrow> 64 word list \<Rightarrow> id_state \<Rightarrow> (64 word list) result option" where
  "generate_ids d m 0 clock s = Some (Inr [])"
| "generate_ids d m (Suc k) clock s =
     (case generateUniqueId d m clock s of None \<Rightarrow> None
      | Some (Inl e) \<Rightarrow> Some (Inl e)
      | Some (Inr (i, clock', s')) \<Rightarrow>
         (case generate_ids d m k clock' s' of Some (Inr is) \<Rightarrow> Some (Inr (i # is)) | r \<Rightarrow> r))"

subsection \<open>The layout of an identifier\<close>

lemmas id_consts = epoch_def maxDataCenterId_def maxMachineId_def sequenceMask_def timestampLeftShift_def
  dataCenterIdShift_def machineIdShift_def

text \<open>Or-ing a number below \<open>2 ^ n\<close> to one shifted by \<open>n\<close> is an addition.\<close>

lemma shifted_or:
  fixes a b :: "'w::len word"
  assumes "unat b < 2 ^ n" "unat a < 2 ^ (LENGTH('w) - n)" "n \<le> LENGTH('w)"
  shows "unat (push_bit n a OR b) = unat a * 2 ^ n + unat b"
proof -
  have "take_bit n b = b"
    using assms(1) by (metis take_bit_nat_eq_self unsigned_take_bit_eq word_unat_eq_iff)
  then have bits: "bit b i \<Longrightarrow> i < n" for i by (metis bit_take_bit_iff)
  then have "push_bit n a AND b = 0"
    by (intro bit_word_eqI) (auto simp: bit_simps dest: bits)
  then have or_add: "push_bit n a OR b = push_bit n a + b"
    by (simp add: disjunctive_add_eq_or)
  have "(unat a + 1) * 2 ^ n \<le> 2 ^ (LENGTH('w) - n) * 2 ^ n"
    using assms(2) by (intro mult_right_mono) simp_all
  then have le: "unat a * 2 ^ n + 2 ^ n \<le> 2 ^ LENGTH('w)"
    using assms(3) by (simp flip: power_add)
  have pa: "unat (push_bit n a) = unat a * 2 ^ n"
  proof -
    have "unat a * 2 ^ n < 2 ^ LENGTH('w)" using le zero_less_power [of "2::nat" n] by linarith
    then show ?thesis
      by (simp only: unsigned_push_bit_eq) (simp add: push_bit_eq_mult take_bit_nat_eq_self)
  qed
  have "unat (push_bit n a) + unat b < 2 ^ LENGTH('w)"
    using le pa assms(1) by linarith
  then show ?thesis
    using or_add pa by (simp add: unat_add_lem [THEN iffD1])
qed

lemma small_id_bits:
  fixes d :: "16 word"
  assumes "d \<le> 31" "bit d i"
  shows "i < 5"
proof -
  have "unat d < 2 ^ 5" using assms(1) by (simp add: word_le_nat_alt)
  then have "take_bit 5 d = d"
    by (metis take_bit_nat_eq_self unsigned_take_bit_eq word_unat_eq_iff)
  then show ?thesis using assms(2) by (metis bit_take_bit_iff)
qed

lemma widen_shift:
  fixes d :: "16 word"
  assumes "d \<le> 31" "n \<le> 17"
  shows "(ucast (push_bit n (ucast d :: 32 word)) :: 64 word) = push_bit n (ucast d)"
  using assms(2) small_id_bits [OF assms(1)]
  by (intro bit_word_eqI) (fastforce simp: bit_simps)

lemma unat_widen: "unat (ucast (x :: 16 word) :: 64 word) = unat x"
  using unsigned_less [of x, where ?'a = nat] by (simp add: unsigned_ucast_eq take_bit_nat_eq_self)

lemma unat_make_id:
  assumes "d \<le> maxDataCenterId" "m \<le> maxMachineId" "unat q < 4096" "unat (ts - epoch) < 2 ^ 42"
  shows "unat (make_id ts d m q) =
    unat (ts - epoch) * 2 ^ 22 + (unat d * 2 ^ 17 + (unat m * 2 ^ 12 + unat q))"
proof -
  have dm: "d \<le> 31" "m \<le> 31" "unat d \<le> 31" "unat m \<le> 31"
    using assms(1,2) by (simp_all add: id_consts word_le_nat_alt)
  let ?q = "ucast q :: 64 word" and ?m = "ucast m :: 64 word" and ?d = "ucast d :: 64 word"
  have 1: "unat (push_bit 12 ?m OR ?q) = unat m * 2 ^ 12 + unat q"
    using shifted_or [of ?q 12 ?m] assms(3) dm by (simp add: unat_widen)
  have 2: "unat (push_bit 17 ?d OR (push_bit 12 ?m OR ?q)) = unat d * 2 ^ 17 + (unat m * 2 ^ 12 + unat q)"
    using shifted_or [of "push_bit 12 ?m OR ?q" 17 ?d] 1 assms(3) dm by (simp add: unat_widen)
  have 3: "unat (push_bit 22 (ts - epoch) OR (push_bit 17 ?d OR (push_bit 12 ?m OR ?q))) =
      unat (ts - epoch) * 2 ^ 22 + (unat d * 2 ^ 17 + (unat m * 2 ^ 12 + unat q))"
    using shifted_or [of "push_bit 17 ?d OR (push_bit 12 ?m OR ?q)" 22 "ts - epoch"] 2 assms(3,4) dm
    by simp
  show ?thesis
    using 3 widen_shift [OF dm(1), of 17] widen_shift [OF dm(2), of 12]
    by (simp add: make_id_def timestampLeftShift_def dataCenterIdShift_def machineIdShift_def)
qed

subsection \<open>Identifiers increase while the clock does not go back\<close>

lemma next_sequence:
  fixes q :: "16 word"
  assumes "unat q < 4096"
  shows "unat (ucast ((ucast q + 1) AND sequenceMask) :: 16 word) = Suc (unat q) mod 4096"
proof -
  have m: "sequenceMask = mask 12" by (simp add: sequenceMask_def mask_eq_exp_minus_1)
  have "unat (ucast q + 1 :: 64 word) = Suc (unat q)"
    using assms by (simp add: unat_word_ariths unat_widen)
  then have "unat ((ucast q + 1) AND sequenceMask) = Suc (unat q) mod 4096"
    unfolding m by (simp add: take_bit_eq_mod unat_mod_distrib flip: take_bit_eq_mask)
  then show ?thesis by (simp add: unsigned_ucast_eq take_bit_nat_eq_self)
qed

lemma wait_next_split:
  "wait_next l t c = Some (t', c') \<Longrightarrow> l < t' \<and> (\<exists>xs. t # c = xs @ t' # c')"
proof (induction l t c rule: wait_next.induct)
  case (1 l t c)
  show ?case
  proof (cases "t \<le> l")
    case True
    then obtain now rest where c: "c = now # rest" "wait_next l now rest = Some (t', c')"
      using 1(2) by (auto simp: wait_next.simps [of l t c] split: list.splits)
    obtain xs where "now # rest = xs @ t' # c'" "l < t'" using 1(1) [OF True c] by auto
    then show ?thesis using c(1) by (intro conjI exI [of _ "t # xs"]) simp_all
  next
    case False
    then have "wait_next l t c = Some (t, c)" by (subst wait_next.simps) (rule if_not_P)
    then show ?thesis using 1(2) False by auto
  qed
qed

lemma wait_next_returns: "\<exists>x\<in>set (t # c). l < x \<Longrightarrow> \<exists>r. wait_next l t c = Some r"
proof (induction l t c rule: wait_next.induct)
  case (1 l t c)
  show ?case
  proof (cases "t \<le> l")
    case True
    then obtain now rest where c: "c = now # rest" using 1(2) by (cases c) auto
    then have "\<exists>r. wait_next l now rest = Some r" using 1(1) [OF True c] 1(2) True by auto
    then show ?thesis using c True by (simp add: wait_next.simps [of l t "now # rest"])
  next
    case False
    then have "wait_next l t c = Some (t, c)" by (subst wait_next.simps) (rule if_not_P)
    then show ?thesis by blast
  qed
qed

definition in_range :: "64 word \<Rightarrow> bool" where
  "in_range t \<longleftrightarrow> epoch \<le> t \<and> unat (t - epoch) < 2 ^ 42"

definition clock_ok :: "64 word list \<Rightarrow> id_state \<Rightarrow> bool" where
  "clock_ok clock s \<longleftrightarrow> sorted clock \<and> (\<forall>t\<in>set clock. in_range t \<and> id_lastTimestamp s \<le> t) \<and>
     unat (id_sequence s) < 4096"

lemma case_stamped:
  "(case r of None \<Rightarrow> None | Some (ts, c) \<Rightarrow> Some (Inr (f ts, c, g ts))) = Some (Inr (i, c', s')) \<Longrightarrow>
   \<exists>ts. r = Some (ts, c') \<and> i = f ts \<and> s' = g ts"
  by (auto split: option.splits)

text \<open>One call: the new time stamp is later, or the same with the next sequence number.\<close>

lemma generateUniqueId_step:
  assumes "clock_ok clock s" "generateUniqueId d m clock s = Some (Inr (i, clock', s'))"
  shows "clock_ok clock' s' \<and> in_range (id_lastTimestamp s') \<and>
    i = make_id (id_lastTimestamp s') d m (id_sequence s') \<and> d \<le> maxDataCenterId \<and> m \<le> maxMachineId \<and>
    (id_lastTimestamp s < id_lastTimestamp s' \<or>
     id_lastTimestamp s' = id_lastTimestamp s \<and> unat (id_sequence s) < unat (id_sequence s'))"
proof -
  have dm: "d \<le> maxDataCenterId" "m \<le> maxMachineId" and "clock \<noteq> []"
    using assms(2) by (auto simp: generateUniqueId_def not_less split: if_splits list.splits)
  then obtain t rest where c: "clock = t # rest" by (cases clock) auto
  have ok: "sorted (t # rest)" "\<forall>x\<in>set (t # rest). in_range x \<and> id_lastTimestamp s \<le> x" "unat (id_sequence s) < 4096"
    using assms(1) by (simp_all add: clock_ok_def c)
  define q :: "16 word" where "q = ucast ((ucast (id_sequence s) + 1) AND sequenceMask)"
  have q: "unat q = Suc (unat (id_sequence s)) mod 4096" unfolding q_def by (rule next_sequence [OF ok(3)])
  have bad: "\<not> (d > maxDataCenterId \<or> m > maxMachineId)" using dm by auto
  note gen = assms(2) [unfolded generateUniqueId_def c Let_def list.case if_not_P [OF bad] q_def [symmetric]]
  consider "t \<noteq> id_lastTimestamp s" | "t = id_lastTimestamp s" "q = 0" | "t = id_lastTimestamp s" "q \<noteq> 0" by blast
  then show ?thesis
  proof cases
    case 1
    have "i = make_id t d m 0" "clock' = rest" "s' = \<lparr>id_sequence = 0, id_lastTimestamp = t\<rparr>"
      using gen [unfolded if_not_P [OF 1]] by simp_all
    moreover have "id_lastTimestamp s < t"
      using 1 ok(2) by (metis list.set_intros(1) order.not_eq_order_implies_strict)
    ultimately show ?thesis using ok dm by (auto simp: clock_ok_def)
  next
    case 2
    then obtain ts where w: "wait_next (id_lastTimestamp s) t rest = Some (ts, clock')"
      and r: "i = make_id ts d m q" "s' = \<lparr>id_sequence = q, id_lastTimestamp = ts\<rparr>"
      using case_stamped [where f = "\<lambda>ts. make_id ts d m q" and g = "\<lambda>ts. \<lparr>id_sequence = q, id_lastTimestamp = ts\<rparr>",
          OF gen [unfolded if_P [OF 2(1)] if_P [OF 2(2)]]] by blast
    obtain xs where xs: "t # rest = xs @ ts # clock'" "id_lastTimestamp s < ts"
      using wait_next_split [OF w] by blast
    have "sorted (xs @ ts # clock')" "\<forall>x\<in>set (xs @ ts # clock'). in_range x"
      using ok(1,2) by (simp_all add: xs(1) [symmetric])
    then show ?thesis using xs(2) r 2(2) dm by (auto simp: clock_ok_def sorted_append)
  next
    case 3
    then have r: "i = make_id t d m q" "clock' = rest" "s' = \<lparr>id_sequence = q, id_lastTimestamp = t\<rparr>"
      using gen [unfolded if_P [OF 3(1)] if_not_P [OF 3(2)]] by simp_all
    have "unat q \<noteq> 0" using 3(2) by (simp add: unat_eq_0)
    then have "unat q = Suc (unat (id_sequence s))" using q ok(3)
      by (metis Suc_lessI mod_less mod_self)
    then show ?thesis using r 3 ok q dm by (auto simp: clock_ok_def)
  qed
qed

text \<open>The identifier a state has last given out.\<close>

definition last_id :: "16 word \<Rightarrow> 16 word \<Rightarrow> id_state \<Rightarrow> 64 word" where
  "last_id d m s = make_id (id_lastTimestamp s) d m (id_sequence s)"

lemma in_range_less: "in_range t \<Longrightarrow> in_range t' \<Longrightarrow> t < t' \<Longrightarrow> unat (t - epoch) < unat (t' - epoch)"
  by (auto simp: in_range_def word_less_nat_alt word_le_nat_alt unat_sub intro: diff_less_mono)

lemma later_id_greater:
  assumes "in_range t" "in_range t'" "unat q < 4096" "unat q' < 4096" "d \<le> maxDataCenterId" "m \<le> maxMachineId"
    and "t < t' \<or> t' = t \<and> unat q < unat q'"
  shows "make_id t d m q < make_id t' d m q'"
proof -
  have dm: "unat d \<le> 31" "unat m \<le> 31"
    using assms(5,6) by (simp_all add: id_consts word_le_nat_alt)
  have "unat (make_id t d m q) < unat (make_id t' d m q')"
  proof (cases "t < t'")
    case True
    have "unat (t - epoch) + 1 \<le> unat (t' - epoch)" using in_range_less [OF assms(1,2) True] by simp
    then have "(unat (t - epoch) + 1) * 2 ^ 22 \<le> unat (t' - epoch) * 2 ^ 22" by (rule mult_right_mono) simp
    then show ?thesis
      using assms dm by (simp add: unat_make_id in_range_def)
  next
    case False
    then show ?thesis using assms by (auto simp: unat_make_id in_range_def)
  qed
  then show ?thesis by (simp add: word_less_nat_alt)
qed

lemma generate_ids_increasing:
  assumes "clock_ok clock s" "generate_ids d m k clock s = Some (Inr is)"
  shows "sorted_wrt (<) is \<and> (in_range (id_lastTimestamp s) \<longrightarrow> (\<forall>i\<in>set is. last_id d m s < i))"
  using assms
proof (induction k arbitrary: clock s "is")
  case (Suc k)
  then obtain i clock' s' js where g: "generateUniqueId d m clock s = Some (Inr (i, clock', s'))"
    and js: "generate_ids d m k clock' s' = Some (Inr js)" "is = i # js"
    by (auto split: option.splits sum.splits)
  note st = generateUniqueId_step [OF Suc.prems(1) g]
  have IH: "sorted_wrt (<) js" "\<forall>j\<in>set js. i < j"
    using Suc.IH [of clock' s' js] st js(1) by (auto simp: last_id_def)
  have "last_id d m s < i" if "in_range (id_lastTimestamp s)"
    using later_id_greater [OF that, of "id_lastTimestamp s'" "id_sequence s" "id_sequence s'" d m] st Suc.prems(1)
    by (auto simp: last_id_def clock_ok_def)
  then show ?case using IH js(2) by (auto intro: less_trans)
qed simp

subsection \<open>Properties\<close>

text \<open>
  (C25) Identifiers are unique on one machine: as long as the clock does not go back (and is between
  2021 and the year 2160, where 42 bits of milliseconds end), any number of calls returns strictly
  increasing numbers and so different strings.
\<close>

theorem generateUniqueId_unique:
  assumes "sorted clock" "\<forall>t\<in>set clock. in_range t" "generate_ids d m k clock id_start = Some (Inr is)"
  shows "sorted_wrt (<) is \<and> distinct (map to_string is)"
proof -
  have "clock_ok clock id_start" using assms(1,2) by (simp add: clock_ok_def id_start_def)
  then have s: "sorted_wrt (<) is" using generate_ids_increasing assms(3) by blast
  then have "distinct is" by (simp add: strict_sorted_iff)
  moreover have "inj to_string" by (auto intro!: injI simp: to_string_def decimal_inject word_unat_eq_iff)
  ultimately show ?thesis using s by (auto simp: distinct_map intro: inj_on_subset)
qed

text \<open>
  (C31) Identifiers of different machines differ: within the range of the clock the identifier
  determines the time stamp, the data center, the machine and the sequence number.
\<close>

theorem make_id_injective:
  assumes "in_range ts" "in_range ts'" "d \<le> maxDataCenterId" "d' \<le> maxDataCenterId"
    and "m \<le> maxMachineId" "m' \<le> maxMachineId" "unat q < 4096" "unat q' < 4096"
    and "make_id ts d m q = make_id ts' d' m' q'"
  shows "ts = ts' \<and> d = d' \<and> m = m' \<and> q = q'"
proof -
  have dm: "unat d < 32" "unat m < 32" "unat d' < 32" "unat m' < 32"
    using assms(3-6) by (simp_all add: id_consts word_le_nat_alt)
  let ?T = "unat (ts - epoch)" and ?T' = "unat (ts' - epoch)"
  have eq: "?T * 2 ^ 22 + (unat d * 2 ^ 17 + (unat m * 2 ^ 12 + unat q)) =
      ?T' * 2 ^ 22 + (unat d' * 2 ^ 17 + (unat m' * 2 ^ 12 + unat q'))"
    using assms unat_make_id [of d m q ts] unat_make_id [of d' m' q' ts'] by (simp add: in_range_def)
  have split: "a * n + b = a' * n + b' \<Longrightarrow> b < n \<Longrightarrow> b' < n \<Longrightarrow> a = a' \<and> b = b'" for a b a' b' n :: nat
    by (metis add.commute div_mult_self1 mod_less mod_mult_self1 div_less add_cancel_left_left gr_implies_not0)
  have "?T = ?T' \<and> unat d * 2 ^ 17 + (unat m * 2 ^ 12 + unat q) = unat d' * 2 ^ 17 + (unat m' * 2 ^ 12 + unat q')"
    by (rule split [OF eq]) (use dm assms(7,8) in simp_all)
  moreover from this have "unat d = unat d' \<and> unat m * 2 ^ 12 + unat q = unat m' * 2 ^ 12 + unat q'"
    by (intro split [where n = "2 ^ 17"]) (use dm assms(7,8) in simp_all)
  moreover from this have "unat m = unat m' \<and> unat q = unat q'"
    by (intro split [where n = "2 ^ 12"]) (use assms(7,8) in simp_all)
  ultimately show ?thesis by (simp add: word_unat_eq_iff [symmetric])
qed

text \<open>
  The identifiers repeat when the clock goes back: with the readings 5, 4 and 5 milliseconds
  after the epoch the first and the third call return the same number.
\<close>

theorem generateUniqueId_clock_back:
  "\<exists>i j. generate_ids 1 2 3 [epoch + 5, epoch + 4, epoch + 5] id_start = Some (Inr [i, j, i])"
  by (simp add: generateUniqueId_def id_start_def id_consts numeral_3_eq_3)

text \<open>
  \<open>generateUniqueId\<close> returns: it refuses a data center or machine above 31, and otherwise returns
  an identifier as soon as the clock shows a millisecond later than that of the last identifier.
\<close>

theorem generateUniqueId_returns:
  "(d > maxDataCenterId \<or> m > maxMachineId \<longrightarrow> generateUniqueId d m clock s = Some (Inl Invalid_Argument)) \<and>
   (d \<le> maxDataCenterId \<and> m \<le> maxMachineId \<and> (\<exists>t\<in>set clock. id_lastTimestamp s < t) \<longrightarrow>
     (\<exists>r. generateUniqueId d m clock s = Some (Inr r)))"
proof (intro conjI impI)
  assume "d > maxDataCenterId \<or> m > maxMachineId"
  then show "generateUniqueId d m clock s = Some (Inl Invalid_Argument)" by (simp add: generateUniqueId_def)
next
  assume a: "d \<le> maxDataCenterId \<and> m \<le> maxMachineId \<and> (\<exists>t\<in>set clock. id_lastTimestamp s < t)"
  then obtain t rest where c: "clock = t # rest" by (cases clock) auto
  obtain ts c' where "wait_next (id_lastTimestamp s) t rest = Some (ts, c')"
    using wait_next_returns [of t rest "id_lastTimestamp s"] a c by auto
  then show "\<exists>r. generateUniqueId d m clock s = Some (Inr r)"
    using a c by (auto simp: generateUniqueId_def Let_def not_less)
qed

theorem generateUniqueId_unique_witness:
  "\<exists>i j. generate_ids 1 2 2 [epoch + 5, epoch + 5] id_start = Some (Inr [i, j]) \<and> i < j \<and> to_string i \<noteq> to_string j"
proof -
  let ?i = "make_id (epoch + 5) 1 2 0" and ?j = "make_id (epoch + 5) 1 2 1"
  have run: "generate_ids 1 2 2 [epoch + 5, epoch + 5] id_start = Some (Inr [?i, ?j])"
  proof -
    have c: "epoch + 5 \<noteq> 0" "(ucast ((ucast (0 :: 16 word) + 1) AND sequenceMask) :: 16 word) = 1"
      by (simp_all add: id_consts)
    have "generateUniqueId 1 2 [epoch + 5, epoch + 5] id_start =
        Some (Inr (?i, [epoch + 5], \<lparr>id_sequence = 0, id_lastTimestamp = epoch + 5\<rparr>))"
      using c(1) by (simp add: generateUniqueId_def id_start_def maxDataCenterId_def maxMachineId_def)
    moreover have "generateUniqueId 1 2 [epoch + 5] \<lparr>id_sequence = 0, id_lastTimestamp = epoch + 5\<rparr> =
        Some (Inr (?j, [], \<lparr>id_sequence = 1, id_lastTimestamp = epoch + 5\<rparr>))"
      unfolding generateUniqueId_def Let_def id_state.select_convs c(2)
      by (simp add: maxDataCenterId_def maxMachineId_def)
    ultimately show ?thesis by (simp add: numeral_2_eq_2)
  qed
  have "in_range (epoch + 5)" by (simp add: in_range_def epoch_def)
  then show ?thesis
    using generateUniqueId_unique [OF _ _ run] run by simp
qed

theorem make_id_injective_witness:
  "in_range (epoch + 5) \<and> make_id (epoch + 5) 1 2 0 \<noteq> make_id (epoch + 5) 1 3 (0 :: 16 word)"
proof -
  have r: "in_range (epoch + 5)" by (simp add: in_range_def epoch_def)
  have "(2 :: 16 word) \<noteq> 3" by simp
  then show ?thesis
    using make_id_injective [OF r r, of 1 1 2 3 0 0] r by (auto simp: id_consts)
qed

theorem generateUniqueId_returns_witness:
  "generateUniqueId 32 0 [] id_start = Some (Inl Invalid_Argument) \<and>
   (\<exists>r. generateUniqueId 1 2 [0, 7] id_start = Some (Inr r))"
proof
  show "generateUniqueId 32 0 [] id_start = Some (Inl Invalid_Argument)"
    using generateUniqueId_returns [of 32 0 "[]" id_start] by (simp add: id_consts)
  show "\<exists>r. generateUniqueId 1 2 [0, 7] id_start = Some (Inr r)"
    using generateUniqueId_returns [of 1 2 "[0, 7]" id_start] by (simp add: id_consts id_start_def)
qed

end
