(* ===== verification/Posix_Files.thy ===== *)
theory Posix_Files
  imports Cxx_Prelude "HOL-Library.AList" "HOL-Library.Sublist"
begin

text \<open>
  What the file server uses of the standard library: \<open>std::string::find\<close>, and a file system with the name
  resolution of POSIX behind \<open>std::ifstream\<close>, \<open>std::ofstream\<close> and \<open>std::filesystem\<close>. A directory is the list of its entries in
  the order in which \<open>directory_iterator\<close> yields them (a new entry comes last; the standard leaves the
  order open, and no theorem depends on it). There are no links, and every file may be read and written.
\<close>

subsection \<open>Strings\<close>

text \<open>\<open>s.find(kw)\<close>; \<open>None\<close> is \<open>npos\<close>.\<close>

fun str_find :: "string \<Rightarrow> string \<Rightarrow> nat option" where
  "str_find [] kw = (if kw = [] then Some 0 else None)"
| "str_find (c # s) kw = (if prefix kw (c # s) then Some 0 else map_option Suc (str_find s kw))"

lemma str_find_iff_sublist: "str_find s kw \<noteq> None \<longleftrightarrow> sublist kw s"
  by (induction s) (auto simp: sublist_Cons_right)

lemma str_find_Some_prefix: "str_find s kw = Some i \<Longrightarrow> prefix kw (drop i s)"
  by (induction s arbitrary: i) (auto split: if_splits)

lemma str_find_first: "str_find s kw = Some i \<Longrightarrow> j < i \<Longrightarrow> \<not> prefix kw (drop j s)"
proof (induction s arbitrary: i j)
  case (Cons c s)
  then show ?case by (cases j) (auto split: if_splits)
qed (auto split: if_splits)

text \<open>The components of a path: the pieces between the slashes.\<close>

fun components :: "string \<Rightarrow> string list" where
  "components [] = [[]]"
| "components (c # cs) =
     (if c = CHR ''/'' then [] # components cs
      else case components cs of [] \<Rightarrow> [[c]] | w # ws \<Rightarrow> (c # w) # ws)"

lemma components_not_Nil [simp]: "components p \<noteq> []"
  by (cases p) (auto split: list.splits)

lemma components_slash: "components (p @ CHR ''/'' # r) = components p @ components r"
  by (induction p) (auto split: list.splits)

lemma components_name: "CHR ''/'' \<notin> set n \<Longrightarrow> components n = [n]"
  by (induction n) auto

lemmas components_simps = components_slash components_name

subsection \<open>Trees of files\<close>

datatype node = File string | Dir "(string \<times> node) list"

fun is_Dir :: "node \<Rightarrow> bool" where
  "is_Dir (Dir es) = True"
| "is_Dir (File c) = False"

fun node_at :: "node \<Rightarrow> string list \<Rightarrow> node option" where
  "node_at nd [] = Some nd"
| "node_at (File c) (x # xs) = None"
| "node_at (Dir es) (x # xs) = (case map_of es x of None \<Rightarrow> None | Some m \<Rightarrow> node_at m xs)"

fun put_node :: "node \<Rightarrow> string list \<Rightarrow> node \<Rightarrow> node" where
  "put_node nd [] m = m"
| "put_node nd (x # xs) m =
     (case nd of File c \<Rightarrow> File c
      | Dir es \<Rightarrow> Dir (AList.update x (case map_of es x of None \<Rightarrow> m | Some k \<Rightarrow> put_node k xs m) es))"

text \<open>
  Name resolution: from the directory with the canonical name \<open>here\<close>. An empty component and a dot stay,
  two dots go to the parent (the root is its own parent). Only a directory can be entered.
\<close>

fun canon :: "node \<Rightarrow> string list \<Rightarrow> string list \<Rightarrow> string list option" where
  "canon fs here [] = Some here"
| "canon fs here (c # cs) =
     (case node_at fs here of
        Some (Dir es) \<Rightarrow>
          if c = '''' \<or> c = ''.'' then canon fs here cs
          else if c = ''..'' then canon fs (butlast here) cs
          else if map_of es c = None then None else canon fs (here @ [c]) cs
      | _ \<Rightarrow> None)"

definition lookup_path :: "node \<Rightarrow> string \<Rightarrow> node option" where
  "lookup_path fs p = (case canon fs [] (components p) of None \<Rightarrow> None | Some q \<Rightarrow> node_at fs q)"

text \<open>The canonical name of a path, which stays that of the file when its contents change.\<close>

definition resolve :: "node \<Rightarrow> string \<Rightarrow> string list option" where
  "resolve fs p = canon fs [] (components p)"

definition contents_at :: "node \<Rightarrow> string list \<Rightarrow> string" where
  "contents_at fs q = (case node_at fs q of Some (File c) \<Rightarrow> c | _ \<Rightarrow> [])"

definition is_directory :: "node \<Rightarrow> string \<Rightarrow> bool" where
  "is_directory fs p = (case lookup_path fs p of Some (Dir es) \<Rightarrow> True | _ \<Rightarrow> False)"

text \<open>A component that names an entry.\<close>

definition entry_name :: "string \<Rightarrow> bool" where
  "entry_name n \<longleftrightarrow> n \<noteq> '''' \<and> n \<noteq> ''.'' \<and> n \<noteq> ''..'' \<and> CHR ''/'' \<notin> set n"

text \<open>
  Opening a file for writing and writing its contents; \<open>None\<close> when the open fails: no such directory, or
  the name is that of a directory.
\<close>

definition write_file :: "node \<Rightarrow> string \<Rightarrow> string \<Rightarrow> node option" where
  "write_file fs p body =
     (let cs = components p; n = last cs in
      case canon fs [] (butlast cs) of None \<Rightarrow> None
      | Some d \<Rightarrow>
         (case node_at fs d of
            Some (Dir es) \<Rightarrow>
              if n = '''' \<or> n = ''.'' \<or> n = ''..'' then None
              else (case map_of es n of Some (Dir _) \<Rightarrow> None | _ \<Rightarrow> Some (put_node fs (d @ [n]) (File body)))
          | _ \<Rightarrow> None))"

subsection \<open>Lookups after lookups and after updates\<close>

lemma node_at_append: "node_at nd (p @ q) = (case node_at nd p of None \<Rightarrow> None | Some m \<Rightarrow> node_at m q)"
  by (induction nd p rule: node_at.induct) (auto split: option.splits)

lemma canon_append: "canon fs here (xs @ ys) = (case canon fs here xs of None \<Rightarrow> None | Some h \<Rightarrow> canon fs h ys)"
  by (induction fs here xs rule: canon.induct) (auto split: option.splits node.splits)

lemma canon_entry:
  "node_at fs h = Some (Dir es) \<Longrightarrow> map_of es n \<noteq> None \<Longrightarrow> entry_name n \<Longrightarrow> canon fs h (n # cs) = canon fs (h @ [n]) cs"
  by (auto simp: entry_name_def)

lemma canon_names:
  "node_at fs (h @ ns) = Some m \<Longrightarrow> \<forall>n\<in>set ns. entry_name n \<Longrightarrow> canon fs h (ns @ cs) = canon fs (h @ ns) cs"
proof (induction ns arbitrary: h)
  case (Cons n ns)
  then obtain es k where "node_at fs h = Some (Dir es)" "map_of es n = Some k"
    by (auto simp: node_at_append split: option.splits elim!: node_at.elims)
  then show ?case using Cons.IH [of "h @ [n]"] Cons.prems by (simp add: canon_entry del: canon.simps)
qed simp

lemma node_at_put_same:
  "node_at nd d = Some (Dir es) \<Longrightarrow> node_at (put_node nd (d @ [n]) m) (d @ [n]) = Some m"
  by (induction nd d rule: node_at.induct) (auto simp: update_conv split: option.splits)

lemma node_at_put_update:
  "node_at nd d = Some (Dir es) \<Longrightarrow> node_at (put_node nd (d @ [n]) m) d = Some (Dir (AList.update n m es))"
  by (induction nd d rule: node_at.induct) (auto simp: update_conv split: option.splits)

lemma node_at_put_dir:
  "node_at nd (p @ q) = Some (Dir es) \<Longrightarrow> \<exists>es'. node_at (put_node nd (p @ q @ [n]) m) p = Some (Dir es')"
proof (induction nd p rule: node_at.induct)
  case (1 nd)
  then show ?case by (cases nd; cases q) (auto split: option.splits)
qed (auto simp: update_conv split: option.splits)

lemma node_at_put_other:
  assumes "node_at nd d = Some (Dir es)" "\<nexists>ds. map_of es n = Some (Dir ds)"
    and "node_at nd p = Some (File c)" "p \<noteq> d @ [n]"
  shows "node_at (put_node nd (d @ [n]) (File b)) p = Some (File c)"
  using assms
proof (induction nd d arbitrary: p rule: node_at.induct)
  case (1 nd)
  then show ?case by (cases p) (auto simp: update_conv split: option.splits elim!: node_at.elims)
next
  case (3 ds x xs)
  then show ?case by (cases p) (auto simp: update_conv split: option.splits)
qed simp

subsection \<open>Well-formed trees and the files in them\<close>

text \<open>Entry names are possible names, and no name occurs twice in a directory.\<close>

fun wf_node :: "node \<Rightarrow> bool" where
  "wf_node (File c) \<longleftrightarrow> True"
| "wf_node (Dir es) \<longleftrightarrow> distinct (map fst es) \<and> (\<forall>(n, m) \<in> set es. entry_name n \<and> wf_node m)"

fun file_paths :: "node \<Rightarrow> string list list" where
  "file_paths (File c) = [[]]"
| "file_paths (Dir es) = concat (map (\<lambda>(n, m). map ((#) n) (file_paths m)) es)"

lemma wf_node_entry: "wf_node (Dir es) \<Longrightarrow> map_of es n = Some m \<Longrightarrow> entry_name n \<and> wf_node m"
  by (force dest: map_of_SomeD)

lemma wf_node_at: "wf_node nd \<Longrightarrow> node_at nd p = Some m \<Longrightarrow> wf_node m \<and> (\<forall>n\<in>set p. entry_name n)"
  by (induction nd p rule: node_at.induct) (auto simp del: wf_node.simps split: option.splits dest: wf_node_entry)

lemma wf_lookup_entry:
  assumes "wf_node fs" "lookup_path fs p = Some (Dir es)" "map_of es n = Some m"
  shows "entry_name n"
proof -
  obtain h where "node_at fs h = Some (Dir es)"
    using assms(2) by (auto simp: lookup_path_def split: option.splits)
  from wf_node_at [OF assms(1) this] have "wf_node (Dir es)" by (rule conjunct1)
  from wf_node_entry [OF this assms(3)] show ?thesis by (rule conjunct1)
qed

lemma set_file_paths: "wf_node nd \<Longrightarrow> set (file_paths nd) = {p. \<exists>c. node_at nd p = Some (File c)}"
proof (induction nd rule: file_paths.induct)
  case (1 c)
  then show ?case by (auto elim: node_at.elims)
next
  case (2 es)
  have IH: "set (file_paths m) = {p. \<exists>c. node_at m p = Some (File c)}" if "(n, m) \<in> set es" for n m
    using 2 that by fastforce
  have "p \<in> set (file_paths (Dir es)) \<longleftrightarrow> (\<exists>c. node_at (Dir es) p = Some (File c))" for p
  proof (cases p)
    case (Cons n q)
    have "p \<in> set (file_paths (Dir es)) \<longleftrightarrow> (\<exists>m. (n, m) \<in> set es \<and> q \<in> set (file_paths m))"
      using Cons by force
    also have "\<dots> \<longleftrightarrow> (\<exists>m. map_of es n = Some m \<and> (\<exists>c. node_at m q = Some (File c)))"
      using 2(2) by (auto simp: map_of_eq_Some_iff IH)
    finally show ?thesis using Cons by (auto split: option.splits)
  qed auto
  then show ?case by blast
qed

lemma file_paths_Cons:
  "file_paths (Dir ((n, m) # es)) = map ((#) n) (file_paths m) @ file_paths (Dir es)"
  by simp

lemma last_file_paths_Dir: "map last (map ((#) n) (file_paths (Dir es))) = map last (file_paths (Dir es))"
proof -
  have "last (n # p) = last p" if "p \<in> set (file_paths (Dir es))" for p
    using that by auto
  then show ?thesis unfolding map_map by (intro map_cong) (auto simp del: file_paths.simps last.simps)
qed

end
