(* ===== verification/File_Manager.thy ===== *)
theory File_Manager
  imports Posix_Files
begin

text \<open>
  \<open>include/file_transfer/FileManager.hpp\<close>: class \<open>FileManager\<close>, which answers one HTTP request. Requests and responses have the fields the code reads and sets; reading a request
  from the socket and writing a response are Boost.Beast and appear as the request that was read
  (\<open>None\<close> when reading threw) and the reply whose writing is started (Beast adds the content length). The body of a reply is a text, or an open file, which Beast reads
  while it writes; \<open>Async_Server\<close> interleaves that with other requests. Whether \<open>co_spawn\<close> runs the new coroutine up to its first
  suspension before it returns is a parameter, \<open>starts_inline\<close>: the coroutines spawned here hold
  references to variables of the function that spawns them.
\<close>

datatype verb = Get | Post | Other_verb string

record http_request =
  req_method :: verb
  req_target :: string
  req_version :: nat
  req_keep_alive :: bool
  req_body :: string

record 'b http_message =
  res_status :: nat
  res_version :: nat
  res_content_type :: string
  res_keep_alive :: bool
  res_body :: 'b

text \<open>
  The body of a reply: a string, or a file that is open for reading, by its canonical name, with its size when it was opened (the
  announced content length). What the client gets is a response whose body is the bytes that were sent.
\<close>

datatype reply_body = Text string | Open_file "string list" nat

type_synonym http_reply = "reply_body http_message"
type_synonym http_response = "string http_message"

definition with_body :: "http_reply \<Rightarrow> string \<Rightarrow> http_response" where
  "with_body r body =
     \<lparr>res_status = res_status r, res_version = res_version r, res_content_type = res_content_type r,
      res_keep_alive = res_keep_alive r, res_body = body\<rparr>"

text \<open>The response when the whole reply is sent at once.\<close>

fun body_at :: "node \<Rightarrow> reply_body \<Rightarrow> string" where
  "body_at fs (Text t) = t"
| "body_at fs (Open_file q n) = take n (contents_at fs q)"

definition sent_at :: "node \<Rightarrow> http_reply \<Rightarrow> http_response" where
  "sent_at fs r = with_body r (body_at fs (res_body r))"

definition root_dir :: string where "root_dir = ''/home/sw/Documents/cxx/res''"

definition upload_dir :: string where "upload_dir = ''/home/sw/Documents/cxx/res/upload/''"

text \<open>\<open>search_files_recursive\<close> on the entries of a directory; \<open>filenames\<close> is the vector it appends to.\<close>

fun search_files_recursive :: "(string \<times> node) list \<Rightarrow> string \<Rightarrow> string list \<Rightarrow> string list" where
  "search_files_recursive [] kw filenames = filenames"
| "search_files_recursive ((n, Dir es) # rest) kw filenames =
     search_files_recursive rest kw (search_files_recursive es kw filenames)"
| "search_files_recursive ((n, File c) # rest) kw filenames =
     search_files_recursive rest kw (if str_find n kw \<noteq> None then filenames @ [n] else filenames)"

text \<open>The keyword of a search: what follows the question mark (the whole target without one), after \<open>search=\<close> if it occurs.\<close>

definition search_keyword :: "string \<Rightarrow> string" where
  "search_keyword path =
     (let query_string = (case str_find path ''?'' of None \<Rightarrow> path | Some i \<Rightarrow> drop (i + 1) path) in
      case str_find query_string ''search='' of None \<Rightarrow> query_string | Some pos \<Rightarrow> drop (pos + 7) query_string)"

definition nl :: string where "nl = [CHR 0x0A]"

definition html_head :: string where
  \<open>html_head =
     ''<!DOCTYPE html>'' @ nl @ ''<html>'' @ nl @ ''<head><title>Files in directory</title></head>'' @ nl @
     ''<body>'' @ nl @ ''<h1>Files in directory:</h1>'' @ nl @
     ''<form action="/search" method="get">'' @ nl @
     ''<input type="text" name="search" placeholder="Search files...">'' @ nl @
     ''<input type="submit" value="Search">'' @ nl @ ''</form>'' @ nl @ ''<ul>'' @ nl\<close>

definition html_tail :: string where
  \<open>html_tail =
     ''</ul>'' @ nl @
     ''<form action="/upload" method="post" enctype="multipart/form-data">'' @ nl @
     ''<input type="file" name="fileToUpload" id="fileToUpload">'' @ nl @
     ''<input type="submit" value="Upload File" name="submit">'' @ nl @
     ''</form>'' @ nl @ ''</body>'' @ nl @ ''</html>''\<close>

definition html_item :: "node \<Rightarrow> string \<Rightarrow> string \<Rightarrow> string \<Rightarrow> string" where
  \<open>html_item fs new_path path filename =
     (if is_directory fs (new_path @ ''/'' @ filename)
      then ''<li><button onclick="location.href='' @ [CHR 0x27] @ path @ filename @ [CHR 0x27] @ ''">'' @ filename @
           ''</button></li></br>'' @ nl
      else ''<li>'' @ filename @ '' - <a href="'' @ path @ filename @ ''" download>Download</a></li></br>'' @ nl)\<close>

definition html_body :: "node \<Rightarrow> string \<Rightarrow> string \<Rightarrow> string list \<Rightarrow> string" where
  "html_body fs new_path path filenames =
     html_head @ concat (map (html_item fs new_path path) filenames) @ html_tail"

definition handle_request :: "node \<Rightarrow> string \<Rightarrow> bool \<Rightarrow> http_reply" where
  "handle_request fs path is_search =
     (let tem_path = (if is_search then take 7 path else path);
          new_path = root_dir @ tem_path in
      case lookup_path fs new_path of
        None \<Rightarrow> \<lparr>res_status = 404, res_version = 11, res_content_type = ''text/plain'', res_keep_alive = False,
                 res_body = Text ''404 Not Found''\<rparr>
      | Some (Dir es) \<Rightarrow>
         (let filenames =
                (if is_search
                 then (case lookup_path fs root_dir of
                         Some (Dir rs) \<Rightarrow> search_files_recursive rs (search_keyword path) [] | _ \<Rightarrow> [])
                 else map fst es) in
          \<lparr>res_status = 200, res_version = 11, res_content_type = ''text/html'', res_keep_alive = False,
           res_body = Text (html_body fs new_path path filenames)\<rparr>)
      | Some (File c) \<Rightarrow> \<lparr>res_status = 200, res_version = 11, res_content_type = ''text/plain'',
                          res_keep_alive = False, res_body = Open_file (the (resolve fs new_path)) (length c)\<rparr>)"

text \<open>The stream is not checked: when it cannot be opened nothing is written and the answer is the same.\<close>

definition handle_upload :: "node \<Rightarrow> string \<Rightarrow> string \<Rightarrow> http_reply \<times> node" where
  "handle_upload fs filename body =
     (\<lparr>res_status = 200, res_version = 11, res_content_type = ''text/plain'', res_keep_alive = False,
       res_body = Text (''File '' @ [CHR 0x27] @ filename @ [CHR 0x27] @ '' uploaded successfully'')\<rparr>,
      case write_file fs (upload_dir @ filename) body of None \<Rightarrow> fs | Some fs' \<Rightarrow> fs')"

definition handle_connection ::
  "bool \<Rightarrow> http_request option \<Rightarrow> node \<Rightarrow> (http_reply option \<times> node) result" where
  "handle_connection starts_inline request fs =
     (case request of None \<Rightarrow> Inr (None, fs)
      | Some r \<Rightarrow>
         (case req_method r of
            Get \<Rightarrow>
              if starts_inline
              then Inr (Some (handle_request fs (req_target r) (prefix ''/search'' (req_target r))), fs)
              else Inl Use_After_Free
          | Post \<Rightarrow>
              if starts_inline
              then (case handle_upload fs (req_target r) (req_body r) of (res, fs') \<Rightarrow> Inr (Some res, fs'))
              else Inl Use_After_Free
          | Other_verb v \<Rightarrow>
              Inr (Some \<lparr>res_status = 405, res_version = req_version r, res_content_type = ''text/plain'',
                         res_keep_alive = req_keep_alive r, res_body = Text ''405 Method Not Allowed''\<rparr>, fs)))"

subsection \<open>The search\<close>

lemma search_eq_filter:
  "search_files_recursive es kw filenames =
     filenames @ filter (\<lambda>n. sublist kw n) (map last (file_paths (Dir es)))"
proof (induction es kw filenames rule: search_files_recursive.induct)
  case (2 n es rest kw filenames)
  then show ?case by (simp only: search_files_recursive.simps file_paths_Cons map_append filter_append append_assoc
      last_file_paths_Dir)
next
  case (3 n c rest kw filenames)
  then show ?case
    by (simp add: file_paths_Cons str_find_iff_sublist [unfolded not_None_eq] del: file_paths.simps(2))
qed simp

text \<open>
  (C37) The recursive search returns, in the order of the directory iteration, the names of exactly
  the regular files below the directory, at any depth, that contain the keyword: it equals the
  filtered list of the last components of all file paths, and in a well-formed tree these paths are the
  ones that lead to a file.
\<close>

theorem search_finds_matching_files:
  "search_files_recursive es kw filenames =
     filenames @ filter (\<lambda>n. sublist kw n) (map last (file_paths (Dir es))) \<and>
   (wf_node (Dir es) \<longrightarrow>
     set (search_files_recursive es kw []) =
       {last p | p. sublist kw (last p) \<and> (\<exists>c. node_at (Dir es) p = Some (File c))})"
  using set_file_paths [of "Dir es"] by (auto simp: search_eq_filter simp del: file_paths.simps wf_node.simps)

theorem search_finds_matching_files_witness:
  "search_files_recursive [(''a.txt'', File ''x''), (''d'', Dir [(''b.txt'', File ''y''), (''txt'', Dir [])])] ''txt'' [] =
     [''a.txt'', ''b.txt''] \<and>
   {''a.txt'', ''b.txt''} = {last p | p. sublist ''txt'' (last p) \<and>
     (\<exists>c. node_at (Dir [(''a.txt'', File ''x''), (''d'', Dir [(''b.txt'', File ''y''), (''txt'', Dir [])])]) p = Some (File c))}"
proof -
  let ?es = "[(''a.txt'', File ''x''), (''d'', Dir [(''b.txt'', File ''y''), (''txt'', Dir [])])]"
  have "search_files_recursive ?es ''txt'' [] = [''a.txt'', ''b.txt'']" by simp
  moreover have "wf_node (Dir ?es)" by (simp add: entry_name_def)
  ultimately show ?thesis
    using search_finds_matching_files [of ?es "''txt''" "[]"] by simp
qed

subsection \<open>Paths below the served directory\<close>

definition root_names :: "string list" where
  "root_names = [''home'', ''sw'', ''Documents'', ''cxx'', ''res'']"

text \<open>The answer to a request for a target, when nothing else happens while it is sent.\<close>

abbreviation http_get :: "node \<Rightarrow> string \<Rightarrow> http_response" where
  "http_get fs target \<equiv> sent_at fs (handle_request fs target (prefix ''/search'' target))"

lemma lookup_resolve: "lookup_path fs p = Some m \<Longrightarrow> node_at fs (the (resolve fs p)) = Some m"
  by (auto simp: lookup_path_def resolve_def split: option.splits)

lemma contents_resolve: "lookup_path fs p = Some (File c) \<Longrightarrow> contents_at fs (the (resolve fs p)) = c"
  by (simp add: contents_at_def lookup_resolve)

lemmas request_defs = handle_request_def sent_at_def with_body_def contents_resolve

lemma components_root_dir: "components root_dir = '''' # root_names"
  by (simp add: root_dir_def root_names_def)

lemma root_names_entry: "\<forall>n\<in>set root_names. entry_name n"
  by (simp add: root_names_def entry_name_def)

lemma node_at_Some_Dir: "node_at fs (x # xs) = Some m \<Longrightarrow> \<exists>es. fs = Dir es"
  by (cases fs) auto

lemma canon_root_dir:
  assumes "node_at fs root_names = Some m"
  shows "canon fs [] (components root_dir @ cs) = canon fs root_names cs"
proof -
  obtain es where "fs = Dir es" using assms node_at_Some_Dir [of fs "''home''"] by (auto simp: root_names_def)
  then show ?thesis using canon_names [of fs "[]" root_names m cs] assms root_names_entry
    by (simp add: components_root_dir)
qed

lemma lookup_below_root:
  assumes "node_at fs root_names = Some m"
  shows "lookup_path fs (root_dir @ CHR ''/'' # r) =
           (case canon fs root_names (components r) of None \<Rightarrow> None | Some q \<Rightarrow> node_at fs q)"
  by (simp add: lookup_path_def components_slash canon_root_dir [OF assms])

text \<open>From a directory, a slash and the name of an entry lead to the entry.\<close>

lemma lookup_entry:
  assumes "lookup_path fs p = Some (Dir es)" "map_of es n = Some m" "entry_name n"
  shows "lookup_path fs (p @ CHR ''/'' # n) = Some m"
proof -
  obtain h where h: "canon fs [] (components p) = Some h" "node_at fs h = Some (Dir es)"
    using assms(1) by (auto simp: lookup_path_def split: option.splits)
  have "canon fs h [n] = Some (h @ [n])" using canon_entry [OF h(2) _ assms(3), of "[]"] assms(2) by simp
  moreover have "components n = [n]" using assms(3) by (simp add: entry_name_def components_name)
  ultimately show ?thesis
    using h assms(2) by (simp add: lookup_path_def components_slash canon_append node_at_append)
qed

lemma lookup_slash: "lookup_path fs (p @ ''/'') = Some (Dir es) \<Longrightarrow> lookup_path fs p = Some (Dir es)"
  by (auto simp: lookup_path_def components_slash canon_append split: option.splits node.splits)

text \<open>
  The page of a directory whose path ends in a slash links every file in it, and a request for the link
  returns the contents of the file, provided the link is not taken for a search.
\<close>

theorem listing_links_lead_to_files:
  assumes "wf_node fs" and "lookup_path fs (root_dir @ d @ ''/'') = Some (Dir es)"
    and "map_of es n = Some (File c)" and "\<not> prefix ''/search'' (d @ ''/'' @ n)"
  shows \<open>res_status (http_get fs (d @ ''/'')) = 200 \<and>
         sublist (''<a href="'' @ (d @ ''/'' @ n) @ ''" download>Download</a>'') (res_body (http_get fs (d @ ''/''))) \<and>
         res_status (http_get fs (d @ ''/'' @ n)) = 200 \<and> res_body (http_get fs (d @ ''/'' @ n)) = c\<close>
proof -
  let ?p = "root_dir @ d @ ''/''" and ?link = \<open>''<a href="'' @ (d @ ''/'' @ n) @ ''" download>Download</a>''\<close>
  have name: "entry_name n" using wf_lookup_entry [OF assms(1-3)] .
  have dir: "lookup_path fs (root_dir @ d) = Some (Dir es)" using lookup_slash [of fs "root_dir @ d"] assms(2) by simp
  have got: "lookup_path fs (root_dir @ d @ ''/'' @ n) = Some (File c)"
    using lookup_entry [OF dir assms(3) name] by simp
  have item: "lookup_path fs (?p @ ''/'' @ n) = Some (File c)"
    using lookup_entry [OF assms(2,3) name] by simp
  have nosearch: "\<not> prefix ''/search'' (d @ ''/'')" using assms(4) by (metis append_assoc prefix_prefix)
  have page: "http_get fs (d @ ''/'') = \<lparr>res_status = 200, res_version = 11, res_content_type = ''text/html'',
      res_keep_alive = False, res_body = html_body fs ?p (d @ ''/'') (map fst es)\<rparr>"
    using assms(2) nosearch by (simp add: request_defs)
  obtain es1 m es2 where es: "es = es1 @ (n, m) # es2"
    using assms(3) by (metis map_of_SomeD split_list)
  have "html_item fs ?p (d @ ''/'') n = (''<li>'' @ n @ '' - '') @ ?link @ (''</li></br>'' @ nl)"
    using item by (simp add: html_item_def is_directory_def)
  then have "html_body fs ?p (d @ ''/'') (map fst es) =
      (html_head @ concat (map (html_item fs ?p (d @ ''/'')) (map fst es1)) @ ''<li>'' @ n @ '' - '') @ ?link @
      (''</li></br>'' @ nl @ concat (map (html_item fs ?p (d @ ''/'')) (map fst es2)) @ html_tail)"
    by (simp add: html_body_def es)
  then have "sublist ?link (html_body fs ?p (d @ ''/'') (map fst es))" by (metis sublist_appendI)
  then show ?thesis using page got assms(4) by (simp add: request_defs)
qed

text \<open>A file system that serves the layout of the repository's \<open>res\<close> directory, with short contents and one file beside it.\<close>

definition sample_fs :: node where
  "sample_fs =
     Dir [(''home'', Dir [(''sw'', Dir [(''Documents'', Dir [(''cxx'', Dir [
       (''README.md'', File ''readme''),
       (''res'', Dir [(''cpp'', Dir [(''1.txt'', File ''one'')]), (''index.html'', File ''index''),
                     (''upload'', Dir [(''upload'', File ''old'')])])])])])])]"

lemma sample_fs_root:
  "node_at sample_fs root_names =
     Some (Dir [(''cpp'', Dir [(''1.txt'', File ''one'')]), (''index.html'', File ''index''),
                (''upload'', Dir [(''upload'', File ''old'')])])"
  by (simp add: sample_fs_def root_names_def)

lemma sample_fs_wf: "wf_node sample_fs"
  by (simp add: sample_fs_def entry_name_def)

lemmas sample_lookup = lookup_below_root [OF sample_fs_root]

theorem listing_links_lead_to_files_witness:
  \<open>lookup_path sample_fs (root_dir @ ''/cpp/'') = Some (Dir [(''1.txt'', File ''one'')]) \<and>
   sublist ''<a href="/cpp/1.txt" download>Download</a>'' (res_body (http_get sample_fs ''/cpp/'')) \<and>
   res_body (http_get sample_fs ''/cpp/1.txt'') = ''one''\<close>
proof -
  have "lookup_path sample_fs (root_dir @ ''/cpp'' @ ''/'') = Some (Dir [(''1.txt'', File ''one'')])"
    using sample_lookup [of "''cpp/''"] sample_fs_root by (simp add: node_at_append)
  from listing_links_lead_to_files [OF sample_fs_wf this, of "''1.txt''" "''one''"] this show ?thesis
    by (simp add: entry_name_def)
qed

text \<open>Without the slash at the end the links of the page drop it too: the page of \<open>/cpp\<close> links \<open>/cpp1.txt\<close>, which does not exist.\<close>

theorem listing_without_slash_breaks_links:
  \<open>sublist ''<a href="/cpp1.txt" download>Download</a>'' (res_body (http_get sample_fs ''/cpp'')) \<and>
   res_status (http_get sample_fs ''/cpp1.txt'') = 404\<close>
proof -
  have dir: "lookup_path sample_fs (root_dir @ ''/cpp'') = Some (Dir [(''1.txt'', File ''one'')])"
    using sample_lookup [of "''cpp''"] sample_fs_root by (simp add: node_at_append)
  have item: "\<not> is_directory sample_fs (root_dir @ ''/cpp/1.txt'')"
    using sample_lookup [of "''cpp/1.txt''"] sample_fs_root by (simp add: node_at_append is_directory_def)
  have \<open>res_body (http_get sample_fs ''/cpp'') = html_head @ (''<li>1.txt - '' @
     ''<a href="/cpp1.txt" download>Download</a>'' @ ''</li></br>'' @ nl) @ html_tail\<close>
    using dir item by (simp add: request_defs html_body_def html_item_def)
  then have \<open>sublist ''<a href="/cpp1.txt" download>Download</a>'' (res_body (http_get sample_fs ''/cpp''))\<close>
    by (metis append_assoc sublist_appendI)
  moreover have "lookup_path sample_fs (root_dir @ ''/cpp1.txt'') = None"
    using sample_lookup [of "''cpp1.txt''"] sample_fs_root by simp
  ultimately show ?thesis by (simp add: request_defs)
qed

text \<open>
  A search opens \<open>search\<close> below the served directory first: where there is no such directory (the repository has
  none) every search is answered with 404.
\<close>

theorem search_needs_directory:
  "prefix ''/search'' target \<Longrightarrow> lookup_path fs (root_dir @ ''/search'') = None \<Longrightarrow>
     res_status (http_get fs target) = 404"
  by (auto simp: request_defs prefix_def)

subsection \<open>Uploads\<close>

lemma upload_dir_root: "upload_dir = root_dir @ ''/upload'' @ ''/''"
  by (simp add: upload_dir_def root_dir_def)

lemma node_at_prefix_Some: "node_at fs (p @ q) = Some m \<Longrightarrow> \<exists>k. node_at fs p = Some k"
  by (auto simp: node_at_append split: option.splits)

text \<open>A target \<open>/f\<close> names the file \<open>f\<close> of the upload directory.\<close>

lemma write_upload_cases:
  assumes "node_at fs (root_names @ [''upload'']) = Some (Dir es)"
    and "entry_name f"
  shows "write_file fs (upload_dir @ CHR ''/'' # f) body =
           (case map_of es f of Some (Dir ds) \<Rightarrow> None
            | _ \<Rightarrow> Some (put_node fs (root_names @ [''upload'', f]) (File body)))"
proof -
  let ?up = "root_names @ [''upload'']"
  obtain k where k: "node_at fs root_names = Some k" using node_at_prefix_Some [OF assms(1)] by blast
  have f: "components f = [f]" using assms(2) by (simp add: entry_name_def components_name)
  have up: "entry_name ''upload''" by (simp add: entry_name_def)
  have "components (upload_dir @ CHR ''/'' # f) = components root_dir @ [''upload'', '''', f]"
    by (simp add: upload_dir_root components_slash f)
  moreover have "canon fs [] (components root_dir @ [''upload'', '''']) = Some ?up"
    using canon_names [of fs root_names "[''upload'']" _ "['''']", OF assms(1)] up assms(1)
    by (simp add: canon_root_dir [OF k] del: canon.simps) simp
  ultimately show ?thesis
    using assms by (auto simp: write_file_def butlast_append entry_name_def split: option.splits node.splits)
qed

lemma write_upload:
  assumes "node_at fs (root_names @ [''upload'']) = Some (Dir es)"
    and "entry_name f" and "\<nexists>ds. map_of es f = Some (Dir ds)"
  shows "write_file fs (upload_dir @ CHR ''/'' # f) body =
           Some (put_node fs (root_names @ [''upload'', f]) (File body))"
  using write_upload_cases [OF assms(1,2)] assms(3) by (auto split: option.splits node.splits)

lemma get_uploaded:
  assumes "node_at fs (root_names @ [''upload'']) = Some (Dir es)" and "entry_name f" and "map_of es f = Some (File c)"
  shows "res_status (http_get fs (''/upload/'' @ f)) = 200 \<and> res_body (http_get fs (''/upload/'' @ f)) = c"
proof -
  let ?names = "[''upload'', f]"
  obtain k where k: "node_at fs root_names = Some k" using node_at_prefix_Some [OF assms(1)] by blast
  have at: "node_at fs (root_names @ ?names) = Some (File c)"
    using assms by (auto simp: node_at_append split: option.splits elim!: node_at.elims)
  have "components (''upload'' @ CHR ''/'' # f) = ?names"
    using assms(2) by (simp only: components_slash) (simp add: entry_name_def components_name)
  moreover have "canon fs root_names ?names = Some (root_names @ ?names)"
    using canon_names [OF at, of "[]"] assms(2) by (simp add: entry_name_def del: canon.simps(2))
  ultimately have "lookup_path fs (root_dir @ ''/upload/'' @ f) = Some (File c)"
    using lookup_below_root [OF k, of "''upload'' @ CHR ''/'' # f"] at by simp
  then show ?thesis by (simp add: request_defs)
qed

text \<open>
  The upload form of the page posts to \<open>/upload\<close>, whatever the name of the chosen file: the whole multipart body becomes
  the contents of the file \<open>upload\<close> of the upload directory, over the previous upload.
\<close>

theorem form_upload_overwrites:
  assumes "node_at fs (root_names @ [''upload'']) = Some (Dir es)" and "\<nexists>ds. map_of es ''upload'' = Some (Dir ds)"
  shows "node_at (snd (handle_upload fs ''/upload'' body)) (root_names @ [''upload'', ''upload'']) = Some (File body)"
proof -
  have "write_file fs (upload_dir @ ''/upload'') body =
      Some (put_node fs ((root_names @ [''upload'']) @ [''upload'']) (File body))"
    using write_upload [OF assms(1) _ assms(2)] by (simp add: entry_name_def)
  then show ?thesis using node_at_put_same [OF assms(1), of "''upload''"] by (simp add: handle_upload_def)
qed

text \<open>When the stream cannot be opened the answer is the same and nothing changes.\<close>

theorem upload_failure_reports_success:
  "write_file fs (upload_dir @ f) body = None \<Longrightarrow>
     handle_upload fs f body = (fst (handle_upload fs' f body'), fs) \<and> res_status (fst (handle_upload fs f body)) = 200"
  by (simp add: handle_upload_def)

subsection \<open>What a request can reach\<close>

lemma components_names:
  "\<forall>n\<in>set ns. CHR ''/'' \<notin> set n \<Longrightarrow> components (p @ concat (map ((#) CHR ''/'') ns)) = components p @ ns"
proof (induction ns arbitrary: p)
  case (Cons n ns)
  have "components ((p @ CHR ''/'' # n) @ concat (map ((#) CHR ''/'') ns)) = components (p @ CHR ''/'' # n) @ ns"
    using Cons.prems by (intro Cons.IH) simp
  moreover have "components (p @ CHR ''/'' # n) = components p @ [n]"
    using Cons.prems by (simp add: components_simps)
  ultimately show ?case by simp
qed simp

lemma node_at_Dir_prefix:
  assumes "node_at fs (ns @ ms) = Some (Dir es)"
  shows "\<exists>ds. node_at fs ns = Some (Dir ds)"
proof (cases ms)
  case (Cons a ms')
  then obtain k where "node_at fs ns = Some k" "node_at k (a # ms') = Some (Dir es)"
    using assms by (auto simp: node_at_append split: option.splits)
  then show ?thesis using node_at_Some_Dir by blast
qed (use assms in simp)

lemma canon_up: "node_at fs h = Some (Dir es) \<Longrightarrow> canon fs h (''..'' # cs) = canon fs (butlast h) cs"
  by simp

text \<open>
  The target is not confined to the served directory: five times two dots lead to the root of the
  file system, from where a request can name and read every file of it.
\<close>

theorem get_reads_every_file:
  assumes "wf_node fs" and "node_at fs root_names = Some (Dir es)" and "node_at fs p = Some (File c)"
  shows "res_status (http_get fs (''/../../../../..'' @ concat (map ((#) CHR ''/'') p))) = 200 \<and>
         res_body (http_get fs (''/../../../../..'' @ concat (map ((#) CHR ''/'') p))) = c"
proof -
  let ?r = "''../../../../..'' @ concat (map ((#) CHR ''/'') p)"
  have p: "\<forall>n\<in>set p. entry_name n" using wf_node_at [OF assms(1,3)] by blast
  have names: "components ?r = [''..'', ''..'', ''..'', ''..'', ''..''] @ p"
    using components_names [of p "''../../../../..''"] p by (simp add: entry_name_def)
  have dirs: "\<exists>ds. node_at fs ns = Some (Dir ds)" if "root_names = ns @ ms" for ns ms
    using assms(2) that node_at_Dir_prefix by metis
  have "canon fs root_names (components ?r) = canon fs [] p"
    using dirs [of root_names "[]"] dirs [of "[''home'', ''sw'', ''Documents'', ''cxx'']" "[''res'']"]
      dirs [of "[''home'', ''sw'', ''Documents'']" "[''cxx'', ''res'']"]
      dirs [of "[''home'', ''sw'']" "[''Documents'', ''cxx'', ''res'']"]
      dirs [of "[''home'']" "[''sw'', ''Documents'', ''cxx'', ''res'']"]
    unfolding names by (auto simp: root_names_def canon_up simp del: canon.simps(2) node_at.simps)
  also have "\<dots> = Some p" using canon_names [of fs "[]" p "File c" "[]"] assms(3) p by simp
  finally have "lookup_path fs (root_dir @ CHR ''/'' # ?r) = Some (File c)"
    using lookup_below_root [OF assms(2), of ?r] assms(3) by simp
  then show ?thesis by (simp add: request_defs)
qed

theorem get_reads_every_file_witness:
  "res_body (http_get sample_fs ''/../../../../../home/sw/Documents/cxx/README.md'') = ''readme''"
proof -
  let ?p = "[''home'', ''sw'', ''Documents'', ''cxx'', ''README.md'']"
  have "node_at sample_fs ?p = Some (File ''readme'')" by (simp add: sample_fs_def)
  from get_reads_every_file [OF sample_fs_wf sample_fs_root this] show ?thesis by (simp add: entry_name_def)
qed

end
