(* ===== verification/Async_Server.thy ===== *)
theory Async_Server
  imports File_Manager
begin

text \<open>
  \<open>include/file_transfer/AsyncServer.hpp\<close>: class \<open>AsyncServer\<close>, which accepts the connections of the file server and gives each to a
  \<open>FileManager\<close>. All coroutines run on one strand, so that a step is what one completion does up to the next
  suspension: an accept (the loop goes on to the next accept and the new connection starts to read), the read of a
  request (it is handled and the writing of the reply starts), the read of the next piece of an open file, from where Beast stopped,
  and the end of the writing. Each of them can fail. Connections are
  numbered in the order of acceptance. \<open>starts_inline\<close> is the parameter of \<open>File_Manager\<close>.
\<close>

record async_server =
  as_port :: "16 word"
  as_threads :: uint32
  as_reuse_address :: bool
  as_started :: bool
  as_accepting :: bool
  as_reading :: "nat list"
  as_next :: nat
  as_fs :: node
  as_sending :: "nat \<rightharpoonup> http_reply \<times> string"
  as_responses :: "(nat \<times> http_response) list"
  as_closed :: "nat list"
  as_fault :: "cxx_fault option"

definition AsyncServer_threads :: "uint32 \<Rightarrow> uint32" where
  "AsyncServer_threads hardware_concurrency = max 1 (hardware_concurrency - 1)"

text \<open>The constructor; \<open>bound\<close> says whether the port could be bound, otherwise it throws.\<close>

definition AsyncServer_new :: "bool \<Rightarrow> 16 word \<Rightarrow> uint32 \<Rightarrow> node \<Rightarrow> async_server option" where
  "AsyncServer_new bound port hardware_concurrency fs =
     (if bound
      then Some \<lparr>as_port = port, as_threads = AsyncServer_threads hardware_concurrency, as_reuse_address = True,
                 as_started = False, as_accepting = False, as_reading = [], as_next = 0, as_fs = fs,
                 as_sending = Map.empty, as_responses = [], as_closed = [], as_fault = None\<rparr>
      else None)"

text \<open>\<open>start\<close> spawns the accept loop and posts the event loop to the pool.\<close>

definition AsyncServer_start :: "async_server \<Rightarrow> async_server" where
  "AsyncServer_start s = s\<lparr>as_started := True, as_accepting := True\<rparr>"

text \<open>
  The body of the accept loop after the accept has completed. The spawned coroutine uses \<open>socket\<close>, a variable of the
  loop's body, by reference. An accept that fails throws out of the loop, and \<open>detached\<close> drops the exception.
\<close>

definition accepted_connection :: "bool \<Rightarrow> bool \<Rightarrow> async_server \<Rightarrow> async_server" where
  "accepted_connection starts_inline ok s =
     (if \<not> ok then s\<lparr>as_accepting := False\<rparr>
      else if starts_inline then s\<lparr>as_reading := as_reading s @ [as_next s], as_next := Suc (as_next s)\<rparr>
      else s\<lparr>as_fault := Some Use_After_Free\<rparr>)"

text \<open>A coroutine ends without having sent its response, and its socket is closed.\<close>

definition close_connection :: "nat \<Rightarrow> async_server \<Rightarrow> async_server" where
  "close_connection c s =
     s\<lparr>as_reading := remove1 c (as_reading s), as_sending := (as_sending s)(c := None), as_closed := as_closed s @ [c]\<rparr>"

text \<open>The read of a request has ended, with the request or (\<open>None\<close>) with an exception, which is caught.\<close>

definition connection_read :: "bool \<Rightarrow> nat \<Rightarrow> http_request option \<Rightarrow> async_server \<Rightarrow> async_server" where
  "connection_read starts_inline c r s =
     (case handle_connection starts_inline r (as_fs s) of
        Inl f \<Rightarrow> s\<lparr>as_fault := Some f\<rparr>
      | Inr (None, fs') \<Rightarrow> close_connection c (s\<lparr>as_fs := fs'\<rparr>)
      | Inr (Some reply, fs') \<Rightarrow>
          s\<lparr>as_reading := remove1 c (as_reading s), as_fs := fs', as_sending := (as_sending s)(c \<mapsto> (reply, []))\<rparr>)"

text \<open>
  \<open>async_write\<close> of a \<open>file_body\<close>: up to \<open>k\<close> of the missing bytes are read from the file as it is now and sent. When the
  file has become too short for any, the write fails.
\<close>

fun body_left :: "reply_body \<Rightarrow> nat \<Rightarrow> nat" where
  "body_left (Text t) sent = 0"
| "body_left (Open_file q n) sent = n - sent"

definition next_piece :: "node \<Rightarrow> reply_body \<Rightarrow> nat \<Rightarrow> nat \<Rightarrow> string" where
  "next_piece fs b sent k =
     (case b of Text t \<Rightarrow> [] | Open_file q n \<Rightarrow> take (min k (n - sent)) (drop sent (contents_at fs q)))"

definition body_read :: "nat \<Rightarrow> nat \<Rightarrow> async_server \<Rightarrow> async_server option" where
  "body_read c k s =
     (case as_sending s c of None \<Rightarrow> None
      | Some (reply, sent) \<Rightarrow>
         (if k = 0 \<or> body_left (res_body reply) (length sent) = 0 then None
          else let piece = next_piece (as_fs s) (res_body reply) (length sent) k in
            Some (if piece = [] then close_connection c s
                  else s\<lparr>as_sending := (as_sending s)(c \<mapsto> (reply, sent @ piece))\<rparr>)))"

definition write_done :: "nat \<Rightarrow> bool \<Rightarrow> async_server \<Rightarrow> async_server option" where
  "write_done c ok s =
     (case as_sending s c of None \<Rightarrow> None
      | Some (reply, sent) \<Rightarrow>
         (if \<not> ok then Some (close_connection c s)
          else if body_left (res_body reply) (length sent) \<noteq> 0 then None
          else Some (s\<lparr>as_sending := (as_sending s)(c := None),
            as_responses := as_responses s @
              [(c, with_body reply (case res_body reply of Text t \<Rightarrow> t | Open_file q n \<Rightarrow> sent))]\<rparr>)))"

datatype async_label =
    Accept_done bool | Read_done nat "http_request option" | Body_read nat nat | Write_done nat bool

fun async_step :: "bool \<Rightarrow> async_label \<Rightarrow> async_server \<Rightarrow> async_server option" where
  "async_step starts_inline (Accept_done ok) s =
     (if as_started s \<and> as_fault s = None \<and> as_accepting s then Some (accepted_connection starts_inline ok s) else None)"
| "async_step starts_inline (Read_done c r) s =
     (if as_started s \<and> as_fault s = None \<and> c \<in> set (as_reading s) then Some (connection_read starts_inline c r s) else None)"
| "async_step starts_inline (Body_read c k) s = (if as_started s \<and> as_fault s = None then body_read c k s else None)"
| "async_step starts_inline (Write_done c ok) s = (if as_started s \<and> as_fault s = None then write_done c ok s else None)"

text \<open>
  \<open>join\<close> waits for the posted event loop, which does not return while the work guard exists; \<open>None\<close> when it
  does not return.
\<close>

definition AsyncServer_join :: "async_server \<Rightarrow> async_server option" where
  "AsyncServer_join s = (if as_started s then None else Some s)"

subsection \<open>Requests one after the other\<close>

text \<open>Each request is answered before the next one is read.\<close>

fun serve_requests :: "http_request option list \<Rightarrow> node \<Rightarrow> (http_response option list \<times> node) result" where
  "serve_requests [] fs = Inr ([], fs)"
| "serve_requests (r # rs) fs =
     and_then (handle_connection True r fs) (\<lambda>(res, fs').
       and_then (serve_requests rs fs') (\<lambda>(ress, fs''). Inr (map_option (sent_at fs') res # ress, fs'')))"

lemma handle_connection_ok: "\<exists>res fs'. handle_connection True r fs = Inr (res, fs')"
  by (auto simp: handle_connection_def split: option.splits verb.splits prod.splits)

lemma serve_requests_append:
  assumes "serve_requests rs fs = Inr (ress, fs')"
  shows "serve_requests (rs @ rs') fs = and_then (serve_requests rs' fs') (\<lambda>(ress', fs''). Inr (ress @ ress', fs''))"
  using assms
proof (induction rs arbitrary: fs ress)
  case Nil
  then show ?case by (cases "serve_requests rs' fs'") auto
next
  case (Cons r rs)
  then obtain res fs1 ress1 where "handle_connection True r fs = Inr (res, fs1)" "serve_requests rs fs1 = Inr (ress1, fs')"
    "ress = map_option (sent_at fs1) res # ress1"
    by (auto simp: and_then_eq_Inr)
  then show ?case using Cons.IH [of fs1 ress1] by (cases "serve_requests rs' fs'") auto
qed

subsection \<open>Every schedule of completions\<close>

text \<open>A connection reads, then its response is sent, then it is answered or closed; it never goes back.\<close>

definition async_inv :: "async_server \<Rightarrow> bool" where
  "async_inv s \<longleftrightarrow> as_started s \<and> as_fault s = None \<and> distinct (as_reading s) \<and>
     (\<forall>c. c \<in> set (as_reading s) \<longrightarrow> c < as_next s \<and> as_sending s c = None) \<and>
     (\<forall>c r t. as_sending s c = Some (r, t) \<longrightarrow> c < as_next s) \<and>
     (\<forall>c res. (c, res) \<in> set (as_responses s) \<longrightarrow> c < as_next s \<and> c \<notin> set (as_reading s) \<and> as_sending s c = None)"

lemma close_inv: "async_inv s \<Longrightarrow> async_inv (close_connection c s)"
  by (auto simp: async_inv_def close_connection_def dest: notin_set_remove1)

lemma async_inv_step:
  assumes "async_inv s" "async_step True l s = Some s'"
  shows "async_inv s'"
proof (cases l)
  case (Accept_done ok)
  then show ?thesis
    using assms by (fastforce simp: async_inv_def accepted_connection_def less_Suc_eq split: if_splits)
next
  case (Read_done c r)
  obtain res fs' where h: "handle_connection True r (as_fs s) = Inr (res, fs')" using handle_connection_ok by blast
  have c: "c \<in> set (as_reading s)" and s': "s' = connection_read True c r s"
    using assms(2) Read_done by (auto split: if_splits)
  show ?thesis
  proof (cases res)
    case None
    have "async_inv (s\<lparr>as_fs := fs'\<rparr>)" using assms(1) by (simp add: async_inv_def)
    from close_inv [OF this] show ?thesis using s' h None by (simp add: connection_read_def)
  next
    case (Some reply)
    have "set (remove1 c (as_reading s)) = set (as_reading s) - {c}" using assms(1) by (simp add: async_inv_def)
    then show ?thesis using assms(1) s' h Some c by (fastforce simp: async_inv_def connection_read_def)
  qed
next
  case (Body_read c k)
  then show ?thesis
    using assms close_inv [OF assms(1), of c]
    by (auto simp: body_read_def Let_def split: if_splits option.splits) (fastforce simp: async_inv_def)+
next
  case (Write_done c ok)
  then show ?thesis
    using assms close_inv [OF assms(1), of c]
    by (auto simp: write_done_def split: if_splits option.splits) (fastforce simp: async_inv_def)+
qed

definition async_begin :: "16 word \<Rightarrow> uint32 \<Rightarrow> node \<Rightarrow> async_server" where
  "async_begin port hw fs = AsyncServer_start (the (AsyncServer_new True port hw fs))"

lemma async_begin_fields:
  "as_fs (async_begin port hw fs) = fs" "as_responses (async_begin port hw fs) = []" "as_fault (async_begin port hw fs) = None"
  "as_started (async_begin port hw fs)" "as_reading (async_begin port hw fs) = []" "as_next (async_begin port hw fs) = 0"
  "as_accepting (async_begin port hw fs)" "as_sending (async_begin port hw fs) = Map.empty" "as_closed (async_begin port hw fs) = []"
  by (simp_all add: async_begin_def AsyncServer_start_def AsyncServer_new_def)

interpretation async: invariant_system "async_step True" "async_begin port hw fs" async_inv
proof
  show "async_inv (async_begin port hw fs)" by (simp add: async_inv_def async_begin_fields)
qed (rule async_inv_step)

text \<open>After \<open>start\<close>, \<open>join\<close> does not return in any reachable state. A failed accept is the last one.\<close>

theorem async_server_runs_for_ever:
  assumes "reach (async_step True) (async_begin port hw fs) s"
  shows "AsyncServer_join s = None"
  using async.inv_reach [OF assms] by (simp add: async_inv_def AsyncServer_join_def)

theorem failed_accept_is_the_last:
  assumes "reach (async_step True) (async_begin port hw fs) s" "as_accepting s"
  shows "\<exists>s'. async_step True (Accept_done False) s = Some s' \<and>
    (\<forall>ls s''. run_labels (async_step True) ls s' = Some s'' \<longrightarrow> as_next s'' = as_next s)"
proof -
  have s: "as_started s" "as_fault s = None" using async.inv_reach [OF assms(1)] by (auto simp: async_inv_def)
  have step: "\<not> as_accepting u' \<and> as_next u' = n" if "\<not> as_accepting u \<and> as_next u = n" "async_step True l u = Some u'" for l u u' n
    using that by (cases l)
      (auto simp: connection_read_def body_read_def write_done_def close_connection_def Let_def split: if_splits option.splits sum.splits)
  have "as_next s'' = as_next s" if "run_labels (async_step True) ls (s\<lparr>as_accepting := False\<rparr>) = Some s''" for ls s''
    using run_keeps [of "\<lambda>u. \<not> as_accepting u \<and> as_next u = as_next s" "async_step True", OF step that] by simp
  then show ?thesis using s assms(2) by (simp add: accepted_connection_def)
qed

text \<open>Were the coroutines not started inline, the first connection would already use a dead variable.\<close>

theorem async_server_needs_inline_start:
  "\<exists>s. async_step False (Accept_done True) (async_begin port hw fs) = Some s \<and> as_fault s = Some Use_After_Free"
  by (simp add: async_begin_fields accepted_connection_def)

subsection \<open>Uploads and downloads\<close>

definition uploaded :: "node \<Rightarrow> string \<Rightarrow> string \<Rightarrow> bool" where
  "uploaded fs f b \<longleftrightarrow>
     (\<exists>es. node_at fs (root_names @ [''upload'']) = Some (Dir es) \<and> map_of es f = Some (File b))"

lemma uploaded_put:
  assumes "node_at fs (root_names @ [''upload'']) = Some (Dir es)"
  shows "uploaded (put_node fs (root_names @ [''upload'', f]) (File b)) f b"
proof -
  let ?up = "root_names @ [''upload'']"
  let ?fs' = "put_node fs (?up @ [f]) (File b)"
  obtain es' where es': "node_at ?fs' ?up = Some (Dir es')"
    using node_at_put_dir [of fs ?up "[]" es f] assms by auto
  have "map_of es' f = Some (File b)"
    using node_at_put_same [OF assms, of f "File b"] unfolding node_at_append [of _ ?up] es' by (simp split: option.splits)
  then show ?thesis using es' by (auto simp: uploaded_def)
qed

text \<open>A request that does not write the file \<open>f\<close> of the upload directory: anything but a post, or a post to another file there.\<close>

definition leaves_file :: "string \<Rightarrow> http_request option \<Rightarrow> bool" where
  "leaves_file f r \<longleftrightarrow>
     (case r of None \<Rightarrow> True
      | Some q \<Rightarrow> req_method q = Post \<longrightarrow>
          req_target q \<noteq> '''' \<and> hd (req_target q) = CHR ''/'' \<and> entry_name (tl (req_target q)) \<and> tl (req_target q) \<noteq> f)"

lemma upload_other_file:
  assumes "uploaded fs f b" "entry_name g" "g \<noteq> f" "write_file fs (upload_dir @ CHR ''/'' # g) body = Some fs'"
  shows "uploaded fs' f b"
proof -
  let ?up = "root_names @ [''upload'']"
  obtain es where es: "node_at fs ?up = Some (Dir es)" "map_of es f = Some (File b)"
    using assms(1) by (auto simp: uploaded_def)
  have fs': "fs' = put_node fs (?up @ [g]) (File body)" and g: "\<nexists>ds. map_of es g = Some (Dir ds)"
    using assms(4) write_upload_cases [OF es(1) assms(2)] by (auto split: option.splits node.splits)
  have "node_at fs (?up @ [f]) = Some (File b)" using node_at_append [of fs ?up "[f]"] es by simp
  from node_at_put_other [OF es(1) g this] have "node_at fs' (?up @ [f]) = Some (File b)" using assms(3) fs' by simp
  moreover obtain es' where "node_at fs' ?up = Some (Dir es')"
    using node_at_put_dir [of fs ?up "[]" es g] es(1) fs' by auto
  ultimately have "map_of es' f = Some (File b)"
    unfolding node_at_append [of fs' ?up] by (simp split: option.splits)
  with \<open>node_at fs' ?up = Some (Dir es')\<close> show ?thesis by (auto simp: uploaded_def)
qed

lemma handle_connection_keeps_upload:
  assumes "uploaded fs f b" "leaves_file f r" "handle_connection True r fs = Inr (res, fs')"
  shows "uploaded fs' f b"
proof (cases "\<exists>q. r = Some q \<and> req_method q = Post")
  case True
  then obtain q g where q: "r = Some q" "req_method q = Post" "req_target q = CHR ''/'' # g" "entry_name g" "g \<noteq> f"
    using assms(2) by (auto simp: leaves_file_def neq_Nil_conv)
  then have "fs' = (case write_file fs (upload_dir @ CHR ''/'' # g) (req_body q) of None \<Rightarrow> fs | Some fs' \<Rightarrow> fs')"
    using assms(3) by (simp add: handle_connection_def handle_upload_def)
  then show ?thesis using upload_other_file [OF assms(1) q(4,5)] assms(1) by (auto split: option.splits)
next
  case False
  then have "fs' = fs" using assms(3) by (auto simp: handle_connection_def split: option.splits verb.splits)
  then show ?thesis using assms(1) by simp
qed

lemma serve_keeps_upload:
  assumes "uploaded fs f b" "\<forall>r\<in>set rs. leaves_file f r"
  shows "\<exists>ress fs'. serve_requests rs fs = Inr (ress, fs') \<and> uploaded fs' f b"
  using assms
proof (induction rs arbitrary: fs)
  case (Cons r rs)
  obtain res fs1 where h: "handle_connection True r fs = Inr (res, fs1)" using handle_connection_ok by blast
  then have "uploaded fs1 f b" using Cons.prems handle_connection_keeps_upload by auto
  then obtain ress fs' where "serve_requests rs fs1 = Inr (ress, fs')" "uploaded fs' f b"
    using Cons.IH [of fs1] Cons.prems by auto
  then show ?case using h by auto
qed simp

text \<open>
  (C38) What is posted to \<open>/f\<close> is what a later request for \<open>/upload/f\<close> returns, for every file name \<open>f\<close> that is not a
  directory there, with any requests of other connections between them that do not write the same file.
\<close>

theorem upload_then_get:
  assumes "node_at fs (root_names @ [''upload'']) = Some (Dir es)"
    and "entry_name f" and "\<nexists>ds. map_of es f = Some (Dir ds)"
    and "req_method post = Post" and "req_target post = ''/'' @ f"
    and "\<forall>r\<in>set others. leaves_file f r"
    and "req_method get = Get" and "req_target get = ''/upload/'' @ f"
  shows "\<exists>ress r fs'. serve_requests (Some post # others @ [Some get]) fs = Inr (ress @ [Some r], fs') \<and>
           res_status r = 200 \<and> res_body r = req_body post"
proof -
  let ?fs1 = "put_node fs (root_names @ [''upload'', f]) (File (req_body post))"
  obtain r1 where r1: "handle_connection True (Some post) fs = Inr (Some r1, ?fs1)"
    using write_upload [OF assms(1-3), of "req_body post"] assms(4,5) by (simp add: handle_connection_def handle_upload_def)
  obtain ress fs2 where s: "serve_requests others ?fs1 = Inr (ress, fs2)" "uploaded fs2 f (req_body post)"
    using serve_keeps_upload [OF uploaded_put [OF assms(1)] assms(6)] by blast
  then obtain es2 where "node_at fs2 (root_names @ [''upload'']) = Some (Dir es2)" "map_of es2 f = Some (File (req_body post))"
    by (auto simp: uploaded_def)
  from get_uploaded [OF this(1) assms(2) this(2)]
  have got: "res_status (http_get fs2 (''/upload/'' @ f)) = 200" "res_body (http_get fs2 (''/upload/'' @ f)) = req_body post"
    by simp_all
  have "serve_requests [Some get] fs2 = Inr ([Some (http_get fs2 (''/upload/'' @ f))], fs2)"
    using assms(7,8) by (simp add: handle_connection_def)
  then have "serve_requests (Some post # others @ [Some get]) fs =
      Inr ((Some (sent_at ?fs1 r1) # ress) @ [Some (http_get fs2 (''/upload/'' @ f))], fs2)"
    using r1 serve_requests_append [OF s(1), of "[Some get]"] by simp
  then show ?thesis using got by blast
qed

theorem upload_then_get_witness:
  "\<exists>ress r fs'. serve_requests
       [Some \<lparr>req_method = Post, req_target = ''/note'', req_version = 11, req_keep_alive = True, req_body = ''hello''\<rparr>,
        None,
        Some \<lparr>req_method = Post, req_target = ''/memo'', req_version = 11, req_keep_alive = True, req_body = ''other''\<rparr>,
        Some \<lparr>req_method = Get, req_target = ''/upload/note'', req_version = 11, req_keep_alive = True, req_body = ''''\<rparr>]
       sample_fs = Inr (ress @ [Some r], fs') \<and> res_status r = 200 \<and> res_body r = ''hello''"
proof -
  let ?post = "\<lparr>req_method = Post, req_target = ''/note'', req_version = 11, req_keep_alive = True, req_body = ''hello''\<rparr>"
  let ?memo = "\<lparr>req_method = Post, req_target = ''/memo'', req_version = 11, req_keep_alive = True, req_body = ''other''\<rparr>"
  let ?get = "\<lparr>req_method = Get, req_target = ''/upload/note'', req_version = 11, req_keep_alive = True, req_body = ''''\<rparr>"
  have "node_at sample_fs (root_names @ [''upload'']) = Some (Dir [(''upload'', File ''old'')])"
    using sample_fs_root by (simp add: node_at_append)
  from upload_then_get [OF this, of "''note''" ?post "[None, Some ?memo]" ?get] show ?thesis
    by (simp add: entry_name_def leaves_file_def)
qed

subsection \<open>The size of the pool\<close>

text \<open>
  The pool has at least one thread and one less than the machine reports; where the machine reports 0 (not
  known) the subtraction wraps around and the pool is asked for the largest unsigned number of threads.
\<close>

theorem AsyncServer_threads_value:
  "unat (AsyncServer_threads h) = (if h = 0 then 4294967295 else if h = 1 then 1 else unat h - 1)"
proof -
  consider "h = 0" | "h = 1" | "1 < unat h"
    by (metis less_one linorder_neqE_nat unat_eq_zero unsigned_1 word_unat_eq_iff)
  then show ?thesis
  proof cases
    case 3
    then have "unat (h - 1) = unat h - 1" by (simp add: unat_sub word_le_nat_alt)
    then show ?thesis using 3 by (auto simp: AsyncServer_threads_def max_def word_le_nat_alt)
  qed (simp_all add: AsyncServer_threads_def max_def unsigned_minus_1_eq_mask mask_eq_exp_minus_1)
qed

end
