(* ===== verification/Async_Downloads.thy ===== *)
theory Async_Downloads
  imports Async_Server
begin

text \<open>
  What the clients of the file server get when uploads and downloads overlap. The specification is a store of the uploaded files, \<open>upload_store\<close>,
  which a post changes at once, when its request has been read. A download sends the file piece by piece, while other requests are handled; a post to
  the same file truncates and rewrites it in place.
\<close>

subsection \<open>The store of uploaded files\<close>

definition up_names :: "string list" where
  "up_names = root_names @ [''upload'']"

definition upload_store :: "node \<Rightarrow> string \<rightharpoonup> string" where
  "upload_store fs f = (case node_at fs (up_names @ [f]) of Some (File b) \<Rightarrow> Some b | _ \<Rightarrow> None)"

text \<open>The upload directory exists and has no subdirectories.\<close>

definition flat_uploads :: "node \<Rightarrow> bool" where
  "flat_uploads fs \<longleftrightarrow> (\<exists>es. node_at fs up_names = Some (Dir es) \<and> (\<forall>n ds. map_of es n \<noteq> Some (Dir ds)))"

text \<open>A post, if the request is one, is to a file of the upload directory.\<close>

definition names_upload :: "http_request option \<Rightarrow> bool" where
  "names_upload r \<longleftrightarrow> (\<forall>q. r = Some q \<longrightarrow> req_method q = Post \<longrightarrow> (\<exists>g. req_target q = CHR ''/'' # g \<and> entry_name g))"

fun posted :: "http_request option \<Rightarrow> (string \<times> string) list" where
  "posted None = []"
| "posted (Some q) = (if req_method q = Post then [(tl (req_target q), req_body q)] else [])"

fun posts :: "async_label list \<Rightarrow> (string \<times> string) list" where
  "posts [] = []"
| "posts (Read_done c r # ls) = posted r @ posts ls"
| "posts (l # ls) = posts ls"

definition posts_to :: "string \<Rightarrow> async_label list \<Rightarrow> string list" where
  "posts_to f ls = map snd (filter (\<lambda>p. fst p = f) (posts ls))"

text \<open>The store after posts.\<close>

definition store_posts :: "(string \<times> string) list \<Rightarrow> (string \<rightharpoonup> string) \<Rightarrow> (string \<rightharpoonup> string)" where
  "store_posts ps m = fold (\<lambda>(f, b) m. m(f \<mapsto> b)) ps m"

lemma store_posts_simps [simp]:
  "store_posts [] m = m" "store_posts ((f, b) # ps) m = store_posts ps (m(f \<mapsto> b))"
  "store_posts (ps @ qs) m = store_posts qs (store_posts ps m)"
  by (simp_all add: store_posts_def)

lemma posts_append: "posts (ks @ ls) = posts ks @ posts ls"
  by (induction ks rule: posts.induct) auto

lemma posts_to_Cons: "posts_to f (l # ls) = posts_to f [l] @ posts_to f ls"
  by (cases l) (simp_all add: posts_to_def)

lemma contents_at_store: "upload_store fs f = Some b \<Longrightarrow> contents_at fs (up_names @ [f]) = b"
  by (auto simp: upload_store_def contents_at_def split: option.splits node.splits)

lemma upload_store_dir: "node_at fs up_names = Some (Dir es) \<Longrightarrow>
    upload_store fs f = (case map_of es f of Some (File b) \<Rightarrow> Some b | _ \<Rightarrow> None)"
  by (simp add: upload_store_def node_at_append split: option.split)

lemma handle_upload_store:
  assumes "flat_uploads fs" "entry_name g"
  shows "flat_uploads (snd (handle_upload fs (CHR ''/'' # g) body)) \<and>
    upload_store (snd (handle_upload fs (CHR ''/'' # g) body)) = (upload_store fs)(g \<mapsto> body)"
proof -
  obtain es where es: "node_at fs up_names = Some (Dir es)" "\<forall>n ds. map_of es n \<noteq> Some (Dir ds)"
    using assms(1) by (auto simp: flat_uploads_def)
  let ?fs' = "put_node fs (up_names @ [g]) (File body)"
  have "write_file fs (upload_dir @ CHR ''/'' # g) body = Some ?fs'"
    using write_upload [of fs es g body] es assms(2) by (simp add: up_names_def)
  then have "snd (handle_upload fs (CHR ''/'' # g) body) = ?fs'" by (simp add: handle_upload_def)
  moreover have es': "node_at ?fs' up_names = Some (Dir (AList.update g (File body) es))"
    by (rule node_at_put_update [OF es(1)])
  moreover have "upload_store ?fs' = (upload_store fs)(g \<mapsto> body)"
    by (auto simp: upload_store_dir [OF es'] upload_store_dir [OF es(1)] update_conv fun_eq_iff)
  ultimately show ?thesis using es(2) by (auto simp: flat_uploads_def update_conv)
qed

lemma handle_connection_store:
  assumes "flat_uploads fs" "names_upload r" "handle_connection True r fs = Inr (res, fs')"
  shows "flat_uploads fs' \<and> upload_store fs' = store_posts (posted r) (upload_store fs)"
proof (cases "\<exists>q. r = Some q \<and> req_method q = Post")
  case True
  then obtain q g where q: "r = Some q" "req_method q = Post" "req_target q = CHR ''/'' # g" "entry_name g"
    using assms(2) by (auto simp: names_upload_def)
  then have "fs' = snd (handle_upload fs (CHR ''/'' # g) (req_body q))"
    using assms(3) by (auto simp: handle_connection_def split: prod.splits)
  then show ?thesis using handle_upload_store [OF assms(1) q(4)] q by simp
next
  case False
  then have "fs' = fs" "posted r = []"
    using assms(3) by (cases r; auto simp: handle_connection_def split: option.splits verb.splits)+
  then show ?thesis using assms(1) by simp
qed

text \<open>The reply to a download.\<close>

definition download :: "string \<Rightarrow> http_request \<Rightarrow> bool" where
  "download f q \<longleftrightarrow> req_method q = Get \<and> req_target q = ''/upload/'' @ f \<and> entry_name f"

lemma handle_download:
  assumes "flat_uploads fs" "download f q"
  shows "\<exists>reply. handle_connection True (Some q) fs = Inr (Some reply, fs) \<and>
    (case upload_store fs f of None \<Rightarrow> res_status reply = 404 \<and> res_body reply = Text ''404 Not Found''
     | Some b \<Rightarrow> res_status reply = 200 \<and> res_body reply = Open_file (up_names @ [f]) (length b))"
proof -
  obtain es where es: "node_at fs up_names = Some (Dir es)" "\<forall>n ds. map_of es n \<noteq> Some (Dir ds)"
    using assms(1) by (auto simp: flat_uploads_def)
  obtain k where k: "node_at fs root_names = Some k" using node_at_prefix_Some [of fs root_names] es(1) unfolding up_names_def by blast
  have f: "entry_name f" using assms(2) by (simp add: download_def)
  let ?p = "root_dir @ ''/upload/'' @ f"
  have "components (''upload'' @ CHR ''/'' # f) = [''upload'', f]"
    using f by (simp only: components_slash) (simp add: entry_name_def components_name)
  moreover have "canon fs root_names [''upload'', f] = canon fs up_names [f]"
    using canon_names [of fs root_names "[''upload'']" "Dir es" "[f]"] es(1) by (simp add: up_names_def entry_name_def del: canon.simps)
  ultimately have r: "resolve fs ?p = canon fs up_names [f]"
    using canon_root_dir [OF k, of "[''upload'', f]"] by (simp add: resolve_def components_slash)
  have q: "req_method q = Get" "req_target q = ''/upload/'' @ f" using assms(2) by (simp_all add: download_def)
  show ?thesis
  proof (cases "map_of es f")
    case None
    then have "lookup_path fs ?p = None"
      using r es(1) f by (auto simp: lookup_path_def resolve_def [symmetric] entry_name_def)
    then show ?thesis using None q by (simp add: handle_connection_def handle_request_def upload_store_dir [OF es(1)])
  next
    case (Some m)
    then obtain b where b: "map_of es f = Some (File b)" using es(2) by (cases m) auto
    then have c: "canon fs up_names [f] = Some (up_names @ [f])" using es(1) f by (auto simp: entry_name_def)
    have "node_at fs (up_names @ [f]) = Some (File b)" using es(1) b by (simp add: node_at_append)
    then have "lookup_path fs ?p = Some (File b)" using r c by (simp add: lookup_path_def resolve_def [symmetric])
    then show ?thesis using b q r c by (simp add: handle_connection_def handle_request_def upload_store_dir [OF es(1)])
  qed
qed

subsection \<open>A download while other requests are handled\<close>

text \<open>Every byte of \<open>t\<close> is at its place in one of the versions \<open>vs\<close> of the file.\<close>

definition mixed :: "string \<Rightarrow> string list \<Rightarrow> bool" where
  "mixed t vs \<longleftrightarrow> (\<forall>i<length t. \<exists>v\<in>set vs. i < length v \<and> t ! i = v ! i)"

lemma mixed_more: "mixed t vs \<Longrightarrow> set vs \<subseteq> set vs' \<Longrightarrow> mixed t vs'"
  unfolding mixed_def by blast

lemma mixed_piece:
  assumes "mixed t vs" "v \<in> set vs"
  shows "mixed (t @ take k (drop (length t) v)) vs"
  unfolding mixed_def
proof (intro allI impI)
  fix i assume i: "i < length (t @ take k (drop (length t) v))"
  show "\<exists>u\<in>set vs. i < length u \<and> (t @ take k (drop (length t) v)) ! i = u ! i"
  proof (cases "i < length t")
    case True
    then show ?thesis using assms(1) by (auto simp: mixed_def nth_append)
  next
    case False
    then have "i < length v" "(t @ take k (drop (length t) v)) ! i = v ! i"
      using i by (auto simp: nth_append)
    then show ?thesis using assms(2) by blast
  qed
qed

text \<open>
  Connection \<open>c\<close> has sent its request and been given \<open>reply\<close>; what has been sent of it so far, or was sent when it was finished,
  satisfies \<open>P\<close>.
\<close>

definition follows :: "nat \<Rightarrow> http_reply \<Rightarrow> (string \<Rightarrow> bool) \<Rightarrow> async_server \<Rightarrow> bool" where
  "follows c reply P s \<longleftrightarrow> c \<notin> set (as_reading s) \<and> c < as_next s \<and>
     (\<forall>r t. as_sending s c = Some (r, t) \<longrightarrow> r = reply \<and> P t) \<and>
     (\<forall>res. (c, res) \<in> set (as_responses s) \<longrightarrow>
        (\<exists>t. P t \<and> body_left (res_body reply) (length t) = 0 \<and>
           res = with_body reply (case res_body reply of Text u \<Rightarrow> u | Open_file q n \<Rightarrow> t)))"

lemma follows_mono: "follows c reply P s \<Longrightarrow> (\<And>t. P t \<Longrightarrow> Q t) \<Longrightarrow> follows c reply Q s"
  unfolding follows_def by meson

lemma close_follows: "follows c reply P s \<Longrightarrow> follows c reply P (close_connection c' s)"
  by (auto simp: follows_def close_connection_def dest: notin_set_remove1)

lemma follows_step:
  assumes "follows c reply P s" "async_step True l s = Some s'"
    and "\<And>t k. P t \<Longrightarrow> P (t @ next_piece (as_fs s) (res_body reply) (length t) k)"
  shows "follows c reply P s'"
proof (cases l)
  case (Accept_done ok)
  then show ?thesis using assms(1,2) by (auto simp: follows_def accepted_connection_def split: if_splits)
next
  case (Read_done c' r)
  obtain res fs' where h: "handle_connection True r (as_fs s) = Inr (res, fs')" using handle_connection_ok by blast
  have c': "c' \<in> set (as_reading s)" "s' = connection_read True c' r s" using assms(2) Read_done by (auto split: if_splits)
  then have "c' \<noteq> c" using assms(1) by (auto simp: follows_def)
  have "follows c reply P (s\<lparr>as_fs := fs'\<rparr>)" using assms(1) by (simp add: follows_def)
  then show ?thesis
    using c'(2) h \<open>c' \<noteq> c\<close> close_follows [of c reply P "s\<lparr>as_fs := fs'\<rparr>" c']
    by (cases res) (auto simp: connection_read_def follows_def dest: notin_set_remove1)
next
  case (Body_read c' k)
  obtain r t where rt: "as_sending s c' = Some (r, t)"
      "s' = (let piece = next_piece (as_fs s) (res_body r) (length t) k in
         if piece = [] then close_connection c' s else s\<lparr>as_sending := (as_sending s)(c' \<mapsto> (r, t @ piece))\<rparr>)"
    using assms(2) Body_read
    by (auto simp: body_read_def Let_def split: option.splits prod.splits if_split_asm)
  show ?thesis
  proof (cases "next_piece (as_fs s) (res_body r) (length t) k = []")
    case True
    then show ?thesis using close_follows [OF assms(1)] rt(2) by simp
  next
    case False
    then show ?thesis using assms(1) assms(3) [of t k] rt by (auto simp: follows_def)
  qed
next
  case (Write_done c' ok)
  then show ?thesis
    using assms(1,2) close_follows [OF assms(1), of c']
    by (auto simp: write_done_def split: if_splits option.splits prod.splits) (fastforce simp: follows_def)
qed

lemma read_follows:
  assumes "async_inv s" "async_step True (Read_done c r) s = Some s'" "handle_connection True r (as_fs s) = Inr (Some reply, fs')" "P []"
  shows "follows c reply P s'"
proof -
  have c: "c \<in> set (as_reading s)" "distinct (as_reading s)" using assms(1,2) by (auto simp: async_inv_def split: if_splits)
  have "s' = s\<lparr>as_reading := remove1 c (as_reading s), as_fs := fs', as_sending := (as_sending s)(c \<mapsto> (reply, []))\<rparr>"
    using assms(2,3) by (auto simp: connection_read_def split: if_splits)
  then show ?thesis using assms(1,4) c by (fastforce simp: follows_def async_inv_def)
qed

text \<open>The file system along a schedule.\<close>

lemma store_step:
  assumes "flat_uploads (as_fs s)" "async_step True l s = Some s'" "\<forall>c r. l = Read_done c r \<longrightarrow> names_upload r"
  shows "flat_uploads (as_fs s') \<and> upload_store (as_fs s') = store_posts (posts [l]) (upload_store (as_fs s))"
proof (cases l)
  case (Read_done c r)
  obtain res fs' where h: "handle_connection True r (as_fs s) = Inr (res, fs')" using handle_connection_ok by blast
  have "as_fs s' = fs'"
    using assms(2) Read_done h by (cases res) (auto simp: connection_read_def close_connection_def split: if_splits)
  moreover have "names_upload r" using assms(3) Read_done by simp
  ultimately show ?thesis using handle_connection_store [OF assms(1) _ h] Read_done by simp
qed (use assms(1,2) in \<open>auto simp: accepted_connection_def body_read_def write_done_def close_connection_def Let_def
    split: if_splits option.splits\<close>)

definition posts_ok :: "async_label list \<Rightarrow> bool" where
  "posts_ok ls \<longleftrightarrow> (\<forall>c r. Read_done c r \<in> set ls \<longrightarrow> names_upload r)"

lemma store_run:
  assumes "flat_uploads (as_fs s)" "run_labels (async_step True) ls s = Some s'" "posts_ok ls"
  shows "flat_uploads (as_fs s') \<and> upload_store (as_fs s') = store_posts (posts ls) (upload_store (as_fs s))"
  using assms
proof (induction ls arbitrary: s)
  case (Cons l ls)
  then obtain s1 where s1: "async_step True l s = Some s1" "run_labels (async_step True) ls s1 = Some s'"
    by (auto split: option.splits)
  have ok: "\<forall>c r. l = Read_done c r \<longrightarrow> names_upload r" "posts_ok ls" using Cons.prems(3) by (auto simp: posts_ok_def)
  note st = store_step [OF Cons.prems(1) s1(1) ok(1)]
  have "posts (l # ls) = posts [l] @ posts ls" using posts_append [of "[l]" ls] by simp
  then show ?case using Cons.IH [OF _ s1(2) ok(2)] st by simp
qed simp

lemma store_posts_latest:
  "store_posts ps m f \<in> (if map snd (filter (\<lambda>p. fst p = f) ps) = [] then {m f} else Some ` set (map snd (filter (\<lambda>p. fst p = f) ps)))"
  by (induction ps rule: rev_induct) (auto split: if_splits intro: rev_image_eqI)

lemma download_run:
  assumes "flat_uploads (as_fs s)" "run_labels (async_step True) ls s = Some s'" "posts_ok ls"
    and "upload_store (as_fs s) f = Some v" "v \<in> set vs"
    and "res_body reply = Open_file (up_names @ [f]) n"
    and "follows c reply (\<lambda>t. length t \<le> n \<and> mixed t vs) s"
  shows "follows c reply (\<lambda>t. length t \<le> n \<and> mixed t (vs @ posts_to f ls)) s'"
  using assms(1-5,7)
proof (induction ls arbitrary: s v vs)
  case (Cons l ls)
  then obtain s1 where s1: "async_step True l s = Some s1" "run_labels (async_step True) ls s1 = Some s'"
    by (auto split: option.splits)
  have ok: "\<forall>c r. l = Read_done c r \<longrightarrow> names_upload r" "posts_ok ls" using Cons.prems(3) by (auto simp: posts_ok_def)
  have "contents_at (as_fs s) (up_names @ [f]) = v"
    by (rule contents_at_store [OF Cons.prems(4)])
  then have piece: "next_piece (as_fs s) (res_body reply) (length t) k = take (min k (n - length t)) (drop (length t) v)" for t k
    by (simp add: next_piece_def assms(6))
  have "follows c reply (\<lambda>t. length t \<le> n \<and> mixed t vs) s1"
    by (rule follows_step [OF Cons.prems(6) s1(1)]) (use Cons.prems(5) in \<open>auto simp: piece intro: mixed_piece\<close>)
  then have "follows c reply (\<lambda>t. length t \<le> n \<and> mixed t (vs @ posts_to f [l])) s1"
    by (rule follows_mono) (auto elim: mixed_more)
  moreover have st: "flat_uploads (as_fs s1)" "upload_store (as_fs s1) = store_posts (posts [l]) (upload_store (as_fs s))"
    using store_step [OF Cons.prems(1) s1(1) ok(1)] by simp_all
  moreover obtain u where "upload_store (as_fs s1) f = Some u" "u \<in> set (vs @ posts_to f [l])"
    using store_posts_latest [of "posts [l]" "upload_store (as_fs s)" f] Cons.prems(4,5) st(2)
    by (auto simp: posts_to_def split: if_splits)
  ultimately have "follows c reply (\<lambda>t. length t \<le> n \<and> mixed t ((vs @ posts_to f [l]) @ posts_to f ls)) s'"
    using Cons.IH [OF st(1) s1(2) ok(2)] by blast
  then show ?case by (subst posts_to_Cons) simp
qed (simp add: posts_to_def)

lemma answered_run:
  assumes "follows c reply (\<lambda>t. True) s" "run_labels (async_step True) ls s = Some s'"
  shows "follows c reply (\<lambda>t. True) s'"
  using run_keeps [of "follows c reply (\<lambda>t. True)" "async_step True", OF _ assms(2,1)] follows_step by blast

text \<open>Once its request has been read, a connection is being served, has been answered, or has been closed.\<close>

definition attended :: "nat \<Rightarrow> async_server \<Rightarrow> bool" where
  "attended c s \<longleftrightarrow> as_sending s c \<noteq> None \<or> c \<in> set (as_closed s) \<or> (\<exists>res. (c, res) \<in> set (as_responses s))"

lemma close_attended: "attended c s \<Longrightarrow> attended c (close_connection c' s)"
  by (auto simp: attended_def close_connection_def)

lemma attended_step:
  assumes "attended c s" "async_step True l s = Some s'"
  shows "attended c s'"
proof (cases l)
  case (Read_done c' r)
  obtain res fs' where h: "handle_connection True r (as_fs s) = Inr (res, fs')" using handle_connection_ok by blast
  have "attended c (s\<lparr>as_fs := fs'\<rparr>)" using assms(1) by (simp add: attended_def)
  then show ?thesis
    using assms Read_done h close_attended [of c "s\<lparr>as_fs := fs'\<rparr>" c']
    by (cases res) (auto simp: attended_def connection_read_def split: if_splits)
next
  case (Write_done c' ok)
  then show ?thesis
    using assms by (auto simp: attended_def write_done_def close_connection_def split: if_splits option.splits) blast
qed (use assms in \<open>auto simp: attended_def accepted_connection_def body_read_def write_done_def close_connection_def Let_def
    split: if_splits option.splits\<close>)

lemma write_answers:
  assumes "as_started s" "as_fault s = None" "as_sending s c = Some (reply, t)" "body_left (res_body reply) (length t) = 0"
  shows "\<exists>s'. async_step True (Write_done c True) s = Some s' \<and> (\<exists>res. (c, res) \<in> set (as_responses s'))"
  using assms by (simp add: write_done_def) blast

text \<open>While the file is as long as it was when it was opened, reading the rest and writing it answers the connection.\<close>

lemma sending_can_finish:
  assumes "async_inv s" "as_sending s c = Some (reply, t)"
    and "\<And>q n. res_body reply = Open_file q n \<Longrightarrow> n \<le> length (contents_at (as_fs s) q)"
  shows "\<exists>ks s' res. run_labels (async_step True) ks s = Some s' \<and> (c, res) \<in> set (as_responses s')"
proof -
  have s: "as_started s" "as_fault s = None" using assms(1) by (auto simp: async_inv_def)
  show ?thesis
  proof (cases "body_left (res_body reply) (length t) = 0")
    case True
    from write_answers [OF s assms(2) this] obtain s' res
      where "async_step True (Write_done c True) s = Some s'" "(c, res) \<in> set (as_responses s')" by blast
    then show ?thesis by (intro exI [of _ "[Write_done c True]"]) auto
  next
    case False
    then obtain q n where b: "res_body reply = Open_file q n" "length t < n" by (cases "res_body reply") auto
    have l: "n \<le> length (contents_at (as_fs s) q)" by (rule assms(3) [OF b(1)])
    define piece where "piece = next_piece (as_fs s) (res_body reply) (length t) n"
    then have p: "piece \<noteq> []" "length (t @ piece) = n" using b l by (auto simp: next_piece_def)
    let ?s1 = "s\<lparr>as_sending := (as_sending s)(c \<mapsto> (reply, t @ piece))\<rparr>"
    have "async_step True (Body_read c n) s = Some ?s1"
      using s assms(2) False p(1) b(2) by (simp add: body_read_def piece_def [symmetric])
    moreover obtain s' res where "async_step True (Write_done c True) ?s1 = Some s'" "(c, res) \<in> set (as_responses s')"
      using write_answers [of ?s1 c reply "t @ piece"] s b(1) p(2) by auto
    ultimately show ?thesis by (intro exI [of _ "[Body_read c n, Write_done c True]"]) auto
  qed
qed

lemma attended_finishes:
  assumes "async_inv s" "attended c s" "follows c reply P s"
    and "\<And>q n. res_body reply = Open_file q n \<Longrightarrow> n \<le> length (contents_at (as_fs s) q)"
  shows "c \<notin> set (as_closed s) \<longrightarrow>
    (\<exists>ks s' res. run_labels (async_step True) ks s = Some s' \<and> (c, res) \<in> set (as_responses s'))"
proof (cases "as_sending s c")
  case None
  then have "c \<in> set (as_closed s) \<or> (\<exists>res. (c, res) \<in> set (as_responses s))" using assms(2) by (simp add: attended_def)
  then show ?thesis by (metis run_labels.simps(1))
next
  case (Some p)
  then have "as_sending s c = Some (reply, snd p)" using assms(3) by (cases p) (auto simp: follows_def)
  from sending_can_finish [OF assms(1) this assms(4)] show ?thesis by blast
qed

lemma store_posts_untouched: "posts_to f ls = [] \<Longrightarrow> store_posts (posts ls) m f = m f"
  using store_posts_latest [of "posts ls" m f] by (simp add: posts_to_def)

subsection \<open>Properties\<close>


text \<open>A client can get a mixture of two contents that the file never had.\<close>

definition torn_download :: "async_label list" where
  "torn_download = [Body_read 1 1,
     Read_done 2 (Some \<lparr>req_method = Post, req_target = ''/upload'', req_version = 11, req_keep_alive = True, req_body = ''small''\<rparr>),
     Body_read 1 9, Write_done 1 True]"

definition before_download :: "async_label list" where
  "before_download = [Accept_done True, Accept_done True, Accept_done True,
     Read_done 0 (Some \<lparr>req_method = Post, req_target = ''/upload'', req_version = 11, req_keep_alive = True, req_body = ''wide''\<rparr>)]"

definition sample_download :: http_request where
  "sample_download = \<lparr>req_method = Get, req_target = ''/upload/upload'', req_version = 11, req_keep_alive = True, req_body = ''''\<rparr>"

theorem download_can_be_torn:
  "map_option as_responses (run_labels (async_step True) (before_download @ Read_done 1 (Some sample_download) # torn_download)
     (async_begin 8080 4 sample_fs)) = Some [(1, \<lparr>res_status = 200, res_version = 11, res_content_type = ''text/plain'',
       res_keep_alive = False, res_body = ''wmal''\<rparr>)]"
  by code_simp


end
