(* ===== verification/WebSocket_Server.thy ===== *)
theory WebSocket_Server
  imports Cxx_Prelude
begin

text \<open>
  \<open>include/chat/WebSocketServer.hpp\<close>: class \<open>WebSocketServer\<close>. The constructor posts a task to the thread pool, which spawns the accept
  loop on the strand and then joins the pool from inside it; \<open>run\<close> runs the event loop in the caller. The line that would start a
  session is commented out, so the loop accepts into the same socket again and again. What Boost.Asio does in two situations is a
  parameter: whether \<open>io_context::run\<close> returns when there is no work, and whether an accept into a socket that is
  already open succeeds (it throws otherwise, which ends the detached loop).
\<close>

record asio_behaviour =
  run_returns_without_work :: bool
  accept_into_open_socket :: bool

datatype ws_loop = Loop_not_spawned | Loop_accepting | Loop_ended

record ws_server =
  ws_threads :: size_t
  ws_port :: "16 word"
  ws_task_posted :: bool
  ws_pool_joining :: bool
  ws_accept_loop :: ws_loop
  ws_socket_open :: bool
  ws_running :: bool
  ws_run_returned :: bool
  ws_accepted :: nat

definition WebSocketServer_new :: "size_t \<Rightarrow> 16 word \<Rightarrow> ws_server" where
  "WebSocketServer_new num_threads port =
     \<lparr>ws_threads = num_threads, ws_port = port, ws_task_posted = True, ws_pool_joining = False,
      ws_accept_loop = Loop_not_spawned, ws_socket_open = False, ws_running = False, ws_run_returned = False, ws_accepted = 0\<rparr>"

datatype ws_label = Pool_task | Call_run | Accept_completes | Run_out_of_work

text \<open>The body of the accept loop: the accepted socket stays open, and the posted handler does nothing.\<close>

definition accept_loop_turn :: "asio_behaviour \<Rightarrow> ws_server \<Rightarrow> ws_server" where
  "accept_loop_turn b s =
     (if ws_socket_open s \<and> \<not> accept_into_open_socket b then s\<lparr>ws_accept_loop := Loop_ended\<rparr>
      else s\<lparr>ws_socket_open := True, ws_accepted := Suc (ws_accepted s)\<rparr>)"

fun ws_step :: "asio_behaviour \<Rightarrow> ws_label \<Rightarrow> ws_server \<Rightarrow> ws_server option" where
  "ws_step b Pool_task s =
     (if ws_task_posted s \<and> 0 < ws_threads s
      then Some (s\<lparr>ws_task_posted := False, ws_accept_loop := Loop_accepting, ws_pool_joining := True\<rparr>) else None)"
| "ws_step b Call_run s =
     (if ws_running s \<or> ws_run_returned s then None
      else Some (if ws_accept_loop s = Loop_not_spawned \<and> run_returns_without_work b
                 then s\<lparr>ws_run_returned := True\<rparr> else s\<lparr>ws_running := True\<rparr>))"
| "ws_step b Accept_completes s =
     (if ws_running s \<and> ws_accept_loop s = Loop_accepting then Some (accept_loop_turn b s) else None)"
| "ws_step b Run_out_of_work s =
     (if ws_running s \<and> ws_accept_loop s = Loop_ended \<and> run_returns_without_work b
      then Some (s\<lparr>ws_running := False, ws_run_returned := True\<rparr>) else None)"

definition ws_once :: "asio_behaviour \<Rightarrow> ws_server \<Rightarrow> bool" where
  "ws_once b s \<longleftrightarrow> accept_into_open_socket b \<or> ws_accepted s \<le> 1 \<and> (ws_accepted s = 1 \<longrightarrow> ws_socket_open s)"

interpretation ws: invariant_system "ws_step b" "WebSocketServer_new n port" "ws_once b"
proof
  fix s l s'
  assume "ws_once b s" "ws_step b l s = Some s'"
  then show "ws_once b s'" by (cases l) (auto simp: ws_once_def accept_loop_turn_def split: if_splits)
qed (simp add: ws_once_def WebSocketServer_new_def)

text \<open>Where an accept into an open socket fails, the server accepts one connection in all, and never serves it.\<close>

theorem ws_accepts_once:
  assumes "reach (ws_step b) (WebSocketServer_new n port) s" and "\<not> accept_into_open_socket b"
  shows "ws_accepted s \<le> 1"
  using ws.inv_reach [OF assms(1)] assms(2) by (simp add: ws_once_def)

text \<open>
  There is no work guard: where \<open>run\<close> returns without work, a \<open>run\<close> that comes before the pool has executed the posted task returns at once,
  and no connection is ever accepted afterwards.
\<close>

theorem ws_run_before_task:
  assumes "run_returns_without_work b" and "run_labels (ws_step b) (Call_run # ls) (WebSocketServer_new n port) = Some s"
  shows "ws_run_returned s \<and> ws_accepted s = 0"
proof -
  have keep: "ws_run_returned s' \<and> \<not> ws_running s' \<and> ws_accepted s' = 0"
    if "run_labels (ws_step b) ls s = Some s'" "ws_run_returned s \<and> \<not> ws_running s \<and> ws_accepted s = 0" for ls s s'
    using that
  proof (induction ls arbitrary: s)
    case (Cons l ls)
    then show ?case by (cases l) (auto split: if_splits)
  qed simp
  have "run_labels (ws_step b) ls ((WebSocketServer_new n port)\<lparr>ws_run_returned := True\<rparr>) = Some s"
    using assms by (simp add: WebSocketServer_new_def)
  from keep [OF this] show ?thesis by (simp add: WebSocketServer_new_def)
qed

end
