(* ===== verification/Redis_Client.thy ===== *)
theory Redis_Client
  imports Cxx_Prelude
begin

text \<open>
  Class \<open>RedisClient\<close> of \<open>include/chat/Redis.hpp\<close>: the contacts of the chat server, kept in the hash \<open>contacts\<close> of a Redis server.
  The hiredis library is outside the program: the result of \<open>redisConnect\<close> is an argument of the constructor and \<open>redisCommand\<close> a
  parameter of the operations, on a server of any type. \<open>redis_hash\<close> states what Redis documents of
  \<open>HSET\<close> and \<open>HGET\<close>.
\<close>

datatype redis_command = HSET string string string | HGET string string

datatype redis_reply =
    Reply_Integer int | Reply_String string | Reply_Nil | Reply_Status string | Reply_Error string

text \<open>The pointer \<open>context_\<close>: null, a connected context, or a context that has been freed.\<close>

datatype redis_context = Ctx_Null | Ctx_Live | Ctx_Freed

type_synonym 's redis = "redis_context \<Rightarrow> redis_command \<Rightarrow> 's \<Rightarrow> redis_reply option \<times> 's"

text \<open>What \<open>%s\<close> and an assignment from \<open>char*\<close> take of a string: the characters before the first NUL.\<close>

definition until_nul :: "string \<Rightarrow> string" where
  "until_nul s = takeWhile (\<lambda>c. c \<noteq> CHR 0x00) s"

text \<open>\<open>redisConnect\<close> returned no context, or a context with its error flag.\<close>

definition RedisClient_new :: "bool option \<Rightarrow> redis_context" where
  "RedisClient_new connected =
     (case connected of None \<Rightarrow> Ctx_Null | Some err \<Rightarrow> if err then Ctx_Freed else Ctx_Live)"

definition RedisClient_destroy :: "redis_context \<Rightarrow> unit result" where
  "RedisClient_destroy ctx =
     (case ctx of Ctx_Null \<Rightarrow> Inr () | Ctx_Live \<Rightarrow> Inr () | Ctx_Freed \<Rightarrow> Inl Use_After_Free)"

definition insertContact :: "'s redis \<Rightarrow> redis_context \<Rightarrow> string \<Rightarrow> string \<Rightarrow> 's \<Rightarrow> (bool \<times> 's) result" where
  "insertContact redisCommand ctx uuid contactInfo srv =
     (if ctx = Ctx_Freed then Inl Use_After_Free
      else case redisCommand ctx (HSET ''contacts'' (until_nul uuid) (until_nul contactInfo)) srv of
        (None, srv') \<Rightarrow> Inr (False, srv')
      | (Some reply, srv') \<Rightarrow> Inr (case reply of Reply_Integer i \<Rightarrow> i > 0 | _ \<Rightarrow> False, srv'))"

definition queryContact :: "'s redis \<Rightarrow> redis_context \<Rightarrow> string \<Rightarrow> 's \<Rightarrow> (string \<times> 's) result" where
  "queryContact redisCommand ctx uuid srv =
     (if ctx = Ctx_Freed then Inl Use_After_Free
      else case redisCommand ctx (HGET ''contacts'' (until_nul uuid)) srv of
        (None, srv') \<Rightarrow> Inr ('''', srv')
      | (Some reply, srv') \<Rightarrow> Inr (case reply of Reply_String s \<Rightarrow> until_nul s | _ \<Rightarrow> '''', srv'))"

text \<open>
  A Redis server on a live connection: \<open>HSET\<close> sets the field and replies 1 when it is new and 0 when it
  was there, \<open>HGET\<close> replies the field's value or nil. \<open>contents\<close> is the key space of hashes.
\<close>

definition redis_hash :: "'s redis \<Rightarrow> ('s \<Rightarrow> string \<Rightarrow> string \<rightharpoonup> string) \<Rightarrow> bool" where
  "redis_hash redisCommand contents \<longleftrightarrow>
     (\<forall>k f v srv. \<exists>srv'.
        redisCommand Ctx_Live (HSET k f v) srv =
          (Some (Reply_Integer (if contents srv k f = None then 1 else 0)), srv') \<and>
        contents srv' = (contents srv)(k := (contents srv k)(f \<mapsto> v))) \<and>
     (\<forall>k f srv. \<exists>srv'.
        redisCommand Ctx_Live (HGET k f) srv =
          (Some (case contents srv k f of None \<Rightarrow> Reply_Nil | Some v \<Rightarrow> Reply_String v), srv') \<and>
        contents srv' = contents srv)"

subsection \<open>The contacts as a map\<close>

datatype contact_op = Insert_contact string string | Query_contact string

datatype contact_result = Inserted bool | Found string

fun contact_op_step :: "'s redis \<Rightarrow> redis_context \<Rightarrow> contact_op \<Rightarrow> 's \<Rightarrow> (contact_result \<times> 's) result" where
  "contact_op_step cmd ctx (Insert_contact u i) srv =
     and_then (insertContact cmd ctx u i srv) (\<lambda>(b, srv'). Inr (Inserted b, srv'))"
| "contact_op_step cmd ctx (Query_contact u) srv =
     and_then (queryContact cmd ctx u srv) (\<lambda>(s, srv'). Inr (Found s, srv'))"

fun contact_run :: "'s redis \<Rightarrow> redis_context \<Rightarrow> contact_op list \<Rightarrow> 's \<Rightarrow> (contact_result list \<times> 's) result" where
  "contact_run cmd ctx [] srv = Inr ([], srv)"
| "contact_run cmd ctx (a # as) srv =
     and_then (contact_op_step cmd ctx a srv) (\<lambda>(r, srv').
       and_then (contact_run cmd ctx as srv') (\<lambda>(rs, srv''). Inr (r # rs, srv'')))"

fun contacts_spec :: "contact_op list \<Rightarrow> (string \<rightharpoonup> string) \<Rightarrow> contact_result list" where
  "contacts_spec [] m = []"
| "contacts_spec (Insert_contact u i # as) m =
     Inserted (until_nul u \<notin> dom m) # contacts_spec as (m(until_nul u \<mapsto> until_nul i))"
| "contacts_spec (Query_contact u # as) m =
     Found (case m (until_nul u) of None \<Rightarrow> '''' | Some i \<Rightarrow> until_nul i) # contacts_spec as m"

lemma insertContact_hash:
  assumes "redis_hash cmd contents"
  shows "\<exists>srv'. insertContact cmd Ctx_Live u i srv = Inr (contents srv ''contacts'' (until_nul u) = None, srv') \<and>
           contents srv' ''contacts'' = (contents srv ''contacts'')(until_nul u \<mapsto> until_nul i)"
proof -
  obtain srv' where "cmd Ctx_Live (HSET ''contacts'' (until_nul u) (until_nul i)) srv =
      (Some (Reply_Integer (if contents srv ''contacts'' (until_nul u) = None then 1 else 0)), srv')"
    "contents srv' = (contents srv)(''contacts'' := (contents srv ''contacts'')(until_nul u \<mapsto> until_nul i))"
    using assms unfolding redis_hash_def by metis
  then show ?thesis by (simp add: insertContact_def)
qed

lemma queryContact_hash:
  assumes "redis_hash cmd contents"
  shows "\<exists>srv'. queryContact cmd Ctx_Live u srv =
             Inr (case contents srv ''contacts'' (until_nul u) of None \<Rightarrow> '''' | Some i \<Rightarrow> until_nul i, srv') \<and>
           contents srv' = contents srv"
proof -
  obtain srv' where "cmd Ctx_Live (HGET ''contacts'' (until_nul u)) srv =
      (Some (case contents srv ''contacts'' (until_nul u) of None \<Rightarrow> Reply_Nil | Some v \<Rightarrow> Reply_String v), srv')"
    "contents srv' = contents srv"
    using assms unfolding redis_hash_def by metis
  then show ?thesis by (auto simp: queryContact_def split: option.splits)
qed

text \<open>
  (C39) On a connected client every sequence of \<open>insertContact\<close> and \<open>queryContact\<close> returns the results of a map of contacts, on
  any server that behaves as Redis documents it: a query returns the last contact stored, cut at
  the first NUL, or the empty string; an insertion stores always, but returns true only for a new contact.
\<close>

theorem contacts_refine_map:
  assumes "redis_hash cmd contents"
  shows "\<exists>srv'. contact_run cmd (RedisClient_new (Some False)) as srv =
                  Inr (contacts_spec as (contents srv ''contacts''), srv')"
proof (induction as arbitrary: srv)
  case (Cons a as)
  show ?case
  proof (cases a)
    case (Insert_contact u i)
    obtain s' where "insertContact cmd Ctx_Live u i srv = Inr (contents srv ''contacts'' (until_nul u) = None, s')"
      "contents s' ''contacts'' = (contents srv ''contacts'')(until_nul u \<mapsto> until_nul i)"
      using insertContact_hash [OF assms] by blast
    moreover obtain srv' where "contact_run cmd (RedisClient_new (Some False)) as s' =
        Inr (contacts_spec as (contents s' ''contacts''), srv')"
      using Cons by blast
    ultimately show ?thesis using Insert_contact by (simp add: RedisClient_new_def domIff)
  next
    case (Query_contact u)
    obtain s' where "queryContact cmd Ctx_Live u srv =
        Inr (case contents srv ''contacts'' (until_nul u) of None \<Rightarrow> '''' | Some i \<Rightarrow> until_nul i, s')"
      "contents s' = contents srv"
      using queryContact_hash [OF assms] by blast
    then show ?thesis using Cons [of s'] Query_contact by (auto simp: RedisClient_new_def)
  qed
qed simp

text \<open>A server that keeps the hashes and nothing else.\<close>

fun hash_server :: "(string \<Rightarrow> string \<rightharpoonup> string) redis" where
  "hash_server ctx (HSET k f v) m =
     (Some (Reply_Integer (if m k f = None then 1 else 0)), m(k := (m k)(f \<mapsto> v)))"
| "hash_server ctx (HGET k f) m = (Some (case m k f of None \<Rightarrow> Reply_Nil | Some v \<Rightarrow> Reply_String v), m)"

lemma hash_server_redis: "redis_hash hash_server (\<lambda>m. m)"
  by (simp add: redis_hash_def)

theorem contacts_refine_map_witness:
  "\<exists>srv'. contact_run hash_server (RedisClient_new (Some False))
       [Insert_contact ''u1'' ''alice'', Insert_contact ''u1'' ''bob'', Query_contact ''u1'', Query_contact ''u2''] (\<lambda>_. Map.empty) =
     Inr ([Inserted True, Inserted False, Found ''bob'', Found ''''], srv')"
  using contacts_refine_map [OF hash_server_redis, of
      "[Insert_contact ''u1'' ''alice'', Insert_contact ''u1'' ''bob'', Query_contact ''u1'', Query_contact ''u2'']" "\<lambda>_. Map.empty"]
  by (simp add: until_nul_def)

text \<open>
  After a failed connection the constructor frees the context and keeps the pointer: every operation uses freed memory
  and the destructor frees it again.
\<close>

theorem failed_connection_dangles:
  "insertContact cmd (RedisClient_new (Some True)) u i srv = Inl Use_After_Free \<and>
   queryContact cmd (RedisClient_new (Some True)) u srv = Inl Use_After_Free \<and>
   RedisClient_destroy (RedisClient_new (Some True)) = Inl Use_After_Free"
  by (simp add: RedisClient_new_def insertContact_def queryContact_def RedisClient_destroy_def)

end
