(* ===== verification/User_Database.thy ===== *)
theory User_Database
  imports Cxx_Prelude "HOL-Library.Multiset"
begin

text \<open>
  Struct \<open>UserInfo\<close> and class \<open>Database\<close> of \<open>include/chat/\<close>, and the gRPC service \<open>DatabaseImpl\<close> of \<open>include/grpc/\<close>. MySQL's X DevAPI is outside
  the program: executing the insertion and executing the selection are parameters, on a database of
  any type, and \<open>None\<close> is a thrown \<open>mysqlx::Error\<close>. So is \<open>localtime\<close>, which depends on the time zone. \<open>user_table\<close>
  states what the table promises.
\<close>

text \<open>A time point counts nanoseconds.\<close>

record user_info =
  ui_username :: string
  ui_passwordHash :: string
  ui_status :: string
  ui_friends :: "string list"
  ui_createTime :: int

record tm =
  tm_year :: nat
  tm_mon :: nat
  tm_mday :: nat
  tm_hour :: nat
  tm_min :: nat
  tm_sec :: nat

record user_row =
  row_username :: string
  row_password_hash :: string
  row_status :: string
  row_create_time :: string

text \<open>\<open>system_clock::to_time_t\<close> drops the fraction of a second, towards zero.\<close>

definition to_time_t :: "int \<Rightarrow> int" where
  "to_time_t ns = sgn ns * (\<bar>ns\<bar> div 1000000000)"

definition two_digits :: "nat \<Rightarrow> string" where
  "two_digits n = (if n < 10 then ''0'' @ decimal n else decimal n)"

text \<open>\<open>put_time\<close> with the format \<open>%Y-%m-%d %H:%M:%S\<close>; \<open>tm_year\<close> counts from 1900 and \<open>tm_mon\<close> from 0.\<close>

definition put_time :: "tm \<Rightarrow> string" where
  "put_time t =
     decimal (1900 + tm_year t) @ ''-'' @ two_digits (tm_mon t + 1) @ ''-'' @ two_digits (tm_mday t) @ '' '' @
     two_digits (tm_hour t) @ '':'' @ two_digits (tm_min t) @ '':'' @ two_digits (tm_sec t)"

record database =
  db_host :: string
  db_user :: string
  db_password :: string
  db_database :: string
  db_session :: "string \<times> nat \<times> string \<times> string"
  db_table :: "string \<times> string"

definition Database_new :: "string \<Rightarrow> string \<Rightarrow> string \<Rightarrow> string \<Rightarrow> database" where
  "Database_new host user password database =
     \<lparr>db_host = host, db_user = user, db_password = password, db_database = database,
      db_session = (''localhost'', 3306, ''sw'', ''0''), db_table = (''transfer'', ''user_log'')\<rparr>"

definition registerUser ::
  "(user_row \<Rightarrow> 'd \<Rightarrow> 'd option) \<Rightarrow> (int \<Rightarrow> tm) \<Rightarrow> user_info \<Rightarrow> 'd \<Rightarrow> bool \<times> 'd" where
  "registerUser insert_row localtime userInfo d =
     (let time = to_time_t (ui_createTime userInfo);
          row = \<lparr>row_username = ui_username userInfo, row_password_hash = ui_passwordHash userInfo,
                 row_status = ui_status userInfo, row_create_time = put_time (localtime time)\<rparr> in
      case insert_row row d of Some d' \<Rightarrow> (True, d') | None \<Rightarrow> (False, d))"

definition loginUser :: "(string \<Rightarrow> string \<Rightarrow> 'd \<Rightarrow> nat option) \<Rightarrow> string \<Rightarrow> string \<Rightarrow> 'd \<Rightarrow> bool" where
  "loginUser count_rows username passwordHash d =
     (case count_rows username passwordHash d of Some n \<Rightarrow> n > 0 | None \<Rightarrow> False)"

text \<open>
  The table: an insertion that succeeds adds the row, and a selection that succeeds counts the rows
  whose name and hash equal the given ones in the collation \<open>eq\<close> of the columns.
\<close>

definition user_table ::
  "(string \<Rightarrow> string \<Rightarrow> bool) \<Rightarrow> (user_row \<Rightarrow> 'd \<Rightarrow> 'd option) \<Rightarrow> (string \<Rightarrow> string \<Rightarrow> 'd \<Rightarrow> nat option) \<Rightarrow>
   ('d \<Rightarrow> user_row multiset) \<Rightarrow> bool" where
  "user_table eq insert_row count_rows rows \<longleftrightarrow>
     (\<forall>r d d'. insert_row r d = Some d' \<longrightarrow> rows d' = add_mset r (rows d)) \<and>
     (\<forall>u h d n. count_rows u h d = Some n \<longrightarrow>
        n = size {# r \<in># rows d. eq (row_username r) u \<and> eq (row_password_hash r) h #})"

text \<open>A sequence of registrations, with the users for whom \<open>registerUser\<close> returned true.\<close>

fun register_all ::
  "(user_row \<Rightarrow> 'd \<Rightarrow> 'd option) \<Rightarrow> (int \<Rightarrow> tm) \<Rightarrow> user_info list \<Rightarrow> 'd \<Rightarrow> user_info list \<times> 'd" where
  "register_all insert_row localtime [] d = ([], d)"
| "register_all insert_row localtime (u # us) d =
     (case registerUser insert_row localtime u d of (ok, d') \<Rightarrow>
        (case register_all insert_row localtime us d' of (accepted, d'') \<Rightarrow>
           ((if ok then u # accepted else accepted), d'')))"

text \<open>The gRPC service ignores the request.\<close>

definition GetUserInfo :: "string \<Rightarrow> string \<times> int" where
  "GetUserInfo uid = (''John Doe'', 100000)"

lemma size_filter_mset_0: "size (filter_mset P M) = 0 \<longleftrightarrow> \<not> (\<exists>x \<in># M. P x)"
  by (induction M) auto

lemma bex_pair_image: "(\<exists>x\<in>A. P (f x) \<and> Q (g x)) \<longleftrightarrow> (\<exists>y\<in>(\<lambda>x. (f x, g x)) ` A. P (fst y) \<and> Q (snd y))"
  by simp

lemma loginUser_iff:
  assumes "user_table eq insert_row count_rows rows" and "count_rows u h d \<noteq> None"
  shows "loginUser count_rows u h d \<longleftrightarrow>
           (\<exists>r \<in># rows d. eq (row_username r) u \<and> eq (row_password_hash r) h)"
proof -
  obtain n where n: "count_rows u h d = Some n" using assms(2) by blast
  then have "n = size {# r \<in># rows d. eq (row_username r) u \<and> eq (row_password_hash r) h #}"
    using assms(1) by (simp add: user_table_def)
  then have "n = 0 \<longleftrightarrow> \<not> (\<exists>r \<in># rows d. eq (row_username r) u \<and> eq (row_password_hash r) h)"
    by (simp only: size_filter_mset_0)
  then show ?thesis using n by (auto simp: loginUser_def)
qed

lemma register_all_rows:
  assumes "user_table eq insert_row count_rows rows"
    and "register_all insert_row localtime us d = (accepted, d')"
  shows "\<exists>new. rows d' = rows d + new \<and>
           image_mset (\<lambda>r. (row_username r, row_password_hash r)) new =
           mset (map (\<lambda>u. (ui_username u, ui_passwordHash u)) accepted)"
  using assms(2)
proof (induction us arbitrary: d accepted)
  case (Cons u us)
  let ?row = "\<lparr>row_username = ui_username u, row_password_hash = ui_passwordHash u, row_status = ui_status u,
      row_create_time = put_time (localtime (to_time_t (ui_createTime u)))\<rparr>"
  show ?case
  proof (cases "insert_row ?row d")
    case None
    then show ?thesis using Cons by (auto simp: registerUser_def split: prod.splits)
  next
    case (Some d1)
    then have "rows d1 = add_mset ?row (rows d)" using assms(1) by (simp add: user_table_def)
    moreover obtain acc where acc: "accepted = u # acc" "register_all insert_row localtime us d1 = (acc, d')"
      using Cons.prems Some by (auto simp: registerUser_def split: prod.splits)
    moreover obtain new where "rows d' = rows d1 + new"
      "image_mset (\<lambda>r. (row_username r, row_password_hash r)) new =
       mset (map (\<lambda>u. (ui_username u, ui_passwordHash u)) acc)"
      using Cons.IH [OF acc(2)] by blast
    ultimately show ?thesis by (intro exI [of _ "add_mset ?row new"]) simp
  qed
qed simp

text \<open>
  (C40) After any sequence of registrations on an empty table, whichever of them failed, a login whose query
  does not fail succeeds exactly for the names and hashes of the registrations that returned true,
  up to the collation of the table.
\<close>

theorem login_iff_registered:
  assumes "user_table eq insert_row count_rows rows" and "rows d = {#}"
    and "register_all insert_row localtime us d = (accepted, d')" and "count_rows name hash d' \<noteq> None"
  shows "loginUser count_rows name hash d' \<longleftrightarrow>
           (\<exists>u \<in> set accepted. eq (ui_username u) name \<and> eq (ui_passwordHash u) hash)"
proof -
  have "image_mset (\<lambda>r. (row_username r, row_password_hash r)) (rows d') =
      mset (map (\<lambda>u. (ui_username u, ui_passwordHash u)) accepted)"
    using register_all_rows [OF assms(1,3)] assms(2) by auto
  then have "(\<lambda>r. (row_username r, row_password_hash r)) ` set_mset (rows d') =
      (\<lambda>u. (ui_username u, ui_passwordHash u)) ` set accepted"
    by (metis set_image_mset set_map set_mset_mset)
  then have "(\<exists>r \<in># rows d'. eq (row_username r) name \<and> eq (row_password_hash r) hash) \<longleftrightarrow>
      (\<exists>u \<in> set accepted. eq (ui_username u) name \<and> eq (ui_passwordHash u) hash)"
    using bex_pair_image [of "set_mset (rows d')" "\<lambda>x. eq x name" row_username "\<lambda>x. eq x hash" row_password_hash]
      bex_pair_image [of "set accepted" "\<lambda>x. eq x name" ui_username "\<lambda>x. eq x hash" ui_passwordHash]
    by (simp del: bex_simps)
  then show ?thesis using loginUser_iff [OF assms(1,4)] by simp
qed

text \<open>A table in memory that refuses empty names.\<close>

definition list_insert :: "user_row \<Rightarrow> user_row list \<Rightarrow> user_row list option" where
  "list_insert r d = (if row_username r = '''' then None else Some (d @ [r]))"

definition list_count :: "string \<Rightarrow> string \<Rightarrow> user_row list \<Rightarrow> nat option" where
  "list_count u h d = Some (length (filter (\<lambda>r. row_username r = u \<and> row_password_hash r = h) d))"

lemma list_user_table: "user_table (=) list_insert list_count mset"
  by (simp add: user_table_def list_insert_def list_count_def flip: mset_filter)

theorem login_iff_registered_witness:
  "\<exists>d'. register_all list_insert (\<lambda>_. \<lparr>tm_year = 124, tm_mon = 1, tm_mday = 14, tm_hour = 9, tm_min = 30, tm_sec = 20\<rparr>)
       [\<lparr>ui_username = ''sw'', ui_passwordHash = ''h1'', ui_status = ''on'', ui_friends = [], ui_createTime = 0\<rparr>,
        \<lparr>ui_username = '''', ui_passwordHash = ''h2'', ui_status = ''on'', ui_friends = [], ui_createTime = 0\<rparr>] [] =
       ([\<lparr>ui_username = ''sw'', ui_passwordHash = ''h1'', ui_status = ''on'', ui_friends = [], ui_createTime = 0\<rparr>], d') \<and>
     loginUser list_count ''sw'' ''h1'' d' \<and> \<not> loginUser list_count ''sw'' ''h2'' d'"
proof -
  let ?lt = "\<lambda>_. \<lparr>tm_year = 124, tm_mon = 1, tm_mday = 14, tm_hour = 9, tm_min = 30, tm_sec = 20\<rparr>"
  let ?u = "\<lparr>ui_username = ''sw'', ui_passwordHash = ''h1'', ui_status = ''on'', ui_friends = [], ui_createTime = 0\<rparr>"
  let ?v = "\<lparr>ui_username = '''', ui_passwordHash = ''h2'', ui_status = ''on'', ui_friends = [], ui_createTime = 0\<rparr>"
  obtain d' where d': "register_all list_insert ?lt [?u, ?v] [] = ([?u], d')"
    by (simp add: registerUser_def list_insert_def)
  have "loginUser list_count n h d' \<longleftrightarrow> (\<exists>u \<in> set [?u]. ui_username u = n \<and> ui_passwordHash u = h)" for n h
    using login_iff_registered [OF list_user_table _ d', of n h] by (simp add: list_count_def)
  with d' show ?thesis by auto
qed

text \<open>The session and the table do not depend on the arguments of the constructor.\<close>

theorem Database_ignores_arguments:
  "db_session (Database_new h u p d) = (''localhost'', 3306, ''sw'', ''0'') \<and>
   db_table (Database_new h u p d) = (''transfer'', ''user_log'')"
  by (simp add: Database_new_def)

end
