(* ===== verification/Spec2Isabelle.thy ===== *)
theory Spec2Isabelle
  imports Safe_Queue Safe_Stack Safe_Circle_Queue Two_Lock_Queue Nolock_Queue Locked_List_Safety Locked_Map Atm_Outcomes Echo_Main
    CSP_Channel Thread_Pool Asio_Thread_Pool My_Utility Async_Downloads WebSocket_Server Redis_Client User_Database
begin

text \<open>
  \<^bold>\<open>A verification of the cxx library.\<close>

  The repository is a collection of C++ components: thread-safe containers, thread pools and a channel, a
  cash machine built of message-passing state machines, an asynchronous echo server, a file
  server, and the storage classes of a chat server. Each theory models one header (or one class) in
  the order of the code; names are those of the code. This theory joins them.

  \<^bold>\<open>Shared vocabulary.\<close>
  \<^item> \<open>Cxx_Prelude\<close>: machine integers, faults (undefined behaviour and escaping exceptions are values of
    \<open>cxx_fault\<close>, so a theorem with \<open>Inr\<close> says that none occurs), schedules and reachable states, the locales
    \<open>invariant_system\<close> and \<open>commuting_system\<close> (different steps commute, so a run that cannot go on ends where every other run leads), lists of threads with notifications, ring indices, decimal numerals.
  \<^item> \<open>Container_Interfaces\<close>: the contracts of the containers as locales (\<open>fifo_queue\<close>, \<open>bounded_fifo_queue\<close>, \<open>lifo_stack\<close>) and
    of a mutex with a condition variable (\<open>wait_monitor\<close>). A method that holds the object's mutex for its whole body
    is one atomic operation. Every locale is interpreted on the code's own operations, by the theory that models them.
  \<^item> \<open>Posix_Files\<close>: the file system and the string search the file server uses of the standard library.

  \<^bold>\<open>Containers\<close> (\<open>include/data_struct/\<close>).
  \<^item> \<open>Safe_Queue\<close> (\<open>SafeQueue\<close>, \<open>SafeQueueEnhance\<close> over a heap of nodes), \<open>Safe_Stack\<close>, \<open>Safe_Circle_Queue\<close> (64-bit indices), \<open>Safe_Map\<close> (buckets, any
    hash function): any sequence of operations returns what a list, a bounded list, a stack or a map returns; waiting threads
    are not forgotten, except by \<open>SafeQueueEnhance\<close> (see \<open>Two_Lock_Queue\<close>); the circular queue's destructor ends exactly when it is empty.
  \<^item> \<open>Locked_Map\<close>: \<open>SafeMap\<close> with every lock, search, access and unlock as a step, under the reader-writer mutexes of the buckets. It is
    linearizable: in every interleaving there is an order of the operations in which each returns what a map returns, \<open>getMap\<close> the whole map
    at one moment, and each thread's calls keep their order; some thread inside a call can always go on.
  \<^item> \<open>Two_Lock_Queue\<close>: \<open>SafeQueueEnhance\<close> with every access of a push and a pop as a step, under its two mutexes: no fault, FIFO order and
    progress in every interleaving; a thread asleep in \<open>wait_pop\<close> stays asleep whatever the others do; the unguarded read of \<open>tail_\<close> is shown to race with a push.
  \<^item> \<open>Nolock_Queue\<close> (\<open>SafeCircleQueNOLock\<close>): one step per atomic access. With one producer and one consumer the queue is a
    bounded FIFO in every interleaving; with two consumers, for every capacity and whatever is queued, the compare-and-exchange of a pop succeeds after
    the head has gone round the ring, and an element is lost.
  \<^item> \<open>Safe_List\<close>: lists of nodes with owning pointers on a heap. Searching and visiting return what was pushed; removing a
    match uses a deleted node.
  \<^item> \<open>Locked_List\<close>, \<open>Locked_List_Safety\<close>: \<open>SafeList\<close> with every lock, unlock and access of the insertions and traversals as a step, under
    the mutexes of the nodes. In every interleaving nothing faults, no element is lost, a traversal sees all that was in the list when it began and
    otherwise only what was appended since, and some thread can go on; it is shown where \<open>pushBack\<close> and \<open>findFirstIf\<close> race.

  \<^bold>\<open>Threads\<close> (\<open>include/\<close>). \<open>CSP_Channel\<close>, \<open>Thread_Pool\<close>: every mutex acquisition, predicate check, sleep and notification is a
  step; FIFO order, bounds and absence of lost wake-ups hold before \<open>stop\<close>, whose flag is set without
  the mutex and can be missed. \<open>Asio_Thread_Pool\<close>: round robin over the contexts, and \<open>stop\<close> runs what was posted.

  \<^bold>\<open>Cash machine\<close> (\<open>include/atm/\<close>). \<open>Messaging\<close> (queue, sender, receiver, dispatcher chains), \<open>Withdraw_Msg\<close> (the messages), \<open>Bank_Machine\<close>,
  \<open>Interface_Machine\<close> and \<open>Atm_Machine\<close> (one definition per handler and state function), \<open>Atm_System\<close> (the three threads with the user's
  keys as an interleaving). In all schedules: no message to the bank or the interface is dropped, a waiting cash machine has its reply
  under way, the PIN has the right length. \<open>Atm_Session\<close> adds the keys of \<open>testATM\<close>: between two keys the machines come to rest after a
  bounded number of steps (the bound is a weight of the queued messages) and the cash machine then waits for the customer.
  \<open>Atm_Commute\<close>: the steps of the machines commute, as each queue has one reader. \<open>Atm_Outcomes\<close>: hence a session (a list of groups of keys, each
  pressed when the machines are at rest or, for \<open>before_reply\<close>, when the bank has not yet taken its turn) ends in the same state whatever the schedule. In
  every schedule, from any idle state, a session with the right PIN pays exactly what the balance covers; a cancelled verification opens the
  menu to the next wrong PIN; a cancelled withdrawal that the bank denies raises the balance. Without cancellation, in all
  schedules, money is conserved and withdrawals need the accepted PIN.

  \<^bold>\<open>Echo server\<close> (\<open>include/asio/\<close>). \<open>Msg_Node\<close> (buffers), \<open>C_Session\<close> (each handler, with the loop of \<open>HandleRead\<close> as a partial function),
  \<open>Session_Protocol\<close> (the framing protocol as a specification and the proof that \<open>HandleRead\<close> returns and implements it, for any
  cut of a stream without negative lengths, dropping what does not fit into the send queue), \<open>Echo_Connection\<close> (reads and writes of one connection interleaved), \<open>C_Server\<close> (accepting, the session table, all
  connections of the event loop). \<open>Server_Safety\<close> joins the protocol of each session with the state of all of them, and \<open>Echo_Main\<close> is the program
  (\<open>src/main.cpp\<close>): it never runs out of work, it goes on serving whatever its clients do as long as none sends a negative length, and one
  new client that sends a length below minus one makes it exit. Byte order conversion and the texts of exceptions are parameters.

  \<^bold>\<open>File server\<close> (\<open>include/file_transfer/\<close>). \<open>File_Manager\<close>: one request, with pages, search and upload. \<open>Async_Server\<close>: the accept loop and the
  connections as a transition system over the completions, in which a file is sent piece by piece, each piece read from the file as it then is. The search equals
  its specification, the links of a page lead to its files, an upload can be fetched again. \<open>Async_Downloads\<close>: in every interleaving a download
  answers from the store of the files posted before it, exactly unless the file is posted again while it is being sent, and then with a mixture of
  the versions. Lemmas record where paths leave the served directory and where links, searches and the upload form do not work.

  \<^bold>\<open>Chat server\<close> (\<open>include/chat/\<close>, \<open>include/grpc/\<close>). \<open>My_Utility\<close> (identifiers at 64 bits, unique and increasing while the clock does not go
  back), \<open>WebSocket_Server\<close> (the accept loop, over two parameters for Asio), \<open>Redis_Client\<close> (contacts are a map), \<open>User_Database\<close> (logins are the successful registrations). Redis and MySQL are parameters; what
  they document is the hypothesis of the theorems, and a concrete server satisfies it.

  \<^bold>\<open>Partiality and fuel.\<close> Loops that may not end are partial functions into \<open>option\<close>: the loop of \<open>HandleRead\<close> (it returns on every input with a
  valid state), the destructors of the circular queues (they return exactly on an empty queue) and the traversals of
  \<open>SafeList\<close> (they return on every list the code can build). \<open>delete_chain\<close> and \<open>chain_values\<close> take the number of nodes ever allocated as
  fuel; no chain is longer.

  \<^bold>\<open>Not modelled.\<close> Log output other than what a handler's order depends on; Boost.Asio and Beast themselves (completions are the
  labels of the transition systems); weak memory (all atomics of the code are sequentially consistent); \<open>WebSocketSession\<close>, which is only declared; the generated gRPC code; the test programs.
\<close>

end
